(* ===== verification/Prelude.thy ===== *)
theory Prelude
  imports Main
begin

text \<open>
  Shared material of the development: the collections of facts the component proofs use,
  the error values of \<^verbatim>\<open>include/forklift/shared/Result.h\<close>, the ways a C++ call can end,
  the decimal text that \<^verbatim>\<open>std::to_string\<close> and \<^verbatim>\<open>operator<<\<close> print for integers,
  and generic lemmas on lists and strings.
\<close>

named_theorems cxx_defs \<open>definitions of small C++ helpers, unfolded by simp\<close>
named_theorems exact_arith \<open>binary32 operations that do not round\<close>
named_theorems outcome_splits \<open>case splits of the result types\<close>

subsection \<open>Results and faults\<close>

text \<open>\<^verbatim>\<open>shared::Error\<close> and \<^verbatim>\<open>shared::Result<T>\<close>: a variant of a value and an error.\<close>

record error =
  err_code :: int
  err_message :: string

type_synonym 'a result = "error + 'a"

definition mk_error :: "int \<Rightarrow> string \<Rightarrow> error" where
  "mk_error c m = \<lparr>err_code = c, err_message = m\<rparr>"

definition result_ok :: "'a result \<Rightarrow> bool" where
  "result_ok r = (case r of Inl _ \<Rightarrow> False | Inr _ \<Rightarrow> True)"

text \<open>\<open>value()\<close> and \<open>error()\<close> are \<^verbatim>\<open>std::get\<close> on the variant; the wrong alternative throws,
  which is the value \<open>None\<close> here.\<close>

definition result_value :: "'a result \<Rightarrow> 'a option" where
  "result_value r = (case r of Inl _ \<Rightarrow> None | Inr v \<Rightarrow> Some v)"

definition result_error :: "'a result \<Rightarrow> error option" where
  "result_error r = (case r of Inl e \<Rightarrow> Some e | Inr _ \<Rightarrow> None)"

text \<open>
  \<^verbatim>\<open>Result<void>\<close> is a class of its own: an \<open>err_\<close> that always exists and a flag.
  \<open>error()\<close> never throws there: without an error it is the default \<^verbatim>\<open>Error{}\<close>.
\<close>

record void_result =
  vr_err :: error
  vr_has_err :: bool

definition vr_success :: void_result where
  "vr_success = \<lparr>vr_err = mk_error 0 [], vr_has_err = False\<rparr>"

definition vr_failure :: "error \<Rightarrow> void_result" where
  "vr_failure e = \<lparr>vr_err = e, vr_has_err = True\<rparr>"

definition vr_ok :: "void_result \<Rightarrow> bool" where
  "vr_ok r = (\<not> vr_has_err r)"

text \<open>
  How a C++ call can end besides returning: an exception of some class, or undefined
  behaviour, which the model keeps as a value so that no theorem can overlook it.
\<close>

datatype fault =
    Undefined_Behaviour string
  | Exception string

type_synonym 'a run = "fault + 'a"

text \<open>
  How a call on a shared object ends when it may wait: it stays blocked on its condition
  variable (its predicate is false in this state), it faults, or it returns a value and leaves a
  new state.
\<close>

datatype ('s, 'r) op_result = Waits | Faults fault | Returns 'r 's

declare sum.splits [outcome_splits] option.splits [outcome_splits] if_splits [outcome_splits]
  op_result.splits [outcome_splits]

lemma result_ok_simps [simp]: "result_ok (Inr v) = True" "result_ok (Inl e) = False"
  by (simp_all add: result_ok_def)

lemma result_ok_iff: "result_ok r \<longleftrightarrow> (\<exists>v. r = Inr v)"
  by (cases r) auto

lemma result_value_simps [simp]: "result_value (Inr v) = Some v" "result_value (Inl e) = None"
  by (simp_all add: result_value_def)

lemma vr_ok_simps [simp]: "vr_ok vr_success" "\<not> vr_ok (vr_failure e)"
  by (simp_all add: vr_ok_def vr_success_def vr_failure_def)

subsection \<open>Decimal text of integers\<close>

text \<open>
  The digits of a non-negative integer, most significant first, as
  \<^verbatim>\<open>std::to_string\<close> and \<^verbatim>\<open>std::ostream::operator<<\<close> write them in the C locale.
\<close>

definition digit_char :: "int \<Rightarrow> char" where
  "digit_char d = ''0123456789'' ! nat d"

function dec_nonneg :: "int \<Rightarrow> string" where
  "dec_nonneg n =
     (if n < 10 then [digit_char n] else dec_nonneg (n div 10) @ [digit_char (n mod 10)])"
  by pat_completeness auto
termination
  by (relation "measure nat") auto

declare dec_nonneg.simps [simp del]

definition dec_int :: "int \<Rightarrow> string" where
  "dec_int n = (if n < 0 then CHR ''-'' # dec_nonneg (- n) else dec_nonneg n)"

definition is_digit :: "char \<Rightarrow> bool" where
  "is_digit c = (c \<in> set ''0123456789'')"

definition digit_val :: "char \<Rightarrow> int" where
  "digit_val c = int (of_char c :: nat) - 48"

definition dec_read :: "string \<Rightarrow> int" where
  "dec_read s = foldl (\<lambda>a c. 10 * a + digit_val c) 0 s"

lemma digit_cases:
  fixes d :: int
  assumes "0 \<le> d" "d < 10"
  shows "d = 0 \<or> d = 1 \<or> d = 2 \<or> d = 3 \<or> d = 4 \<or> d = 5 \<or> d = 6 \<or> d = 7 \<or> d = 8 \<or> d = 9"
  using assms by arith

lemma digit_val_char: "0 \<le> d \<Longrightarrow> d < 10 \<Longrightarrow> digit_val (digit_char d) = d"
  by (drule (1) digit_cases) (auto simp: digit_val_def digit_char_def)

lemma is_digit_char: "0 \<le> d \<Longrightarrow> d < 10 \<Longrightarrow> is_digit (digit_char d)"
  by (drule (1) digit_cases) (auto simp: is_digit_def digit_char_def)

lemma dec_read_append_digit: "dec_read (s @ [c]) = 10 * dec_read s + digit_val c"
  by (simp add: dec_read_def)

lemma dec_nonneg_read: "0 \<le> n \<Longrightarrow> dec_read (dec_nonneg n) = n"
proof (induction n rule: dec_nonneg.induct)
  case (1 n)
  show ?case
  proof (cases "n < 10")
    case True
    with "1.prems" show ?thesis
      by (subst dec_nonneg.simps) (simp add: dec_read_def digit_val_char)
  next
    case False
    with 1 have "dec_read (dec_nonneg (n div 10)) = n div 10" by simp
    with False show ?thesis
      by (subst dec_nonneg.simps) (simp add: dec_read_append_digit digit_val_char)
  qed
qed

lemma dec_nonneg_digits: "0 \<le> n \<Longrightarrow> \<forall>c \<in> set (dec_nonneg n). is_digit c"
proof (induction n rule: dec_nonneg.induct)
  case (1 n)
  then show ?case
    by (subst dec_nonneg.simps) (auto simp: is_digit_char)
qed

lemma dec_nonneg_not_empty: "dec_nonneg n \<noteq> []"
  by (subst dec_nonneg.simps) simp

lemma is_digit_not_minus [simp]: "\<not> is_digit (CHR ''-'')"
  by (simp add: is_digit_def)

lemma is_digit_not_colon [simp]: "\<not> is_digit (CHR '':'')"
  by (simp add: is_digit_def)

lemma dec_nonneg_inject: "0 \<le> m \<Longrightarrow> 0 \<le> n \<Longrightarrow> dec_nonneg m = dec_nonneg n \<longleftrightarrow> m = n"
  by (metis dec_nonneg_read)

text \<open>A rendered integer is never empty and holds digits and at most a leading minus sign.\<close>

definition int_chars :: "string \<Rightarrow> bool" where
  "int_chars s = (\<forall>c \<in> set s. is_digit c \<or> c = CHR ''-'')"

lemma dec_int_chars: "int_chars (dec_int n)"
  using dec_nonneg_digits [of n] dec_nonneg_digits [of "- n"]
  by (auto simp: dec_int_def int_chars_def)

lemma dec_int_not_empty: "dec_int n \<noteq> []"
  by (simp add: dec_int_def dec_nonneg_not_empty)

lemma dec_nonneg_no_minus: "0 \<le> n \<Longrightarrow> dec_nonneg n \<noteq> CHR ''-'' # s"
  using dec_nonneg_digits [of n] by auto

lemma dec_int_inject: "dec_int m = dec_int n \<longleftrightarrow> m = n"
proof (cases "m < 0 \<longleftrightarrow> n < 0")
  case True
  then show ?thesis
    using dec_nonneg_inject [of m n] dec_nonneg_inject [of "- m" "- n"]
    by (auto simp: dec_int_def)
next
  case False
  then show ?thesis
    using dec_nonneg_no_minus [of m] dec_nonneg_no_minus [of n]
    by (auto simp: dec_int_def) metis+
qed

subsection \<open>Lists and strings\<close>

text \<open>Two strings that end in the same separator-free tail after a separator agree part by part.\<close>

lemma append_sep_inject:
  assumes "c \<notin> set t" "c \<notin> set t'"
  shows "s @ c # t = s' @ c # t' \<longleftrightarrow> s = s' \<and> t = t'"
proof
  assume eq: "s @ c # t = s' @ c # t'"
  have tail: "takeWhile (\<lambda>x. x \<noteq> c) (rev (r @ c # u)) = rev u" if "c \<notin> set u" for r u
    using that by (simp, subst takeWhile_append2) auto
  have "rev t = rev t'"
    using tail [OF assms(1), of s] tail [OF assms(2), of s'] eq by simp
  with eq show "s = s' \<and> t = t'" by simp
qed auto

lemma int_chars_no_colon: "int_chars s \<Longrightarrow> CHR '':'' \<notin> set s"
  by (auto simp: int_chars_def)

lemma last_drop_one: "xs \<noteq> [] \<Longrightarrow> drop (length xs - 1) xs = [last xs]"
  by (induction xs) (auto simp: drop_Cons split: nat.splits)

lemma sorted_wrt_snoc: "sorted_wrt P (xs @ [x]) \<longleftrightarrow> sorted_wrt P xs \<and> (\<forall>y \<in> set xs. P y x)"
  by (simp add: sorted_wrt_append)

lemma append_sep_left:
  assumes "c \<notin> set s" "c \<notin> set s'"
  shows "s @ c # t = s' @ c # t' \<longleftrightarrow> s = s' \<and> t = t'"
  using assms
proof (induction s arbitrary: s')
  case Nil
  then show ?case by (cases s') auto
next
  case (Cons a s)
  then show ?case by (cases s') auto
qed

lemma list_all2_all: "list_all2 R xs ys \<Longrightarrow> (\<And>x y. R x y \<Longrightarrow> P y) \<Longrightarrow> list_all P ys"
  by (induction xs ys rule: list_all2_induct) auto

subsection \<open>Durations\<close>

text \<open>\<^verbatim>\<open>duration_cast<milliseconds>\<close> of nanoseconds truncates toward zero.\<close>

definition cast_ms :: "int \<Rightarrow> int" where
  "cast_ms d = (if 0 \<le> d then d div 1000000 else - (- d div 1000000))"

subsection \<open>Stores of the latest value\<close>

text \<open>A keyed store in which a put replaces what was there and touches no other key.\<close>

locale latest_store =
  fixes put :: "'k \<Rightarrow> 'v \<Rightarrow> 's \<Rightarrow> 's"
    and get :: "'k \<Rightarrow> 's \<Rightarrow> 'v option"
  assumes get_put: "get k (put k' v s) = (if k = k' then Some v else get k s)"
begin

lemma get_fold:
  "get k (fold (\<lambda>(k, v). put k v) kvs s) =
     (case map_of (rev kvs) k of None \<Rightarrow> get k s | Some v \<Rightarrow> Some v)"
proof (induction kvs rule: rev_induct)
  case (snoc kv kvs)
  then show ?case by (cases kv) (simp add: get_put)
qed simp

end

end
