(* ===== verification/Thread_Pool.thy ===== *)
theory Thread_Pool
  imports Prelude
begin

text \<open>
  \<^verbatim>\<open>shared::ThreadPool\<close> (\<^verbatim>\<open>include/forklift/shared/ThreadPool.h\<close>, \<^verbatim>\<open>src/shared/ThreadPool.cpp\<close>) as
  a step relation at the grain of its mutex and condition variable.  A worker that has found its
  wait predicate false still holds the mutex until \<^verbatim>\<open>cv_.wait\<close> releases it and blocks, in one
  atomic step; \<^verbatim>\<open>submit\<close> takes the mutex to add a task and notifies afterwards; \<^verbatim>\<open>shutdown\<close> sets
  \<^verbatim>\<open>stop_\<close> and notifies without the mutex.  Spurious wake-ups, which C++ allows but does not
  promise, are a relation of their own.
\<close>

subsection \<open>State\<close>

text \<open>Where a worker is in \<^verbatim>\<open>worker_loop\<close>.\<close>

datatype 'a worker =
    Top               \<comment> \<open>about to lock \<open>mu_\<close>\<close>
  | Testing           \<comment> \<open>holds \<open>mu_\<close>, about to evaluate the wait predicate\<close>
  | Falling_Asleep    \<comment> \<open>predicate was false, holds \<open>mu_\<close>, not yet blocked\<close>
  | Asleep            \<comment> \<open>blocked on \<open>cv_\<close>\<close>
  | Woken             \<comment> \<open>notified, about to lock \<open>mu_\<close> again\<close>
  | Running 'a        \<comment> \<open>executes a task without the mutex\<close>
  | Exited

text \<open>Where the owner is in \<^verbatim>\<open>shutdown\<close>.\<close>

datatype owner = Not_Called | Stop_Set | Joining | Joined

record 'a pool =
  tp_workers :: "nat \<Rightarrow> 'a worker"
  tp_count :: nat
  tp_mutex :: "nat option"     \<comment> \<open>the worker that holds \<open>mu_\<close>\<close>
  tp_tasks :: "'a list"
  tp_stop :: bool
  tp_notifies :: nat           \<comment> \<open>submits that have not yet called \<open>notify_one\<close>\<close>
  tp_owner :: owner
  tp_submitted :: "'a list"    \<comment> \<open>history: tasks in submission order\<close>
  tp_started :: "'a list"      \<comment> \<open>history: tasks in the order workers took them\<close>

definition tp_new :: "nat \<Rightarrow> 'a pool" where
  "tp_new worker_count =
     \<lparr>tp_workers = (\<lambda>_. Top), tp_count = worker_count, tp_mutex = None, tp_tasks = [],
      tp_stop = False, tp_notifies = 0, tp_owner = Not_Called, tp_submitted = [], tp_started = []\<rparr>"

definition set_worker :: "nat \<Rightarrow> 'a worker \<Rightarrow> 'a pool \<Rightarrow> 'a pool" where
  "set_worker i w s = s\<lparr>tp_workers := (tp_workers s)(i := w)\<rparr>"

subsection \<open>Steps\<close>

text \<open>One pass of \<^verbatim>\<open>worker_loop\<close> by worker \<open>i\<close>.\<close>

inductive worker_step :: "nat \<Rightarrow> 'a pool \<Rightarrow> 'a pool \<Rightarrow> bool" for i where
  lock: "i < tp_count s \<Longrightarrow> tp_workers s i = Top \<or> tp_workers s i = Woken \<Longrightarrow> tp_mutex s = None \<Longrightarrow>
     worker_step i s (set_worker i Testing s\<lparr>tp_mutex := Some i\<rparr>)"
| sleep: "i < tp_count s \<Longrightarrow> tp_workers s i = Testing \<Longrightarrow> \<not> tp_stop s \<Longrightarrow> tp_tasks s = [] \<Longrightarrow>
     worker_step i s (set_worker i Falling_Asleep s)"
| block: "i < tp_count s \<Longrightarrow> tp_workers s i = Falling_Asleep \<Longrightarrow>
     worker_step i s (set_worker i Asleep s\<lparr>tp_mutex := None\<rparr>)"
| exit: "i < tp_count s \<Longrightarrow> tp_workers s i = Testing \<Longrightarrow> tp_stop s \<Longrightarrow> tp_tasks s = [] \<Longrightarrow>
     worker_step i s (set_worker i Exited s\<lparr>tp_mutex := None\<rparr>)"
| take: "i < tp_count s \<Longrightarrow> tp_workers s i = Testing \<Longrightarrow> tp_tasks s = t # ts \<Longrightarrow>
     worker_step i s (set_worker i (Running t) s
       \<lparr>tp_mutex := None, tp_tasks := ts, tp_started := tp_started s @ [t]\<rparr>)"
| finish: "i < tp_count s \<Longrightarrow> tp_workers s i = Running t \<Longrightarrow>
     worker_step i s (set_worker i Top s)"

text \<open>\<^verbatim>\<open>submit\<close>: the task is added under the mutex; \<^verbatim>\<open>notify_one\<close> wakes one blocked worker, if any.\<close>

inductive submit_step :: "'a pool \<Rightarrow> 'a pool \<Rightarrow> bool" where
  enqueue: "tp_mutex s = None \<Longrightarrow>
     submit_step s (s\<lparr>tp_tasks := tp_tasks s @ [t], tp_submitted := tp_submitted s @ [t],
                      tp_notifies := Suc (tp_notifies s)\<rparr>)"
| notify_some: "tp_notifies s = Suc n \<Longrightarrow> i < tp_count s \<Longrightarrow> tp_workers s i = Asleep \<Longrightarrow>
     submit_step s (set_worker i Woken s\<lparr>tp_notifies := n\<rparr>)"
| notify_none: "tp_notifies s = Suc n \<Longrightarrow> \<forall>i < tp_count s. tp_workers s i \<noteq> Asleep \<Longrightarrow>
     submit_step s (s\<lparr>tp_notifies := n\<rparr>)"

text \<open>\<^verbatim>\<open>shutdown\<close>: the atomic exchange, \<^verbatim>\<open>notify_all\<close>, and the joins.  A second call returns at once.\<close>

inductive shutdown_step :: "'a pool \<Rightarrow> 'a pool \<Rightarrow> bool" where
  set_stop: "tp_owner s = Not_Called \<Longrightarrow>
     shutdown_step s (s\<lparr>tp_stop := True, tp_owner := Stop_Set\<rparr>)"
| notify_all: "tp_owner s = Stop_Set \<Longrightarrow>
     shutdown_step s (s\<lparr>tp_workers := (\<lambda>i. if tp_workers s i = Asleep then Woken else tp_workers s i),
                        tp_owner := Joining\<rparr>)"
| join: "tp_owner s = Joining \<Longrightarrow> \<forall>i < tp_count s. tp_workers s i = Exited \<Longrightarrow>
     shutdown_step s (s\<lparr>tp_owner := Joined\<rparr>)"

inductive tp_step :: "'a pool \<Rightarrow> 'a pool \<Rightarrow> bool" where
  worker: "worker_step i s s' \<Longrightarrow> tp_step s s'"
| submit: "submit_step s s' \<Longrightarrow> tp_step s s'"
| shutdown: "shutdown_step s s' \<Longrightarrow> tp_step s s'"
| spurious: "i < tp_count s \<Longrightarrow> tp_workers s i = Asleep \<Longrightarrow> tp_step s (set_worker i Woken s)"

inductive tp_reachable :: "nat \<Rightarrow> 'a pool \<Rightarrow> bool" for n where
  start: "tp_reachable n (tp_new n)"
| step: "tp_reachable n s \<Longrightarrow> tp_step s s' \<Longrightarrow> tp_reachable n s'"

inductive_cases worker_stepE: "worker_step i s s'"
inductive_cases submit_stepE: "submit_step s s'"
inductive_cases shutdown_stepE: "shutdown_step s s'"
inductive_cases tp_stepE: "tp_step s s'"

lemma set_worker_sel [simp]:
  "tp_workers (set_worker i w s) = (tp_workers s)(i := w)"
  "tp_count (set_worker i w s) = tp_count s"
  "tp_mutex (set_worker i w s) = tp_mutex s"
  "tp_tasks (set_worker i w s) = tp_tasks s"
  "tp_stop (set_worker i w s) = tp_stop s"
  "tp_notifies (set_worker i w s) = tp_notifies s"
  "tp_owner (set_worker i w s) = tp_owner s"
  "tp_submitted (set_worker i w s) = tp_submitted s"
  "tp_started (set_worker i w s) = tp_started s"
  by (simp_all add: set_worker_def)

subsection \<open>Invariant\<close>

text \<open>A worker that will look at the task queue again without being notified.\<close>

definition active :: "'a worker \<Rightarrow> bool" where
  "active w = (case w of Top \<Rightarrow> True | Testing \<Rightarrow> True | Woken \<Rightarrow> True | Running _ \<Rightarrow> True | _ \<Rightarrow> False)"

definition holds_mutex :: "'a worker \<Rightarrow> bool" where
  "holds_mutex w = (w = Testing \<or> w = Falling_Asleep)"

definition mutex_inv :: "'a pool \<Rightarrow> bool" where
  "mutex_inv s = ((\<forall>i < tp_count s. holds_mutex (tp_workers s i) \<longleftrightarrow> tp_mutex s = Some i) \<and>
     (\<forall>i. tp_mutex s = Some i \<longrightarrow> i < tp_count s))"

definition fifo_inv :: "'a pool \<Rightarrow> bool" where
  "fifo_inv s = (tp_started s @ tp_tasks s = tp_submitted s)"

definition sleep_inv :: "'a pool \<Rightarrow> bool" where
  "sleep_inv s = (\<forall>i < tp_count s. tp_workers s i = Falling_Asleep \<longrightarrow> tp_tasks s = [])"

definition exit_inv :: "'a pool \<Rightarrow> bool" where
  "exit_inv s = ((\<forall>i < tp_count s. tp_workers s i = Exited \<longrightarrow> tp_stop s) \<and>
     (tp_stop s \<longleftrightarrow> tp_owner s \<noteq> Not_Called))"

definition wake_inv :: "'a pool \<Rightarrow> bool" where
  "wake_inv s = (\<not> tp_stop s \<and> tp_tasks s \<noteq> [] \<longrightarrow>
     0 < tp_notifies s \<or> (\<exists>i < tp_count s. active (tp_workers s i)))"

lemmas tp_inv_defs = mutex_inv_def fifo_inv_def sleep_inv_def exit_inv_def wake_inv_def

definition tp_inv :: "'a pool \<Rightarrow> bool" where
  "tp_inv s = (0 < tp_count s \<and> mutex_inv s \<and> fifo_inv s \<and> sleep_inv s \<and> exit_inv s \<and> wake_inv s)"

lemma tp_inv_init: "0 < n \<Longrightarrow> tp_inv (tp_new n)"
  by (simp add: tp_inv_def tp_inv_defs tp_new_def holds_mutex_def)

lemma holder_unique:
  "mutex_inv s \<Longrightarrow> i < tp_count s \<Longrightarrow> j < tp_count s \<Longrightarrow>
   holds_mutex (tp_workers s i) \<Longrightarrow> holds_mutex (tp_workers s j) \<Longrightarrow> i = j"
  by (auto simp: mutex_inv_def)

lemma holds_mutex_simps [simp]:
  "holds_mutex Testing" "holds_mutex Falling_Asleep" "\<not> holds_mutex Top" "\<not> holds_mutex Asleep"
  "\<not> holds_mutex Woken" "\<not> holds_mutex (Running t)" "\<not> holds_mutex Exited"
  by (simp_all add: holds_mutex_def)

lemma active_simps [simp]:
  "active Top" "active Testing" "active Woken" "active (Running t)"
  "\<not> active Falling_Asleep" "\<not> active Asleep" "\<not> active Exited"
  by (simp_all add: active_def)

lemma mutex_inv_worker: "worker_step i s s' \<Longrightarrow> mutex_inv s \<Longrightarrow> mutex_inv s'"
  by (induction rule: worker_step.induct)
    (simp_all add: mutex_inv_def; metis holds_mutex_simps option.inject)+

lemma sleep_inv_worker: "worker_step i s s' \<Longrightarrow> mutex_inv s \<Longrightarrow> sleep_inv s \<Longrightarrow> sleep_inv s'"
  by (induction rule: worker_step.induct)
    (auto simp: sleep_inv_def dest: holder_unique [of s i] holder_unique)

lemma fifo_inv_worker: "worker_step i s s' \<Longrightarrow> fifo_inv s \<Longrightarrow> fifo_inv s'"
  by (induction rule: worker_step.induct) (auto simp: fifo_inv_def)

lemma exit_inv_worker: "worker_step i s s' \<Longrightarrow> exit_inv s \<Longrightarrow> exit_inv s'"
  by (induction rule: worker_step.induct) (auto simp: exit_inv_def)

lemma wake_inv_worker: "worker_step i s s' \<Longrightarrow> sleep_inv s \<Longrightarrow> wake_inv s \<Longrightarrow> wake_inv s'"
proof (induction rule: worker_step.induct)
  case (take s t ts)
  then show ?case by (auto simp: wake_inv_def)
qed (auto simp: wake_inv_def sleep_inv_def)

lemma tp_count_step: "tp_step s s' \<Longrightarrow> tp_count s' = tp_count s"
  by (auto elim!: tp_stepE worker_stepE submit_stepE shutdown_stepE)

lemma tp_inv_worker: "worker_step i s s' \<Longrightarrow> tp_inv s \<Longrightarrow> tp_inv s'"
  using tp_count_step [OF tp_step.worker, of i s s']
  by (simp add: tp_inv_def mutex_inv_worker sleep_inv_worker fifo_inv_worker exit_inv_worker wake_inv_worker)

text \<open>
  A task added under the mutex cannot slip past a worker that is about to block, since that worker
  holds the mutex; this is what keeps the wake-up of a submit from being lost.
\<close>

lemma tp_inv_submit:
  assumes "submit_step s s'" "tp_inv s"
  shows "tp_inv s'"
  using assms
proof (induction rule: submit_step.induct)
  case (enqueue s t)
  then have "tp_workers s i \<noteq> Falling_Asleep" if "i < tp_count s" for i
    using that by (auto simp: tp_inv_def mutex_inv_def)
  with enqueue show ?case
    by (auto simp: tp_inv_def tp_inv_defs)
next
  case (notify_some s n i)
  then show ?case by (auto simp: tp_inv_def tp_inv_defs)
next
  case (notify_none s n)
  have "\<exists>i < tp_count s. active (tp_workers s i)" if "\<not> tp_stop s" "tp_tasks s \<noteq> []"
  proof -
    have "tp_workers s 0 \<noteq> Asleep" "tp_workers s 0 \<noteq> Falling_Asleep" "tp_workers s 0 \<noteq> Exited"
      using notify_none that by (auto simp: tp_inv_def sleep_inv_def exit_inv_def)
    then have "active (tp_workers s 0)" by (cases "tp_workers s 0") auto
    with notify_none show ?thesis by (auto simp: tp_inv_def)
  qed
  with notify_none show ?case
    by (auto simp: tp_inv_def tp_inv_defs)
qed

lemma tp_inv_shutdown: "shutdown_step s s' \<Longrightarrow> tp_inv s \<Longrightarrow> tp_inv s'"
  by (induction rule: shutdown_step.induct) (auto simp: tp_inv_def tp_inv_defs)

lemma tp_inv_step: "tp_step s s' \<Longrightarrow> tp_inv s \<Longrightarrow> tp_inv s'"
proof (induction rule: tp_step.induct)
  case (spurious i s)
  then show ?case by (auto simp: tp_inv_def tp_inv_defs)
qed (blast intro: tp_inv_worker tp_inv_submit tp_inv_shutdown)+

lemma tp_inv_reachable: "tp_reachable n s \<Longrightarrow> 0 < n \<Longrightarrow> tp_inv s"
  by (induction rule: tp_reachable.induct) (blast intro: tp_inv_init tp_inv_step)+

subsection \<open>Shutdown from a state in which no worker sleeps\<close>

definition worker_rank :: "'a worker \<Rightarrow> nat" where
  "worker_rank w = (case w of Exited \<Rightarrow> 0 | Testing \<Rightarrow> 1 | Top \<Rightarrow> 2 | Woken \<Rightarrow> 2 | Running _ \<Rightarrow> 3 | _ \<Rightarrow> 0)"

text \<open>An upper bound on the worker steps left: four per queued task and those of the workers.\<close>

definition pool_rank :: "'a pool \<Rightarrow> nat" where
  "pool_rank s = 4 * length (tp_tasks s) + (\<Sum>i < tp_count s. worker_rank (tp_workers s i))"

definition all_awake :: "'a pool \<Rightarrow> bool" where
  "all_awake s = (tp_stop s \<and>
     (\<forall>i < tp_count s. tp_workers s i \<noteq> Asleep \<and> tp_workers s i \<noteq> Falling_Asleep))"

lemma sum_upd_rank:
  fixes i n :: nat
  assumes "i < n"
  shows "(\<Sum>j < n. worker_rank ((f(i := w)) j)) + worker_rank (f i) = (\<Sum>j < n. worker_rank (f j)) + worker_rank w"
proof -
  have "(\<Sum>j < n. worker_rank (g j)) = worker_rank (g i) + (\<Sum>j \<in> {..<n} - {i}. worker_rank (g j))" for g
    using assms by (simp add: sum.remove)
  from this [of f] this [of "f(i := w)"] show ?thesis by simp
qed

lemma all_awake_step:
  assumes "worker_step i s s'" "all_awake s"
  shows "all_awake s' \<and> pool_rank s' < pool_rank s"
  using assms
proof (induction rule: worker_step.induct)
  case (lock s)
  then show ?case
    using sum_upd_rank [of i "tp_count s" "tp_workers s" Testing]
    by (auto simp: all_awake_def pool_rank_def worker_rank_def)
next
  case (exit s)
  then show ?case
    using sum_upd_rank [of i "tp_count s" "tp_workers s" Exited]
    by (auto simp: all_awake_def pool_rank_def worker_rank_def)
next
  case (take s t ts)
  then show ?case
    using sum_upd_rank [of i "tp_count s" "tp_workers s" "Running t"]
    by (auto simp: all_awake_def pool_rank_def worker_rank_def)
next
  case (finish s t)
  then show ?case
    using sum_upd_rank [of i "tp_count s" "tp_workers s" Top]
    by (auto simp: all_awake_def pool_rank_def worker_rank_def)
qed (auto simp: all_awake_def)

text \<open>Some worker can always move: the holder of the mutex, or any other worker if it is free.\<close>

lemma all_awake_progress:
  assumes "tp_inv s" "all_awake s" "i < tp_count s" "tp_workers s i \<noteq> Exited"
  shows "\<exists>j s'. worker_step j s s'"
proof (cases "tp_mutex s")
  case (Some j)
  then have j: "j < tp_count s" "tp_workers s j = Testing"
    using assms(1,2) by (auto simp: tp_inv_def mutex_inv_def all_awake_def holds_mutex_def)
  show ?thesis
    using worker_step.exit [OF j] worker_step.take [OF j] assms(2)
    by (cases "tp_tasks s") (auto simp: all_awake_def)
next
  case None
  then have "\<not> holds_mutex (tp_workers s i)"
    using assms(1,3) by (auto simp: tp_inv_def mutex_inv_def)
  then have "tp_workers s i = Top \<or> tp_workers s i = Woken \<or> (\<exists>t. tp_workers s i = Running t)"
    using assms(2-4) by (cases "tp_workers s i") (auto simp: all_awake_def)
  then show ?thesis
    using worker_step.lock [OF assms(3) _ None] worker_step.finish [OF assms(3)] by auto
qed

inductive worker_steps :: "nat \<Rightarrow> 'a pool \<Rightarrow> 'a pool \<Rightarrow> bool" where
  none: "worker_steps 0 s s"
| more: "worker_step i s s' \<Longrightarrow> worker_steps k s' s'' \<Longrightarrow> worker_steps (Suc k) s s''"

lemma worker_steps_bound: "worker_steps k s s' \<Longrightarrow> all_awake s \<Longrightarrow> all_awake s' \<and> k + pool_rank s' \<le> pool_rank s"
proof (induction rule: worker_steps.induct)
  case (more i s s' k s'')
  then have "all_awake s'" "pool_rank s' < pool_rank s"
    using all_awake_step by blast+
  with more.IH show ?case by linarith
qed simp

lemma worker_steps_inv: "worker_steps k s s' \<Longrightarrow> tp_inv s \<Longrightarrow> tp_inv s' \<and> tp_count s' = tp_count s"
proof (induction rule: worker_steps.induct)
  case (more i s s' k s'')
  then show ?case
    using tp_inv_worker [of i s s'] tp_count_step [OF tp_step.worker [of i s s']] by simp
qed simp

text \<open>All workers have exited and every task that was submitted has been started.\<close>

definition drained :: "'a pool \<Rightarrow> bool" where
  "drained s = ((\<forall>i < tp_count s. tp_workers s i = Exited) \<and> tp_started s = tp_submitted s)"

definition served :: "'a pool \<Rightarrow> bool" where
  "served s = (tp_tasks s = [] \<or> (\<exists>i < tp_count s. tp_workers s i \<noteq> Exited))"

lemma served_step: "worker_step i s s' \<Longrightarrow> served s \<Longrightarrow> served s'"
  by (induction rule: worker_step.induct) (auto simp: served_def)

lemma worker_steps_served: "worker_steps k s s' \<Longrightarrow> served s \<Longrightarrow> served s'"
  by (induction rule: worker_steps.induct) (blast intro: served_step)+

lemma joined_exited:
  "tp_reachable n s \<Longrightarrow> tp_owner s = Joined \<longrightarrow> (\<forall>i < tp_count s. tp_workers s i = Exited)"
proof (induction rule: tp_reachable.induct)
  case (step s s')
  then show ?case
    by (auto elim!: tp_stepE worker_stepE submit_stepE shutdown_stepE)
qed (simp add: tp_new_def)

subsection \<open>Properties\<close>

text \<open>
  C35: In every reachable state the mutex is held by at most one worker, and the tasks taken so far
  followed by the queue are exactly the submitted tasks in order: each task runs at most once and
  in first-in first-out order.
\<close>

theorem pool_fifo_once:
  assumes "tp_reachable n s" "0 < n"
  shows "tp_started s @ tp_tasks s = tp_submitted s \<and>
    (\<forall>i < tp_count s. \<forall>j < tp_count s.
       holds_mutex (tp_workers s i) \<and> holds_mutex (tp_workers s j) \<longrightarrow> i = j)"
  using tp_inv_reachable [OF assms] holder_unique [of s]
  by (auto simp: tp_inv_def fifo_inv_def)

text \<open>A pool of one worker with one task just submitted, for the witnesses.\<close>

definition one_task_pool :: "nat pool" where
  "one_task_pool = (tp_new 1)\<lparr>tp_tasks := [5], tp_submitted := [5], tp_notifies := 1\<rparr>"

lemma one_task_pool_reachable: "tp_reachable 1 one_task_pool"
  using tp_reachable.step [OF tp_reachable.start [of 1] tp_step.submit [OF submit_step.enqueue [of "tp_new 1" "5::nat"]]]
  by (simp add: tp_new_def one_task_pool_def)

theorem pool_fifo_once_witness:
  "tp_started one_task_pool @ tp_tasks one_task_pool = tp_submitted one_task_pool"
  using pool_fifo_once [OF one_task_pool_reachable] by simp

text \<open>
  No submit is overlooked while the pool runs: with a task in the queue, either a notification
  is still to be sent or some worker is on its way to look at the queue.
\<close>

theorem pool_no_lost_submit:
  assumes "tp_reachable n s" "0 < n" "\<not> tp_stop s" "tp_tasks s \<noteq> []"
  shows "0 < tp_notifies s \<or> (\<exists>i < tp_count s. active (tp_workers s i))"
  using tp_inv_reachable [OF assms(1,2)] assms(3,4) by (auto simp: tp_inv_def wake_inv_def)

theorem pool_no_lost_submit_witness:
  "0 < tp_notifies one_task_pool \<or> (\<exists>i < tp_count one_task_pool. active (tp_workers one_task_pool i))"
  by (rule pool_no_lost_submit [OF one_task_pool_reachable]) (simp_all add: one_task_pool_def tp_new_def)

text \<open>
  Once \<^verbatim>\<open>shutdown\<close> has set the flag and no worker is blocked or about to block, it completes: no
  schedule has more than \<open>pool_rank\<close> worker steps, and a schedule that cannot be extended ends with
  every worker exited and every submitted task started, so the joins return.
\<close>

theorem shutdown_completes:
  assumes "tp_reachable n s" "0 < n" "all_awake s" "\<exists>i < tp_count s. tp_workers s i \<noteq> Exited"
    and "worker_steps k s s'"
  shows "k \<le> pool_rank s \<and> ((\<exists>j s''. worker_step j s' s'') \<or> drained s')"
proof -
  have inv: "tp_inv s" by (rule tp_inv_reachable [OF assms(1,2)])
  have awake: "all_awake s'" "k \<le> pool_rank s"
    using worker_steps_bound [OF assms(5,3)] by auto
  have inv': "tp_inv s'" using worker_steps_inv [OF assms(5) inv] by simp
  have "served s'" using worker_steps_served [OF assms(5)] assms(4) by (simp add: served_def)
  then have "drained s'" if "\<forall>i < tp_count s'. tp_workers s' i = Exited"
    using that inv' by (auto simp: drained_def served_def tp_inv_def fifo_inv_def)
  then show ?thesis
    using all_awake_progress [OF inv' awake(1)] awake(2) by blast
qed

theorem shutdown_completes_witness:
  "pool_rank (one_task_pool\<lparr>tp_stop := True, tp_owner := Stop_Set\<rparr>) = 6 \<and>
   ((\<exists>j s''. worker_step j (one_task_pool\<lparr>tp_stop := True, tp_owner := Stop_Set\<rparr>) s'') \<or>
    drained (one_task_pool\<lparr>tp_stop := True, tp_owner := Stop_Set\<rparr>))"
proof -
  let ?s = "one_task_pool\<lparr>tp_stop := True, tp_owner := Stop_Set\<rparr>"
  have r: "tp_reachable 1 ?s"
    using tp_reachable.step [OF one_task_pool_reachable tp_step.shutdown [OF shutdown_step.set_stop]]
    by (simp add: one_task_pool_def tp_new_def)
  have "all_awake ?s" "\<exists>i < tp_count ?s. tp_workers ?s i \<noteq> Exited"
    by (simp_all add: all_awake_def one_task_pool_def tp_new_def)
  then show ?thesis
    using shutdown_completes [OF r _ _ _ worker_steps.none]
    by (simp add: pool_rank_def worker_rank_def one_task_pool_def tp_new_def)
qed

text \<open>
  The flag is set and the workers are notified outside the mutex, so the notification can fall
  between a worker's test and its wait: a reachable state exists in which \<^verbatim>\<open>shutdown\<close> has notified
  and waits in its joins, the worker is blocked, nothing is queued and no notification is pending;
  only a spurious wake-up or a new submit could move it, the worker and the owner cannot.
\<close>

theorem shutdown_lost_wakeup:
  "\<exists>s :: nat pool. tp_reachable 1 s \<and> tp_owner s = Joining \<and> tp_stop s \<and> tp_workers s 0 = Asleep \<and>
     tp_tasks s = [] \<and> tp_notifies s = 0 \<and>
     \<not> (\<exists>i s'. worker_step i s s') \<and> \<not> (\<exists>s'. shutdown_step s s')"
proof -
  let ?s0 = "tp_new 1 :: nat pool"
  let ?s1 = "set_worker 0 Testing ?s0\<lparr>tp_mutex := Some 0\<rparr>"
  let ?s2 = "set_worker 0 Falling_Asleep ?s1"
  let ?s3 = "?s2\<lparr>tp_stop := True, tp_owner := Stop_Set\<rparr>"
  let ?s4 = "?s3\<lparr>tp_workers := (\<lambda>i. if tp_workers ?s3 i = Asleep then Woken else tp_workers ?s3 i),
                 tp_owner := Joining\<rparr>"
  let ?s5 = "set_worker 0 Asleep ?s4\<lparr>tp_mutex := None\<rparr>"
  have "tp_step ?s0 ?s1"
    by (rule tp_step.worker [OF worker_step.lock]) (simp_all add: tp_new_def)
  moreover have "tp_step ?s1 ?s2"
    by (rule tp_step.worker [OF worker_step.sleep]) (simp_all add: tp_new_def)
  moreover have "tp_step ?s2 ?s3"
    by (rule tp_step.shutdown [OF shutdown_step.set_stop]) (simp add: tp_new_def)
  moreover have "tp_step ?s3 ?s4"
    by (rule tp_step.shutdown [OF shutdown_step.notify_all]) simp
  moreover have "tp_step ?s4 ?s5"
    by (rule tp_step.worker [OF worker_step.block]) (simp_all add: tp_new_def)
  ultimately have r: "tp_reachable 1 ?s5"
    by (meson tp_reachable.start tp_reachable.step)
  have stuck: "\<not> worker_step i ?s5 s'" "\<not> shutdown_step ?s5 s'" for i s'
    by (auto elim!: worker_stepE shutdown_stepE simp: tp_new_def)
  show ?thesis
    using r stuck by (intro exI [of _ ?s5]) (simp add: tp_new_def)
qed

text \<open>
  A submit after shutdown is accepted and never run: once the pool is joined its workers have all
  exited, and in no state reached later has any further task been started.
\<close>

theorem submit_after_join_never_runs:
  assumes "tp_reachable n s" "tp_owner s = Joined" "tp_step s s'"
  shows "tp_owner s' = Joined \<and> (\<forall>i < tp_count s. tp_workers s i = Exited) \<and> tp_started s' = tp_started s"
proof -
  have ex: "\<forall>i < tp_count s. tp_workers s i = Exited"
    using joined_exited [OF assms(1)] assms(2) by blast
  then show ?thesis
    using assms(2,3) by (auto elim!: tp_stepE worker_stepE submit_stepE shutdown_stepE)
qed

theorem submit_after_join_never_runs_witness:
  "\<exists>s s' :: nat pool. tp_reachable 1 s \<and> tp_step s s' \<and> tp_tasks s' = [5] \<and> tp_started s' = tp_started s \<and>
     tp_workers s 0 = Exited"
proof -
  let ?s0 = "tp_new 1 :: nat pool"
  let ?s1 = "set_worker 0 Testing ?s0\<lparr>tp_mutex := Some 0\<rparr>"
  let ?s2 = "?s1\<lparr>tp_stop := True, tp_owner := Stop_Set\<rparr>"
  let ?s3 = "set_worker 0 Exited ?s2\<lparr>tp_mutex := None\<rparr>"
  let ?s4 = "?s3\<lparr>tp_workers := (\<lambda>i. if tp_workers ?s3 i = Asleep then Woken else tp_workers ?s3 i),
                 tp_owner := Joining\<rparr>"
  let ?s5 = "?s4\<lparr>tp_owner := Joined\<rparr>"
  let ?s6 = "?s5\<lparr>tp_tasks := tp_tasks ?s5 @ [5], tp_submitted := tp_submitted ?s5 @ [5],
                 tp_notifies := Suc (tp_notifies ?s5)\<rparr>"
  have "tp_step ?s0 ?s1"
    by (rule tp_step.worker [OF worker_step.lock]) (simp_all add: tp_new_def)
  moreover have "tp_step ?s1 ?s2"
    by (rule tp_step.shutdown [OF shutdown_step.set_stop]) (simp add: tp_new_def)
  moreover have "tp_step ?s2 ?s3"
    by (rule tp_step.worker [OF worker_step.exit]) (simp_all add: tp_new_def)
  moreover have "tp_step ?s3 ?s4"
    by (rule tp_step.shutdown [OF shutdown_step.notify_all]) simp
  moreover have "tp_step ?s4 ?s5"
    by (rule tp_step.shutdown [OF shutdown_step.join]) (simp_all add: tp_new_def)
  ultimately have r: "tp_reachable 1 ?s5"
    by (meson tp_reachable.start tp_reachable.step)
  have st: "tp_step ?s5 ?s6"
    by (rule tp_step.submit [OF submit_step.enqueue]) simp
  show ?thesis
    using submit_after_join_never_runs [OF r _ st] r st
    by (intro exI [of _ ?s5] exI [of _ ?s6]) (simp add: tp_new_def)
qed

end
