(* ===== verification/Bounded_Queue.thy ===== *)
theory Bounded_Queue
  imports Prelude "HOL-Library.Sublist"
begin

text \<open>
  \<^verbatim>\<open>shared::ConcurrentQueue<T>\<close> (\<^verbatim>\<open>include/forklift/shared/ConcurrentQueue.h\<close>).  Every operation
  runs under the mutex, so it is one function on the queue's state; a wait whose predicate is
  false is the value \<open>Waits\<close>, in which the caller stays blocked and nothing changes.  The drop-oldest
  behaviour is stated once, as the locale \<open>sliding_window\<close>, which the alert queue of the WebSocket
  publisher shares.
\<close>

subsection \<open>State and operations\<close>

datatype overflow_policy = kBlockWhenFull | kDropOldestWhenFull

record 'a cqueue =
  cq_items :: "'a list"
  cq_capacity :: nat
  cq_policy :: overflow_policy
  cq_dropped :: nat
  cq_closed :: bool

definition cq_new :: "nat \<Rightarrow> overflow_policy \<Rightarrow> 'a cqueue" where
  "cq_new capacity policy =
     \<lparr>cq_items = [], cq_capacity = capacity, cq_policy = policy, cq_dropped = 0, cq_closed = False\<rparr>"

text \<open>\<^verbatim>\<open>pop_front\<close> on an empty \<^verbatim>\<open>std::deque\<close> is undefined behaviour.\<close>

definition cq_push :: "'a \<Rightarrow> 'a cqueue \<Rightarrow> ('a cqueue, bool) op_result" where
  "cq_push v q =
     (if cq_policy q = kBlockWhenFull then
        if \<not> (cq_closed q \<or> length (cq_items q) < cq_capacity q) then Waits
        else if cq_closed q then Returns False q
        else Returns True (q\<lparr>cq_items := cq_items q @ [v]\<rparr>)
      else if cq_capacity q \<le> length (cq_items q) then
        (case cq_items q of
           [] \<Rightarrow> Faults (Undefined_Behaviour ''pop_front on an empty deque'')
         | _ # rest \<Rightarrow>
             Returns True (q\<lparr>cq_items := rest @ [v], cq_dropped := Suc (cq_dropped q)\<rparr>))
      else Returns True (q\<lparr>cq_items := cq_items q @ [v]\<rparr>))"

definition cq_pop :: "'a cqueue \<Rightarrow> ('a cqueue, 'a option) op_result" where
  "cq_pop q =
     (if \<not> (cq_closed q \<or> cq_items q \<noteq> []) then Waits
      else case cq_items q of
          [] \<Rightarrow> Returns None q
        | v # rest \<Rightarrow> Returns (Some v) (q\<lparr>cq_items := rest\<rparr>))"

text \<open>The loop of \<open>pop_latest\<close>: drop from the front while more than one item is left.\<close>

fun drop_backlog :: "'a list \<Rightarrow> nat \<Rightarrow> 'a list \<times> nat" where
  "drop_backlog (x # y # rest) dropped = drop_backlog (y # rest) (Suc dropped)"
| "drop_backlog items dropped = (items, dropped)"

definition cq_pop_latest :: "'a cqueue \<Rightarrow> ('a cqueue, 'a option) op_result" where
  "cq_pop_latest q =
     (if \<not> (cq_closed q \<or> cq_items q \<noteq> []) then Waits
      else case drop_backlog (cq_items q) (cq_dropped q) of
          ([], d) \<Rightarrow> Returns None q
        | (v # rest, d) \<Rightarrow> Returns (Some v) (q\<lparr>cq_items := rest, cq_dropped := d\<rparr>))"

definition cq_close :: "'a cqueue \<Rightarrow> 'a cqueue" where
  "cq_close q = q\<lparr>cq_closed := True\<rparr>"

definition cq_size :: "'a cqueue \<Rightarrow> nat" where
  "cq_size q = length (cq_items q)"

lemma drop_backlog_eq:
  "xs \<noteq> [] \<Longrightarrow> drop_backlog xs d = ([last xs], d + (length xs - 1))"
  by (induction xs d rule: drop_backlog.induct) auto

lemma drop_backlog_Nil [simp]: "drop_backlog [] d = ([], d)"
  by simp

lemma cq_pop_latest_eq:
  "cq_pop_latest q =
     (if cq_items q = [] then (if cq_closed q then Returns None q else Waits)
      else Returns (Some (last (cq_items q)))
             (q\<lparr>cq_items := [], cq_dropped := cq_dropped q + (length (cq_items q) - 1)\<rparr>))"
  by (simp add: cq_pop_latest_def drop_backlog_eq split: prod.splits)

lemma cq_push_drop:
  "cq_policy q = kDropOldestWhenFull \<Longrightarrow> 0 < cq_capacity q \<Longrightarrow>
   cq_push v q = Returns True
     (if cq_capacity q \<le> length (cq_items q)
      then q\<lparr>cq_items := tl (cq_items q) @ [v], cq_dropped := Suc (cq_dropped q)\<rparr>
      else q\<lparr>cq_items := cq_items q @ [v]\<rparr>)"
  by (auto simp: cq_push_def split: list.splits)

subsection \<open>The drop-oldest contract\<close>

text \<open>
  What a client of a drop-oldest queue relies on: a push never blocks, and the contents become
  the old ones, without the oldest when the bound is reached, followed by the new value.
\<close>

locale sliding_window =
  fixes push :: "'a \<Rightarrow> 'q \<Rightarrow> 'q"
    and contents :: "'q \<Rightarrow> 'a list"
    and bound :: "'q \<Rightarrow> nat"
    and invar :: "'q \<Rightarrow> bool"
  assumes contents_push: "invar q \<Longrightarrow> contents (push v q) =
      (if bound q \<le> length (contents q) then tl (contents q) else contents q) @ [v]"
    and invar_push: "invar q \<Longrightarrow> invar (push v q)"
    and bound_push: "invar q \<Longrightarrow> bound (push v q) = bound q"
    and invar_bound: "invar q \<Longrightarrow> 0 < bound q \<and> length (contents q) \<le> bound q"
begin

lemma contents_push_eq:
  "invar q \<Longrightarrow> contents (push v q) =
     drop (length (contents q @ [v]) - bound q) (contents q @ [v])"
  using invar_bound [of q]
  by (cases "length (contents q) = bound q") (auto simp: contents_push drop_Suc)

lemma fold_push:
  "invar q \<Longrightarrow> invar (fold push vs q) \<and> bound (fold push vs q) = bound q \<and>
     contents (fold push vs q) = drop (length (contents q @ vs) - bound q) (contents q @ vs)"
proof (induction vs arbitrary: q)
  case Nil
  then show ?case using invar_bound [of q] by simp
next
  case (Cons v vs)
  let ?q = "push v q" and ?n = "length (contents q)" and ?b = "bound q"
  from Cons.prems have q: "invar ?q" "bound ?q = ?b" by (simp_all add: invar_push bound_push)
  have c: "contents ?q = drop (Suc ?n - ?b) (contents q @ [v])"
    using contents_push_eq [OF Cons.prems] by simp
  have len: "0 < ?b" "?n \<le> ?b" using invar_bound [OF Cons.prems] by auto
  have "contents (fold push vs ?q) = drop (length (contents ?q @ vs) - ?b) (contents ?q @ vs)"
    using Cons.IH [OF q(1)] q(2) by simp
  also have "contents ?q @ vs = drop (Suc ?n - ?b) (contents q @ v # vs)"
    using c len by (simp add: drop_append)
  finally have "contents (fold push vs ?q) = drop (length (contents q @ v # vs) - ?b) (contents q @ v # vs)"
    using c len by (simp add: add.commute) (rule arg_cong2 [where f = drop]; simp)
  then show ?case using Cons.IH [OF q(1)] q(2) by simp
qed

lemma newest_kept: "invar q \<Longrightarrow> contents (push v q) \<noteq> [] \<and> last (contents (push v q)) = v"
  by (simp add: contents_push)

end

text \<open>The queue of the pipeline: the drop-oldest policy with a positive capacity.\<close>

definition cq_window :: "'a cqueue \<Rightarrow> bool" where
  "cq_window q = (cq_policy q = kDropOldestWhenFull \<and> 0 < cq_capacity q \<and>
     length (cq_items q) \<le> cq_capacity q)"

definition cq_push_state :: "'a \<Rightarrow> 'a cqueue \<Rightarrow> 'a cqueue" where
  "cq_push_state v q = (case cq_push v q of Returns _ q' \<Rightarrow> q' | _ \<Rightarrow> q)"

interpretation cqw: sliding_window cq_push_state cq_items cq_capacity cq_window
  by unfold_locales (auto simp: cq_push_state_def cq_push_drop cq_window_def)

subsection \<open>Histories\<close>

text \<open>
  A history of the queue: the values whose push returned true and the values handed to consumers,
  with the current queue.  A blocked call makes no step until its predicate holds.
\<close>

type_synonym 'a history = "'a list \<times> 'a list \<times> 'a cqueue"

inductive cq_step :: "'a history \<Rightarrow> 'a history \<Rightarrow> bool" where
  push_ok: "cq_push v q = Returns True q' \<Longrightarrow> cq_step (ins, outs, q) (ins @ [v], outs, q')"
| push_refused: "cq_push v q = Returns False q' \<Longrightarrow> cq_step (ins, outs, q) (ins, outs, q')"
| pop_value: "cq_pop q = Returns (Some v) q' \<Longrightarrow> cq_step (ins, outs, q) (ins, outs @ [v], q')"
| pop_end: "cq_pop q = Returns None q' \<Longrightarrow> cq_step (ins, outs, q) (ins, outs, q')"
| latest_value: "cq_pop_latest q = Returns (Some v) q' \<Longrightarrow> cq_step (ins, outs, q) (ins, outs @ [v], q')"
| latest_end: "cq_pop_latest q = Returns None q' \<Longrightarrow> cq_step (ins, outs, q) (ins, outs, q')"
| close: "cq_step (ins, outs, q) (ins, outs, cq_close q)"

inductive cq_reachable :: "nat \<Rightarrow> overflow_policy \<Rightarrow> 'a history \<Rightarrow> bool" for cap pol where
  start: "cq_reachable cap pol ([], [], cq_new cap pol)"
| step: "cq_reachable cap pol h \<Longrightarrow> cq_step h h' \<Longrightarrow> cq_reachable cap pol h'"

definition history_inv :: "nat \<Rightarrow> overflow_policy \<Rightarrow> 'a history \<Rightarrow> bool" where
  "history_inv cap pol h =
     (case h of (ins, outs, q) \<Rightarrow>
        cq_capacity q = cap \<and> cq_policy q = pol \<and> length (cq_items q) \<le> cap \<and>
        length ins = length outs + cq_dropped q + length (cq_items q) \<and>
        subseq (outs @ cq_items q) ins)"

lemmas cq_op_defs = cq_push_def cq_pop_def cq_pop_latest_eq cq_close_def

lemma subseq_snoc: "subseq xs ys \<Longrightarrow> subseq (xs @ [v]) (ys @ [v])"
  by simp

lemma subseq_drop_mid: "subseq (xs @ y # ys) zs \<Longrightarrow> subseq (xs @ ys) zs"
  by (rule subseq_order.trans [of _ "xs @ y # ys"])
    (auto intro!: list_emb_append_mono list_emb_Cons)

lemma subseq_last: "ys \<noteq> [] \<Longrightarrow> subseq (xs @ ys) zs \<Longrightarrow> subseq (xs @ [last ys]) zs"
  by (rule subseq_order.trans [of _ "xs @ ys"])
    (auto simp: subseq_singleton_left intro!: list_emb_append_mono)

lemma history_inv_step:
  assumes "cq_step h h'" "history_inv cap pol h" "0 < cap"
  shows "history_inv cap pol h'"
  using assms
proof (induction rule: cq_step.induct)
  case (push_ok v q q' ins outs)
  show ?case
  proof (cases "cq_capacity q \<le> length (cq_items q) \<and> cq_policy q = kDropOldestWhenFull")
    case True
    then obtain x xs where items: "cq_items q = x # xs"
      using push_ok by (cases "cq_items q") (auto simp: history_inv_def)
    with True push_ok have "q' = q\<lparr>cq_items := xs @ [v], cq_dropped := Suc (cq_dropped q)\<rparr>"
      by (simp add: cq_push_def)
    then show ?thesis
      using push_ok items subseq_drop_mid [of outs x xs ins]
      by (auto simp: history_inv_def subseq_snoc simp flip: append_assoc)
  next
    case False
    with push_ok have "q' = q\<lparr>cq_items := cq_items q @ [v]\<rparr>" "length (cq_items q) < cap"
      by (cases "cq_policy q"; force simp: cq_push_def history_inv_def split: if_splits)+
    then show ?thesis
      using push_ok by (auto simp: history_inv_def subseq_snoc simp flip: append_assoc)
  qed
qed (auto simp: history_inv_def cq_op_defs subseq_last split: if_splits list.splits)

lemma history_inv_reachable:
  "cq_reachable cap pol h \<Longrightarrow> 0 < cap \<Longrightarrow> history_inv cap pol h"
  by (induction rule: cq_reachable.induct)
    (auto simp: history_inv_step, simp add: history_inv_def cq_new_def)

subsection \<open>Properties\<close>

text \<open>
  C36: In every history of a queue, whatever the interleaving of producers, consumers and close: at
  most \<open>capacity\<close> values are held, no value is lost silently (accepted = delivered + counted as
  dropped + held), and what consumers got followed by what is held is a subsequence of what was
  accepted, so order is kept and nothing is duplicated or invented.
\<close>

theorem queue_history:
  assumes "cq_reachable cap pol (ins, outs, q)" "0 < cap"
  shows "cq_size q \<le> cap \<and>
    length ins = length outs + cq_dropped q + cq_size q \<and>
    subseq (outs @ cq_items q) ins"
  using history_inv_reachable [OF assms] by (simp add: history_inv_def cq_size_def)

theorem queue_history_witness:
  "\<exists>q. cq_reachable 1 kDropOldestWhenFull ([1::nat, 2], [2], q) \<and> cq_dropped q = 1 \<and>
     subseq ([2] @ cq_items q) [1, 2]"
proof -
  let ?q0 = "cq_new 1 kDropOldestWhenFull :: nat cqueue"
  let ?q1 = "?q0\<lparr>cq_items := [1]\<rparr>"
  let ?q2 = "?q1\<lparr>cq_items := [2], cq_dropped := 1\<rparr>"
  let ?q3 = "?q2\<lparr>cq_items := []\<rparr>"
  have "cq_reachable 1 kDropOldestWhenFull ([1], [], ?q1)"
    using cq_reachable.step [OF cq_reachable.start cq_step.push_ok [of 1 ?q0 ?q1 "[]" "[]"]]
    by (simp add: cq_push_def cq_new_def)
  from cq_reachable.step [OF this cq_step.push_ok [of 2 _ ?q2]]
  have "cq_reachable 1 kDropOldestWhenFull ([1, 2], [], ?q2)"
    by (simp add: cq_push_def cq_new_def)
  from cq_reachable.step [OF this cq_step.latest_value [of _ 2 ?q3]]
  have r: "cq_reachable 1 kDropOldestWhenFull ([1, 2], [2], ?q3)"
    by (simp add: cq_pop_latest_eq cq_new_def)
  show ?thesis
    using queue_history [OF r] r by (intro exI [of _ ?q3]) (simp add: cq_new_def)
qed

text \<open>
  The consumer of the pipeline always works on the freshest frame: after any series of pushes
  that ends with \<open>v\<close> into a drop-oldest queue, \<open>pop_latest\<close> returns \<open>v\<close> at once, leaves the queue
  empty and counts everything else as dropped.
\<close>

theorem pop_latest_freshest:
  assumes "cq_window q"
  shows "\<exists>q'. cq_pop_latest (fold cq_push_state (vs @ [v]) q) = Returns (Some v) q' \<and>
    cq_items q' = [] \<and> cq_window q'"
proof -
  let ?q = "cq_push_state v (fold cq_push_state vs q)"
  have w: "cq_window (fold cq_push_state vs q)" using cqw.fold_push [OF assms] by blast
  then have "cq_items ?q \<noteq> []" "last (cq_items ?q) = v" "cq_window ?q"
    using cqw.newest_kept [OF w, of v] cqw.invar_push [OF w] by auto
  then show ?thesis by (simp add: cq_pop_latest_eq cq_window_def)
qed

theorem pop_latest_freshest_witness:
  "\<exists>q'. cq_pop_latest (fold cq_push_state [1::int, 2, 3] (cq_new 2 kDropOldestWhenFull)) = Returns (Some 3) q'"
  using pop_latest_freshest [of "cq_new 2 kDropOldestWhenFull :: int cqueue" "[1, 2]" 3]
  by (auto simp: cq_window_def cq_new_def)

text \<open>
  Under load the drop-oldest queue is a sliding window: after pushing \<open>vs\<close> it holds exactly the
  last \<open>capacity\<close> of everything pushed, in order.
\<close>

theorem queue_sliding_window:
  assumes "0 < cap"
  shows "cq_items (fold cq_push_state vs (cq_new cap kDropOldestWhenFull)) = drop (length vs - cap) vs"
  using cqw.fold_push [of "cq_new cap kDropOldestWhenFull" vs] assms
  by (simp add: cq_window_def cq_new_def)

theorem queue_sliding_window_witness:
  "cq_items (fold cq_push_state [1::int, 2, 3, 4, 5] (cq_new 2 kDropOldestWhenFull)) = [4, 5]"
  using queue_sliding_window [of 2 "[1::int, 2, 3, 4, 5]"] by simp

text \<open>
  Closing and blocking: a consumer gets the end marker only from a closed and drained queue and
  otherwise waits only on an open empty one; a blocking producer is refused after close; but a
  drop-oldest push never looks at the closed flag and still succeeds.
\<close>

theorem queue_close_contract:
  "(cq_pop q = Waits \<longleftrightarrow> cq_items q = [] \<and> \<not> cq_closed q) \<and>
   (cq_pop_latest q = Waits \<longleftrightarrow> cq_items q = [] \<and> \<not> cq_closed q) \<and>
   ((\<exists>q'. cq_pop q = Returns None q') \<longleftrightarrow> cq_items q = [] \<and> cq_closed q) \<and>
   ((\<exists>q'. cq_pop_latest q = Returns None q') \<longleftrightarrow> cq_items q = [] \<and> cq_closed q) \<and>
   (cq_policy q = kBlockWhenFull \<longrightarrow> cq_push v (cq_close q) = Returns False (cq_close q)) \<and>
   (cq_policy q = kDropOldestWhenFull \<and> 0 < cq_capacity q \<longrightarrow>
      (\<exists>q'. cq_push v (cq_close q) = Returns True q' \<and> last (cq_items q') = v))"
  by (auto simp: cq_pop_def cq_pop_latest_eq cq_push_drop cq_close_def cq_push_def split: list.splits)

theorem queue_close_contract_witness:
  "cq_push (7::int) (cq_close (cq_new 2 kBlockWhenFull)) = Returns False (cq_close (cq_new 2 kBlockWhenFull)) \<and>
   (\<exists>q'. cq_push (7::int) (cq_close (cq_new 2 kDropOldestWhenFull)) = Returns True q' \<and> last (cq_items q') = 7)"
proof -
  have "cq_policy (cq_new 2 p :: int cqueue) = p" "cq_capacity (cq_new 2 p :: int cqueue) = 2" for p
    by (simp_all add: cq_new_def)
  then show ?thesis
    using queue_close_contract [of "cq_new 2 kBlockWhenFull" "7::int"]
      queue_close_contract [of "cq_new 2 kDropOldestWhenFull" "7::int"] by simp
qed

text \<open>
  A capacity of zero, which nothing in the configuration excludes, makes the first push of a
  drop-oldest queue pop from an empty deque, and a push of a blocking queue wait until close.
\<close>

theorem queue_capacity_zero:
  "cq_push v (cq_new 0 kDropOldestWhenFull) = Faults (Undefined_Behaviour ''pop_front on an empty deque'') \<and>
   cq_push v (cq_new 0 kBlockWhenFull) = Waits"
  by (simp add: cq_push_def cq_new_def)

end
