(* ===== verification/Queue_Waiting.thy ===== *)
theory Queue_Waiting
  imports Bounded_Queue
begin

text \<open>
  The waiting in \<^verbatim>\<open>shared::ConcurrentQueue<T>\<close> (\<^verbatim>\<open>include/forklift/shared/ConcurrentQueue.h\<close>) at
  the grain of its two condition variables.  A call holds the mutex from the test of its predicate
  to its end, notification included, or until it blocks, so that this is one step; a blocked thread
  becomes ready again by a notification or spuriously, and tests its predicate anew.  \<open>close\<close> sets the
  flag under the mutex and notifies after it, in two steps.
\<close>

subsection \<open>Waiting threads\<close>

text \<open>\<open>notify_one\<close> wakes one sleeping thread, any one, if there is one; here the \<open>j\<close>th.\<close>

definition notify_one :: "('t \<Rightarrow> bool) \<Rightarrow> ('t \<Rightarrow> 't) \<Rightarrow> nat \<Rightarrow> 't list \<Rightarrow> 't list" where
  "notify_one asleep wake j ts = (if j < length ts \<and> asleep (ts ! j) then ts[j := wake (ts ! j)] else ts)"

definition notifies :: "('t \<Rightarrow> bool) \<Rightarrow> nat \<Rightarrow> 't list \<Rightarrow> bool" where
  "notifies asleep j ts = (list_ex asleep ts \<longrightarrow> j < length ts \<and> asleep (ts ! j))"

definition ready_count :: "('t \<Rightarrow> bool) \<Rightarrow> 't list \<Rightarrow> nat" where
  "ready_count ready ts = length (filter ready ts)"

text \<open>Enough threads are ready for \<open>n\<close> opportunities, unless none sleeps.\<close>

definition covered :: "('t \<Rightarrow> bool) \<Rightarrow> ('t \<Rightarrow> bool) \<Rightarrow> nat \<Rightarrow> 't list \<Rightarrow> bool" where
  "covered asleep ready n ts = (list_ex asleep ts \<longrightarrow> n \<le> ready_count ready ts)"

lemma ready_count_update:
  "i < length ts \<Longrightarrow> ready_count ready (ts[i := t]) + (if ready (ts ! i) then 1 else 0) =
     ready_count ready ts + (if ready t then 1 else 0)"
proof (induction ts arbitrary: i)
  case (Cons a ts)
  then show ?case by (cases i) (auto simp: ready_count_def)
qed simp

lemma list_ex_update: "list_ex P (ts[i := t]) \<Longrightarrow> \<not> P t \<Longrightarrow> list_ex P ts"
  by (auto simp: list_ex_iff dest!: subsetD [OF set_update_subset_insert])

text \<open>What the two kinds of threads have in common.\<close>

locale waiters =
  fixes asleep ready :: "'t \<Rightarrow> bool" and wake :: "'t \<Rightarrow> 't"
  assumes wake_ready: "asleep t \<Longrightarrow> ready (wake t)"
    and asleep_not_ready: "asleep t \<Longrightarrow> \<not> ready t"
    and wake_asleep: "\<not> asleep (wake t)"
begin

lemma covered_mono: "covered asleep ready n ts \<Longrightarrow> m \<le> n \<Longrightarrow> covered asleep ready m ts"
  by (auto simp: covered_def)

lemma covered_notify:
  assumes "covered asleep ready n ts" "notifies asleep j ts"
  shows "covered asleep ready (Suc n) (notify_one asleep wake j ts)"
proof (cases "list_ex asleep ts")
  case True
  with assms have j: "j < length ts" "asleep (ts ! j)" by (simp_all add: notifies_def)
  then have "ready_count ready (ts[j := wake (ts ! j)]) = Suc (ready_count ready ts)"
    using ready_count_update [OF j(1), of ready "wake (ts ! j)"] by (simp add: wake_ready asleep_not_ready)
  with j assms(1) True show ?thesis by (simp add: covered_def notify_one_def)
next
  case False
  then have "notify_one asleep wake j ts = ts" by (auto simp: notify_one_def list_ex_length)
  with False show ?thesis by (simp add: covered_def)
qed

text \<open>A ready thread leaves: one opportunity fewer is covered.\<close>

lemma covered_leave:
  assumes "covered asleep ready n ts" "i < length ts" "ready (ts ! i)" "\<not> asleep t"
  shows "covered asleep ready (n - 1) (ts[i := t])"
proof -
  have "ready_count ready ts \<le> Suc (ready_count ready (ts[i := t]))"
    using ready_count_update [OF assms(2), of ready t] assms(3) by (auto split: if_splits)
  with assms(1,4) show ?thesis by (auto simp: covered_def dest!: list_ex_update)
qed

text \<open>A thread becomes ready, or keeps its state of readiness without falling asleep.\<close>

lemma covered_enter:
  assumes "covered asleep ready n ts" "i < length ts" "\<not> asleep t" "ready (ts ! i) \<Longrightarrow> ready t"
  shows "covered asleep ready n (ts[i := t])"
proof -
  have "ready_count ready ts \<le> ready_count ready (ts[i := t])"
    using ready_count_update [OF assms(2), of ready t] assms(4) by (auto split: if_splits)
  with assms(1,3) show ?thesis by (auto simp: covered_def dest!: list_ex_update)
qed

lemma covered_zero [simp]: "covered asleep ready 0 ts"
  by (simp add: covered_def)

lemma all_awake: "\<not> list_ex asleep (map wake ts)"
  by (simp add: list_ex_iff wake_asleep)

lemma covered_awake: "\<not> list_ex asleep ts \<Longrightarrow> covered asleep ready n ts"
  by (simp add: covered_def)

lemma notify_awake: "\<not> list_ex asleep ts \<Longrightarrow> \<not> list_ex asleep (notify_one asleep wake j ts)"
  by (auto simp: notify_one_def wake_asleep dest!: list_ex_update)

lemma length_notify [simp]: "length (notify_one asleep wake j ts) = length ts"
  by (simp add: notify_one_def)

end

subsection \<open>Consumers and producers\<close>

datatype pop_kind = Pop_Oldest | Pop_Latest

datatype consumer = Con_Idle | Con_Ready pop_kind | Con_Asleep pop_kind

datatype 'a producer = Pro_Idle | Pro_Ready 'a | Pro_Asleep 'a | Pro_Faulted fault

fun con_asleep :: "consumer \<Rightarrow> bool" where
  "con_asleep (Con_Asleep k) = True"
| "con_asleep _ = False"

fun con_ready :: "consumer \<Rightarrow> bool" where
  "con_ready (Con_Ready k) = True"
| "con_ready _ = False"

fun con_wake :: "consumer \<Rightarrow> consumer" where
  "con_wake (Con_Asleep k) = Con_Ready k"
| "con_wake c = c"

fun pro_asleep :: "'a producer \<Rightarrow> bool" where
  "pro_asleep (Pro_Asleep v) = True"
| "pro_asleep _ = False"

fun pro_ready :: "'a producer \<Rightarrow> bool" where
  "pro_ready (Pro_Ready v) = True"
| "pro_ready _ = False"

fun pro_wake :: "'a producer \<Rightarrow> 'a producer" where
  "pro_wake (Pro_Asleep v) = Pro_Ready v"
| "pro_wake p = p"

interpretation con: waiters con_asleep con_ready con_wake
proof
  fix t
  show "con_asleep t \<Longrightarrow> con_ready (con_wake t)" "con_asleep t \<Longrightarrow> \<not> con_ready t" "\<not> con_asleep (con_wake t)"
    by (cases t; simp)+
qed

interpretation pro: waiters pro_asleep pro_ready pro_wake
proof
  fix t :: "'a producer"
  show "pro_asleep t \<Longrightarrow> pro_ready (pro_wake t)" "pro_asleep t \<Longrightarrow> \<not> pro_ready t" "\<not> pro_asleep (pro_wake t)"
    by (cases t; simp)+
qed

record 'a waiting_queue =
  wq_queue :: "'a cqueue"
  wq_consumers :: "consumer list"
  wq_producers :: "'a producer list"
  wq_closing :: nat             \<comment> \<open>calls of \<open>close\<close> that have not yet notified\<close>
  wq_ins :: "'a list"           \<comment> \<open>history: accepted values\<close>
  wq_outs :: "'a list"          \<comment> \<open>history: delivered values\<close>

definition wq_new :: "nat \<Rightarrow> overflow_policy \<Rightarrow> nat \<Rightarrow> nat \<Rightarrow> 'a waiting_queue" where
  "wq_new cap pol consumers producers =
     \<lparr>wq_queue = cq_new cap pol, wq_consumers = replicate consumers Con_Idle,
      wq_producers = replicate producers Pro_Idle, wq_closing = 0, wq_ins = [], wq_outs = []\<rparr>"

definition pop_op :: "pop_kind \<Rightarrow> 'a cqueue \<Rightarrow> ('a cqueue, 'a option) op_result" where
  "pop_op k q = (case k of Pop_Oldest \<Rightarrow> cq_pop q | Pop_Latest \<Rightarrow> cq_pop_latest q)"

text \<open>\<open>pop\<close> and \<open>pop_latest\<close> with their wait and \<^verbatim>\<open>not_full_.notify_one()\<close>.\<close>

definition consumer_step :: "nat \<Rightarrow> nat \<Rightarrow> 'a waiting_queue \<Rightarrow> 'a waiting_queue option" where
  "consumer_step j i s =
     (case wq_consumers s ! i of
        Con_Ready k \<Rightarrow>
          (case pop_op k (wq_queue s) of
             Waits \<Rightarrow> Some (s\<lparr>wq_consumers := (wq_consumers s)[i := Con_Asleep k]\<rparr>)
           | Faults e \<Rightarrow> None
           | Returns None q \<Rightarrow>
               Some (s\<lparr>wq_queue := q, wq_consumers := (wq_consumers s)[i := Con_Idle]\<rparr>)
           | Returns (Some v) q \<Rightarrow>
               Some (s\<lparr>wq_queue := q, wq_consumers := (wq_consumers s)[i := Con_Idle],
                       wq_producers := notify_one pro_asleep pro_wake j (wq_producers s),
                       wq_outs := wq_outs s @ [v]\<rparr>))
      | _ \<Rightarrow> None)"

text \<open>\<open>push\<close> with its wait and \<^verbatim>\<open>not_empty_.notify_one()\<close>; a refused push does not notify.\<close>

definition producer_step :: "nat \<Rightarrow> nat \<Rightarrow> 'a waiting_queue \<Rightarrow> 'a waiting_queue option" where
  "producer_step j i s =
     (case wq_producers s ! i of
        Pro_Ready v \<Rightarrow>
          (case cq_push v (wq_queue s) of
             Waits \<Rightarrow> Some (s\<lparr>wq_producers := (wq_producers s)[i := Pro_Asleep v]\<rparr>)
           | Faults e \<Rightarrow> Some (s\<lparr>wq_producers := (wq_producers s)[i := Pro_Faulted e]\<rparr>)
           | Returns accepted q \<Rightarrow>
               if \<not> accepted then Some (s\<lparr>wq_queue := q, wq_producers := (wq_producers s)[i := Pro_Idle]\<rparr>)
               else Some (s\<lparr>wq_queue := q, wq_producers := (wq_producers s)[i := Pro_Idle],
                            wq_consumers := notify_one con_asleep con_wake j (wq_consumers s),
                            wq_ins := wq_ins s @ [v]\<rparr>))
      | _ \<Rightarrow> None)"

definition close_set :: "'a waiting_queue \<Rightarrow> 'a waiting_queue" where
  "close_set s = s\<lparr>wq_queue := cq_close (wq_queue s), wq_closing := Suc (wq_closing s)\<rparr>"

definition close_notify :: "'a waiting_queue \<Rightarrow> 'a waiting_queue" where
  "close_notify s =
     s\<lparr>wq_consumers := map con_wake (wq_consumers s), wq_producers := map pro_wake (wq_producers s),
       wq_closing := wq_closing s - 1\<rparr>"

inductive wq_step :: "pop_kind set \<Rightarrow> 'a waiting_queue \<Rightarrow> 'a waiting_queue \<Rightarrow> bool" for kinds where
  call_pop: "i < length (wq_consumers s) \<Longrightarrow> wq_consumers s ! i = Con_Idle \<Longrightarrow> k \<in> kinds \<Longrightarrow>
    wq_step kinds s (s\<lparr>wq_consumers := (wq_consumers s)[i := Con_Ready k]\<rparr>)"
| call_push: "i < length (wq_producers s) \<Longrightarrow> wq_producers s ! i = Pro_Idle \<Longrightarrow>
    wq_step kinds s (s\<lparr>wq_producers := (wq_producers s)[i := Pro_Ready v]\<rparr>)"
| consumer: "i < length (wq_consumers s) \<Longrightarrow> notifies pro_asleep j (wq_producers s) \<Longrightarrow>
    consumer_step j i s = Some s' \<Longrightarrow> wq_step kinds s s'"
| producer: "i < length (wq_producers s) \<Longrightarrow> notifies con_asleep j (wq_consumers s) \<Longrightarrow>
    producer_step j i s = Some s' \<Longrightarrow> wq_step kinds s s'"
| spurious_consumer: "i < length (wq_consumers s) \<Longrightarrow>
    wq_step kinds s (s\<lparr>wq_consumers := (wq_consumers s)[i := con_wake (wq_consumers s ! i)]\<rparr>)"
| spurious_producer: "i < length (wq_producers s) \<Longrightarrow>
    wq_step kinds s (s\<lparr>wq_producers := (wq_producers s)[i := pro_wake (wq_producers s ! i)]\<rparr>)"
| close: "wq_step kinds s (close_set s)"
| closed: "0 < wq_closing s \<Longrightarrow> wq_step kinds s (close_notify s)"

inductive wq_reachable ::
  "pop_kind set \<Rightarrow> nat \<Rightarrow> overflow_policy \<Rightarrow> nat \<Rightarrow> nat \<Rightarrow> 'a waiting_queue \<Rightarrow> bool"
  for kinds cap pol consumers producers
where
  start: "wq_reachable kinds cap pol consumers producers (wq_new cap pol consumers producers)"
| step: "wq_reachable kinds cap pol consumers producers s \<Longrightarrow> wq_step kinds s s' \<Longrightarrow>
    wq_reachable kinds cap pol consumers producers s'"

text \<open>Case rules of the two kinds of steps.\<close>

lemma consumer_step_cases:
  assumes "consumer_step j i s = Some s'"
  obtains (sleep) k where "wq_consumers s ! i = Con_Ready k" "cq_items (wq_queue s) = []" "\<not> cq_closed (wq_queue s)"
      "s' = s\<lparr>wq_consumers := (wq_consumers s)[i := Con_Asleep k]\<rparr>"
    | (over) k where "wq_consumers s ! i = Con_Ready k" "pop_op k (wq_queue s) = Returns None (wq_queue s)"
      "s' = s\<lparr>wq_consumers := (wq_consumers s)[i := Con_Idle]\<rparr>"
    | (took) k v q where "wq_consumers s ! i = Con_Ready k" "pop_op k (wq_queue s) = Returns (Some v) q"
      "cq_items (wq_queue s) \<noteq> []" "cq_closed q = cq_closed (wq_queue s)"
      "cq_items q = (case k of Pop_Oldest \<Rightarrow> tl (cq_items (wq_queue s)) | Pop_Latest \<Rightarrow> [])"
      "s' = s\<lparr>wq_queue := q, wq_consumers := (wq_consumers s)[i := Con_Idle],
              wq_producers := notify_one pro_asleep pro_wake j (wq_producers s), wq_outs := wq_outs s @ [v]\<rparr>"
  using assms
  by (auto simp: consumer_step_def pop_op_def cq_pop_def cq_pop_latest_eq
      split: consumer.splits pop_kind.splits if_splits list.splits)

lemma producer_step_cases:
  assumes "producer_step j i s = Some s'"
  obtains (sleep) v where "wq_producers s ! i = Pro_Ready v" "cq_policy (wq_queue s) = kBlockWhenFull"
      "\<not> cq_closed (wq_queue s)" "cq_capacity (wq_queue s) \<le> length (cq_items (wq_queue s))"
      "s' = s\<lparr>wq_producers := (wq_producers s)[i := Pro_Asleep v]\<rparr>"
    | (fault) v e where "wq_producers s ! i = Pro_Ready v" "cq_capacity (wq_queue s) = 0"
      "s' = s\<lparr>wq_producers := (wq_producers s)[i := Pro_Faulted e]\<rparr>"
    | (refused) v where "wq_producers s ! i = Pro_Ready v" "cq_push v (wq_queue s) = Returns False (wq_queue s)"
      "cq_closed (wq_queue s)" "s' = s\<lparr>wq_producers := (wq_producers s)[i := Pro_Idle]\<rparr>"
    | (pushed) v q where "wq_producers s ! i = Pro_Ready v" "cq_push v (wq_queue s) = Returns True q"
      "cq_closed q = cq_closed (wq_queue s)" "cq_items q \<noteq> []"
      "length (cq_items q) \<le> Suc (length (cq_items (wq_queue s)))"
      "length (cq_items (wq_queue s)) \<le> length (cq_items q)"
      "cq_policy (wq_queue s) = kBlockWhenFull \<Longrightarrow> length (cq_items q) = Suc (length (cq_items (wq_queue s)))"
      "s' = s\<lparr>wq_queue := q, wq_producers := (wq_producers s)[i := Pro_Idle],
              wq_consumers := notify_one con_asleep con_wake j (wq_consumers s), wq_ins := wq_ins s @ [v]\<rparr>"
proof -
  have s': "\<exists>v. wq_producers s ! i = Pro_Ready v" using assms
    by (auto simp: producer_step_def split: producer.splits)
  then obtain v where v: "wq_producers s ! i = Pro_Ready v" by blast
  show thesis
  proof (cases "cq_push v (wq_queue s)")
    case Waits
    with assms v sleep show thesis
      by (auto simp: producer_step_def cq_push_def split: if_splits list.splits)
  next
    case (Faults e)
    with assms v fault show thesis
      by (auto simp: producer_step_def cq_push_def split: if_splits list.splits)
  next
    case (Returns b q)
    show thesis
    proof (cases b)
      case False
      with Returns assms v refused show thesis
        by (auto simp: producer_step_def cq_push_def split: if_splits list.splits)
    next
      case True
      have "cq_closed q = cq_closed (wq_queue s)" "cq_items q \<noteq> []"
        "length (cq_items q) \<le> Suc (length (cq_items (wq_queue s)))"
        "length (cq_items (wq_queue s)) \<le> length (cq_items q)"
        "cq_policy (wq_queue s) = kBlockWhenFull \<Longrightarrow> length (cq_items q) = Suc (length (cq_items (wq_queue s)))"
        using Returns True by (auto simp: cq_push_def split: if_splits list.splits)
      with Returns True assms v pushed show thesis by (auto simp: producer_step_def)
    qed
  qed
qed

subsection \<open>The waiting queue behaves like the atomic one\<close>

text \<open>
  Every step is a step of the history of the atomic queue or leaves it unchanged: the refinement through
  which what is shown of histories holds of the waiting queue.
\<close>

definition history_of :: "'a waiting_queue \<Rightarrow> 'a history" where
  "history_of s = (wq_ins s, wq_outs s, wq_queue s)"

lemma pop_op_history:
  "pop_op k q = Returns (Some v) q' \<Longrightarrow> cq_step (ins, outs, q) (ins, outs @ [v], q')"
  by (cases k) (auto simp: pop_op_def intro: cq_step.pop_value cq_step.latest_value)

lemma wq_step_history:
  assumes "wq_step kinds s s'"
  shows "history_of s' = history_of s \<or> cq_step (history_of s) (history_of s')"
  using assms
proof (induction rule: wq_step.induct)
  case (consumer i s j s')
  from consumer(3) show ?case
    by (cases rule: consumer_step_cases) (auto simp: history_of_def intro: pop_op_history)
next
  case (producer i s j s')
  from producer(3) show ?case
    by (cases rule: producer_step_cases) (auto simp: history_of_def intro: cq_step.push_ok)
next
  case (close s)
  show ?case by (simp add: history_of_def close_set_def cq_step.close)
qed (simp_all add: history_of_def close_notify_def)

lemma wq_refines_history:
  "wq_reachable kinds cap pol n m s \<Longrightarrow> cq_reachable cap pol (history_of s)"
proof (induction rule: wq_reachable.induct)
  case start
  then show ?case by (simp add: history_of_def wq_new_def cq_reachable.start)
next
  case (step s s')
  from wq_step_history [OF step.hyps(2)] step.IH show ?case by (auto intro: cq_reachable.step)
qed

subsection \<open>No wake-up is lost\<close>

fun con_kind_in :: "pop_kind set \<Rightarrow> consumer \<Rightarrow> bool" where
  "con_kind_in kinds Con_Idle = True"
| "con_kind_in kinds (Con_Ready k) = (k \<in> kinds)"
| "con_kind_in kinds (Con_Asleep k) = (k \<in> kinds)"

lemma con_kind_in_wake [simp]: "con_kind_in kinds (con_wake c) = con_kind_in kinds c"
  by (cases c) simp_all

definition kinds_inv :: "pop_kind set \<Rightarrow> 'a waiting_queue \<Rightarrow> bool" where
  "kinds_inv kinds s = list_all (con_kind_in kinds) (wq_consumers s)"

text \<open>Consumers: as many are ready as values wait, unless none sleeps.\<close>

definition con_inv :: "'a waiting_queue \<Rightarrow> bool" where
  "con_inv s = covered con_asleep con_ready (length (cq_items (wq_queue s))) (wq_consumers s)"

text \<open>
  Producers of an open queue: with \<open>pop\<close> alone as many are ready as there is room, unless none sleeps;
  with \<open>pop_latest\<close> at least one is when the queue is empty.  Producers of a drop-oldest queue never sleep.
\<close>

definition room :: "'a waiting_queue \<Rightarrow> nat" where
  "room s = cq_capacity (wq_queue s) - length (cq_items (wq_queue s))"

definition wanted :: "pop_kind set \<Rightarrow> 'a waiting_queue \<Rightarrow> nat" where
  "wanted kinds s =
     (if cq_closed (wq_queue s) then 0 else if kinds \<subseteq> {Pop_Oldest} then room s
      else if cq_items (wq_queue s) = [] then 1 else 0)"

definition pro_inv :: "pop_kind set \<Rightarrow> 'a waiting_queue \<Rightarrow> bool" where
  "pro_inv kinds s =
     (covered pro_asleep pro_ready (wanted kinds s) (wq_producers s) \<and>
      (cq_policy (wq_queue s) = kDropOldestWhenFull \<longrightarrow> \<not> list_ex pro_asleep (wq_producers s)))"

definition close_inv :: "'a waiting_queue \<Rightarrow> bool" where
  "close_inv s = (cq_closed (wq_queue s) \<and> wq_closing s = 0 \<longrightarrow>
     \<not> list_ex con_asleep (wq_consumers s) \<and> \<not> list_ex pro_asleep (wq_producers s))"

lemma list_all_list_update: "list_all P ts \<Longrightarrow> P t \<Longrightarrow> list_all P (ts[i := t])"
  by (auto simp: list_all_iff dest!: subsetD [OF set_update_subset_insert])

lemma list_all_nth: "list_all P ts \<Longrightarrow> i < length ts \<Longrightarrow> P (ts ! i)"
  by (simp add: list_all_length)

lemma kinds_inv_notify:
  "list_all (con_kind_in kinds) cs \<Longrightarrow> list_all (con_kind_in kinds) (notify_one con_asleep con_wake j cs)"
  by (simp add: notify_one_def list_all_list_update list_all_nth)

lemma kinds_inv_step: "wq_step kinds s s' \<Longrightarrow> kinds_inv kinds s \<Longrightarrow> kinds_inv kinds s'"
proof (induction rule: wq_step.induct)
  case (consumer i s j s')
  then have "con_kind_in kinds (wq_consumers s ! i)" by (auto simp: kinds_inv_def intro: list_all_nth)
  with consumer(3,4) show ?case
    by (elim consumer_step_cases) (auto simp: kinds_inv_def intro!: list_all_list_update)
next
  case (producer i s j s')
  from producer(3,4) show ?case
    by (elim producer_step_cases) (auto simp: kinds_inv_def intro: kinds_inv_notify)
next
  case (spurious_consumer i s)
  then show ?case by (auto simp: kinds_inv_def intro!: list_all_list_update intro: list_all_nth)
next
  case (closed s)
  then show ?case by (simp add: kinds_inv_def close_notify_def list_all_iff)
qed (auto simp: kinds_inv_def close_set_def intro!: list_all_list_update)

lemma con_inv_step: "wq_step kinds s s' \<Longrightarrow> con_inv s \<Longrightarrow> con_inv s'"
proof (induction rule: wq_step.induct)
  case (call_pop i s k)
  then show ?case by (auto simp: con_inv_def intro!: con.covered_enter)
next
  case (consumer i s j s')
  note inv = consumer(4) [unfolded con_inv_def]
  from consumer(3) show ?case
  proof (cases rule: consumer_step_cases)
    case (sleep k)
    then show ?thesis by (simp add: con_inv_def)
  next
    case (over k)
    then have "cq_items (wq_queue s) = []"
      by (cases k) (auto simp: pop_op_def cq_pop_def cq_pop_latest_eq split: if_splits list.splits)
    with over show ?thesis by (simp add: con_inv_def)
  next
    case (took k v q)
    have "covered con_asleep con_ready (length (cq_items (wq_queue s)) - 1) ((wq_consumers s)[i := Con_Idle])"
      by (rule con.covered_leave [OF inv consumer(1)]) (simp_all add: took)
    then show ?thesis
      by (auto simp: con_inv_def took(5,6) split: pop_kind.splits intro: con.covered_mono)
  qed
next
  case (producer i s j s')
  note inv = producer(4) [unfolded con_inv_def]
  from producer(3) show ?case
  proof (cases rule: producer_step_cases)
    case (pushed v q)
    from con.covered_notify [OF inv producer(2)] pushed(5) show ?thesis
      by (auto simp: con_inv_def pushed(8) intro: con.covered_mono)
  qed (use inv in \<open>simp_all add: con_inv_def\<close>)
next
  case (spurious_consumer i s)
  then show ?case
    by (auto simp: con_inv_def con.wake_asleep intro!: con.covered_enter)
      (cases "wq_consumers s ! i"; simp)
next
  case (closed s)
  show ?case by (simp add: con_inv_def close_notify_def con.covered_awake con.all_awake)
qed (simp_all add: con_inv_def close_set_def cq_close_def)

lemma wanted_cong:
  "wq_queue s' = wq_queue s \<Longrightarrow> wanted kinds s' = wanted kinds s"
  by (simp add: wanted_def room_def)

lemma pro_inv_cong:
  "pro_inv kinds s \<Longrightarrow> wq_queue s' = wq_queue s \<Longrightarrow> wq_producers s' = wq_producers s \<Longrightarrow> pro_inv kinds s'"
  using wanted_cong [of s' s kinds] by (simp add: pro_inv_def)

lemma pro_inv_step:
  assumes "wq_step kinds s s'" "pro_inv kinds s" "kinds_inv kinds s" "0 < cq_capacity (wq_queue s)"
  shows "pro_inv kinds s'"
  using assms
proof (induction rule: wq_step.induct)
  case (call_pop i s k)
  then show ?case by (elim pro_inv_cong) simp_all
next
  case (call_push i s v)
  let ?s = "s\<lparr>wq_producers := (wq_producers s)[i := Pro_Ready v]\<rparr>"
  have "wanted kinds ?s = wanted kinds s" by (rule wanted_cong) simp
  with call_push show ?case by (auto simp: pro_inv_def intro!: pro.covered_enter dest: list_ex_update)
next
  case (consumer i s j s')
  note inv = consumer(4) [unfolded pro_inv_def]
  from consumer(3) show ?case
  proof (cases rule: consumer_step_cases)
    case (sleep k)
    with consumer(4) show ?thesis by (elim pro_inv_cong) simp_all
  next
    case (over k)
    with consumer(4) show ?thesis by (elim pro_inv_cong) simp_all
  next
    case (took k v q)
    have cap: "cq_capacity q = cq_capacity (wq_queue s)" "cq_policy q = cq_policy (wq_queue s)"
      using took(2) by (cases k; auto simp: pop_op_def cq_pop_def cq_pop_latest_eq split: if_splits list.splits)+
    have "k \<in> kinds"
      using consumer(1,5) took(1) list_all_nth [of "con_kind_in kinds" "wq_consumers s" i] by (simp add: kinds_inv_def)
    then have "length (cq_items q) = length (cq_items (wq_queue s)) - 1" if "kinds \<subseteq> {Pop_Oldest}"
      using that by (cases k) (auto simp: took(5))
    then have "wanted kinds s' \<le> Suc (wanted kinds s)"
      by (cases "kinds \<subseteq> {Pop_Oldest}") (auto simp: wanted_def room_def took(4,6) cap)
    then show ?thesis
      using pro.covered_notify [OF conjunct1 [OF inv] consumer(2)] inv
      by (auto simp: pro_inv_def took(6) cap pro.notify_awake intro: pro.covered_mono)
  qed
next
  case (producer i s j s')
  note inv = producer(4) [unfolded pro_inv_def]
  from producer(3) show ?case
  proof (cases rule: producer_step_cases)
    case (sleep v)
    with producer(6) have "wanted kinds s' = 0" by (auto simp: wanted_def room_def)
    with sleep inv show ?thesis by (simp add: pro_inv_def)
  next
    case (fault v e)
    with producer(6) show ?thesis by simp
  next
    case (refused v)
    then have "wanted kinds s' = 0" by (simp add: wanted_def)
    with refused inv show ?thesis by (auto simp: pro_inv_def dest: list_ex_update)
  next
    case (pushed v q)
    have cap: "cq_capacity q = cq_capacity (wq_queue s)" "cq_policy q = cq_policy (wq_queue s)"
      using pushed(2) by (auto simp: cq_push_def split: if_splits list.splits)
    have leave: "covered pro_asleep pro_ready (wanted kinds s - 1) ((wq_producers s)[i := Pro_Idle])"
      by (rule pro.covered_leave [OF conjunct1 [OF inv] producer(1)]) (simp_all add: pushed(1))
    show ?thesis
    proof (cases "cq_policy (wq_queue s)")
      case kBlockWhenFull
      then have "wanted kinds s' \<le> wanted kinds s - 1"
        using pushed(3,4,7) by (auto simp: wanted_def room_def pushed(8) cap)
      with leave kBlockWhenFull show ?thesis
        by (auto simp: pro_inv_def pushed(8) cap intro: pro.covered_mono)
    next
      case kDropOldestWhenFull
      with inv have "\<not> list_ex pro_asleep ((wq_producers s)[i := Pro_Idle])" by (auto dest: list_ex_update)
      then show ?thesis by (simp add: pro_inv_def pushed(8) pro.covered_awake)
    qed
  qed
next
  case (spurious_consumer i s)
  then show ?case by (elim pro_inv_cong) simp_all
next
  case (spurious_producer i s)
  let ?s = "s\<lparr>wq_producers := (wq_producers s)[i := pro_wake (wq_producers s ! i)]\<rparr>"
  have "wanted kinds ?s = wanted kinds s" by (rule wanted_cong) simp
  moreover have "pro_ready (p :: 'a producer) \<Longrightarrow> pro_ready (pro_wake p)" for p by (cases p) simp_all
  ultimately show ?case using spurious_producer
    by (auto simp: pro_inv_def pro.wake_asleep intro!: pro.covered_enter dest: list_ex_update)
next
  case (close s)
  then show ?case by (simp add: pro_inv_def wanted_def close_set_def cq_close_def)
next
  case (closed s)
  then show ?case by (simp add: pro_inv_def close_notify_def pro.covered_awake pro.all_awake)
qed

lemma close_inv_step: "wq_step kinds s s' \<Longrightarrow> close_inv s \<Longrightarrow> close_inv s'"
proof (induction rule: wq_step.induct)
  case (consumer i s j s')
  from consumer(3,4) show ?case
    by (elim consumer_step_cases)
      (auto simp: close_inv_def dest: list_ex_update pro.notify_awake)
next
  case (producer i s j s')
  from producer(3,4) show ?case
    by (elim producer_step_cases)
      (auto simp: close_inv_def dest: list_ex_update con.notify_awake)
next
  case (close s)
  show ?case by (simp add: close_inv_def close_set_def)
next
  case (closed s)
  show ?case by (simp add: close_inv_def close_notify_def con.all_awake pro.all_awake)
qed (auto simp: close_inv_def con.wake_asleep pro.wake_asleep dest: list_ex_update)

lemma capacity_reachable:
  assumes "wq_reachable kinds cap pol n m s" "0 < cap"
  shows "cq_capacity (wq_queue s) = cap" "cq_policy (wq_queue s) = pol"
  using history_inv_reachable [OF wq_refines_history [OF assms(1)] assms(2)]
  by (simp_all add: history_inv_def history_of_def)

lemma wq_inv_reachable:
  assumes "wq_reachable kinds cap pol n m s" "0 < cap"
  shows "kinds_inv kinds s \<and> con_inv s \<and> pro_inv kinds s \<and> close_inv s"
  using assms(1)
proof (induction rule: wq_reachable.induct)
  case start
  have "\<not> list_ex pro_asleep (replicate m (Pro_Idle :: 'a producer))" "\<not> list_ex con_asleep (replicate n Con_Idle)"
    by (simp_all add: list_ex_iff)
  then show ?case
    by (simp add: kinds_inv_def con_inv_def pro_inv_def close_inv_def wq_new_def cq_new_def covered_def list_all_iff)
next
  case (step s s')
  have "0 < cq_capacity (wq_queue s)" using capacity_reachable(1) [OF step.hyps(1) assms(2)] assms(2) by simp
  with step show ?case
    by (auto intro: kinds_inv_step con_inv_step pro_inv_step close_inv_step)
qed


subsection \<open>Concrete queues\<close>

text \<open>Schedules.\<close>

datatype 'a wq_action = Call_Pop nat pop_kind | Call_Push nat 'a | Run_Consumer nat nat | Run_Producer nat nat

fun wq_move :: "pop_kind set \<Rightarrow> 'a wq_action \<Rightarrow> 'a waiting_queue \<Rightarrow> 'a waiting_queue option" where
  "wq_move kinds (Call_Pop i k) s =
     (if i < length (wq_consumers s) \<and> wq_consumers s ! i = Con_Idle \<and> k \<in> kinds
      then Some (s\<lparr>wq_consumers := (wq_consumers s)[i := Con_Ready k]\<rparr>) else None)"
| "wq_move kinds (Call_Push i v) s =
     (if i < length (wq_producers s) \<and> (case wq_producers s ! i of Pro_Idle \<Rightarrow> True | _ \<Rightarrow> False)
      then Some (s\<lparr>wq_producers := (wq_producers s)[i := Pro_Ready v]\<rparr>) else None)"
| "wq_move kinds (Run_Consumer j i) s =
     (if i < length (wq_consumers s) \<and> notifies pro_asleep j (wq_producers s) then consumer_step j i s else None)"
| "wq_move kinds (Run_Producer j i) s =
     (if i < length (wq_producers s) \<and> notifies con_asleep j (wq_consumers s) then producer_step j i s else None)"

fun wq_run :: "pop_kind set \<Rightarrow> 'a wq_action list \<Rightarrow> 'a waiting_queue \<Rightarrow> 'a waiting_queue option" where
  "wq_run kinds [] s = Some s"
| "wq_run kinds (m # ms) s = (case wq_move kinds m s of None \<Rightarrow> None | Some s' \<Rightarrow> wq_run kinds ms s')"

lemma wq_move_step: "wq_move kinds m s = Some s' \<Longrightarrow> wq_step kinds s s'"
  by (cases m) (auto split: if_splits producer.splits intro: wq_step.intros)

lemma wq_run_reachable:
  "wq_run kinds ms s = Some s' \<Longrightarrow> wq_reachable kinds cap pol n m s \<Longrightarrow> wq_reachable kinds cap pol n m s'"
  by (induction ms arbitrary: s) (simp, force split: option.splits intro: wq_reachable.step [OF _ wq_move_step])

definition crowd_moves :: "nat wq_action list" where
  "crowd_moves =
     [Call_Push 0 10, Run_Producer 0 0, Call_Push 1 11, Run_Producer 0 1,
      Call_Push 2 12, Run_Producer 0 2, Call_Push 3 13, Run_Producer 0 3]"

definition drain_moves :: "nat wq_action list" where
  "drain_moves = [Call_Pop 0 Pop_Latest, Run_Consumer 2 0, Run_Producer 0 2]"

text \<open>
  With \<open>pop_latest\<close> a wake-up is lost: two producers fill a blocking queue of capacity two and two
  more wait; \<open>pop_latest\<close> empties the queue and notifies one of them, and when that one has pushed there is a
  free place, but the other sleeps on and no producer is ready: nothing but a further pop, a close
  or a spurious wake-up lets it in.
\<close>

theorem pop_latest_loses_wakeup:
  "\<exists>s. wq_reachable {Pop_Latest} 2 kBlockWhenFull 1 4 (s :: nat waiting_queue) \<and>
     length (cq_items (wq_queue s)) = 1 \<and> \<not> cq_closed (wq_queue s) \<and>
     list_ex pro_asleep (wq_producers s) \<and> ready_count pro_ready (wq_producers s) = 0"
proof -
  have "case wq_run {Pop_Latest} (crowd_moves @ drain_moves) (wq_new 2 kBlockWhenFull 1 4) of
      None \<Rightarrow> False
    | Some s \<Rightarrow> length (cq_items (wq_queue s)) = 1 \<and> \<not> cq_closed (wq_queue s) \<and>
        list_ex pro_asleep (wq_producers s) \<and> ready_count pro_ready (wq_producers s) = 0"
    by code_simp
  then obtain s where "wq_run {Pop_Latest} (crowd_moves @ drain_moves) (wq_new 2 kBlockWhenFull 1 4) = Some s"
    "length (cq_items (wq_queue s)) = 1 \<and> \<not> cq_closed (wq_queue s) \<and>
     list_ex pro_asleep (wq_producers s) \<and> ready_count pro_ready (wq_producers s) = 0"
    by (auto split: option.splits)
  with wq_run_reachable [OF this(1) wq_reachable.start] show ?thesis by blast
qed


end
