(* ===== verification/Float32.thy ===== *)
theory Float32
  imports Prelude
begin

text \<open>
  The C++ type \<^verbatim>\<open>float\<close> (IEEE 754 binary32, round to nearest, ties to even), as the code of
  \<^verbatim>\<open>src/domain\<close> and \<^verbatim>\<open>src/infrastructure/ai\<close> uses it.  Every finite binary32 number is a
  whole multiple of the least subnormal \<open>2^-149\<close>, so a finite value is kept as that integer:
  \<open>Fin k\<close> is \<open>k * 2^-149\<close>.  The zero with a sign bit is \<open>NZero\<close>; the signs and payloads of
  NaNs are not kept.  The operators \<open>+ - * /\<close> and \<open>\<le> <\<close> are instances of the syntactic
  classes, so that the models below read like the code; none of the algebraic laws of those
  symbols is assumed.  The arithmetic is that of a build in which no operation is carried out
  in a wider format or fused (\<^verbatim>\<open>FLT_EVAL_METHOD == 0\<close>, no contraction).
\<close>

subsection \<open>Rounding\<close>

text \<open>Number of bits of a non-negative integer.\<close>

function bit_length :: "int \<Rightarrow> nat" where
  "bit_length n = (if n \<le> 0 then 0 else Suc (bit_length (n div 2)))"
  by pat_completeness auto
termination
  by (relation "measure nat") auto

declare bit_length.simps [simp del]

text \<open>The integer nearest to \<open>a / d\<close>, ties to the even one (\<open>0 < d\<close>).\<close>

definition rne_div :: "int \<Rightarrow> int \<Rightarrow> int" where
  "rne_div a d =
     (let q = a div d; r = a mod d
      in if 2 * r < d \<or> (2 * r = d \<and> even q) then q else q + 1)"

text \<open>
  A magnitude \<open>a / d\<close> in units of the least subnormal, rounded to 24 significant bits.  Below
  \<open>2^24\<close> units (the subnormals and the first binade) the grid is the units themselves.
\<close>

definition round_shift :: "int \<Rightarrow> int \<Rightarrow> nat" where
  "round_shift a d = bit_length (a div d) - 24"

definition round_mag :: "int \<Rightarrow> int \<Rightarrow> int" where
  "round_mag a d = (let e = round_shift a d in rne_div a (d * 2 ^ e) * 2 ^ e)"

text \<open>An integer that binary32 can represent, the exponent range aside.\<close>

definition representable :: "int \<Rightarrow> bool" where
  "representable m = (\<bar>m\<bar> mod 2 ^ (bit_length \<bar>m\<bar> - 24) = 0)"

lemma bit_length_0 [simp]: "n \<le> 0 \<Longrightarrow> bit_length n = 0"
  by (subst bit_length.simps) simp

lemma bit_length_pos: "0 < n \<Longrightarrow> bit_length n = Suc (bit_length (n div 2))"
  by (subst bit_length.simps) simp

lemma bit_length_upper: "0 \<le> n \<Longrightarrow> n < 2 ^ bit_length n"
proof (induction n rule: bit_length.induct)
  case (1 n)
  show ?case
  proof (cases "n \<le> 0")
    case True
    then show ?thesis by simp
  next
    case False
    with 1 have "n div 2 < 2 ^ bit_length (n div 2)" by simp
    with False show ?thesis by (simp add: bit_length_pos)
  qed
qed

lemma bit_length_lower: "0 < n \<Longrightarrow> 2 ^ (bit_length n - 1) \<le> n"
proof (induction n rule: bit_length.induct)
  case (1 n)
  show ?case
  proof (cases "n = 1")
    case True
    then show ?thesis by (simp add: bit_length_pos)
  next
    case False
    with "1.prems" have pos: "0 < n div 2" by linarith
    with 1 have IH: "2 ^ (bit_length (n div 2) - 1) \<le> n div 2" by simp
    have "bit_length n - 1 = Suc (bit_length (n div 2) - 1)"
      using pos "1.prems" by (simp add: bit_length_pos)
    with IH show ?thesis by simp
  qed
qed

lemma bit_length_le_iff:
  assumes "0 \<le> n"
  shows "bit_length n \<le> k \<longleftrightarrow> n < 2 ^ k"
proof
  assume "bit_length n \<le> k"
  then have "(2::int) ^ bit_length n \<le> 2 ^ k" by simp
  with bit_length_upper [OF assms] show "n < 2 ^ k" by linarith
next
  assume less: "n < 2 ^ k"
  show "bit_length n \<le> k"
  proof (rule ccontr)
    assume "\<not> bit_length n \<le> k"
    then have k: "k \<le> bit_length n - 1" and pos: "0 < n"
      using bit_length_0 [of n] assms by (cases "n = 0"; simp)+
    have "(2::int) ^ k \<le> 2 ^ (bit_length n - 1)" using k by simp
    with bit_length_lower [OF pos] less show False by (meson leD order_trans)
  qed
qed

lemma rne_div_ge:
  assumes "0 < d" "m * d \<le> a"
  shows "m \<le> rne_div a d"
proof -
  have "m \<le> a div d"
    using zdiv_mono1 [OF assms(2,1)] assms(1) by simp
  then show ?thesis by (simp add: rne_div_def Let_def)
qed

lemma rne_div_le:
  assumes "0 < d" "a \<le> m * d"
  shows "rne_div a d \<le> m"
proof (cases "a mod d = 0")
  case True
  have "a div d \<le> m"
    using zdiv_mono1 [OF assms(2,1)] assms(1) by simp
  with True assms show ?thesis by (simp add: rne_div_def)
next
  case False
  have pos: "0 < a mod d" using False assms by (simp add: order_le_neq_trans)
  have "(a div d) * d + a mod d \<le> m * d" using assms by simp
  with pos have "(a div d) * d < m * d" by linarith
  then have "a div d < m" using assms by simp
  then show ?thesis by (simp add: rne_div_def Let_def)
qed

lemma rne_div_nonneg: "0 < d \<Longrightarrow> 0 \<le> a \<Longrightarrow> 0 \<le> rne_div a d"
  by (rule rne_div_ge) auto

lemma div_lt_mult: "0 < d \<Longrightarrow> a div d < m \<Longrightarrow> a \<le> m * d" for a d m :: int
  by (metis dual_order.strict_iff_not linorder_not_less mult.commute
      nonzero_mult_div_cancel_left zdiv_mono1)

lemma mult_le_div:
  fixes a d m :: int
  assumes "0 < d" "m \<le> a div d"
  shows "m * d \<le> a"
proof -
  have "m * d \<le> (a div d) * d" using assms by (intro mult_right_mono) auto
  also have "\<dots> \<le> a" using assms by (simp add: minus_mod_eq_div_mult [symmetric])
  finally show ?thesis .
qed

lemma rne_div_exact [simp]: "0 < d \<Longrightarrow> rne_div (k * d) d = k"
  by (simp add: rne_div_def)

lemma rne_div_lt_pow:
  assumes "0 < d" "a \<le> 2 ^ k * d"
  shows "rne_div a d \<le> 2 ^ k"
  using rne_div_le [of d a "2 ^ k"] assms by simp

text \<open>What \<open>representable\<close> means: a multiple of a power of two with at most 24 bits.\<close>

lemma representable_iff:
  "representable m \<longleftrightarrow> (\<exists>k e. \<bar>m\<bar> = k * 2 ^ e \<and> 0 \<le> k \<and> k < 2 ^ 24)"
proof
  let ?s = "bit_length \<bar>m\<bar> - 24"
  assume "representable m"
  then have dvd: "\<bar>m\<bar> = (\<bar>m\<bar> div 2 ^ ?s) * 2 ^ ?s"
    by (simp add: representable_def mod_eq_0_iff_dvd)
  have "\<bar>m\<bar> < 2 ^ (24 + ?s)"
    by (subst bit_length_le_iff [symmetric]) auto
  then have "(\<bar>m\<bar> div 2 ^ ?s) * 2 ^ ?s < 2 ^ 24 * 2 ^ ?s"
    using dvd by (simp add: power_add)
  then have "\<bar>m\<bar> div 2 ^ ?s < 2 ^ 24"
    by (rule mult_right_less_imp_less) simp
  moreover have "0 \<le> \<bar>m\<bar> div 2 ^ ?s"
    by (simp add: pos_imp_zdiv_nonneg_iff)
  ultimately show "\<exists>k e. \<bar>m\<bar> = k * 2 ^ e \<and> 0 \<le> k \<and> k < 2 ^ 24"
    using dvd by blast
next
  assume "\<exists>k e. \<bar>m\<bar> = k * 2 ^ e \<and> 0 \<le> k \<and> k < 2 ^ 24"
  then obtain k :: int and e :: nat
    where m: "\<bar>m\<bar> = k * 2 ^ e" and k: "0 \<le> k" "k < 2 ^ 24" by blast
  have "\<bar>m\<bar> < 2 ^ (24 + e)"
    using m k by (simp add: power_add)
  then have "bit_length \<bar>m\<bar> \<le> 24 + e"
    by (simp add: bit_length_le_iff)
  then have "(2::int) ^ (bit_length \<bar>m\<bar> - 24) dvd 2 ^ e"
    by (intro le_imp_power_dvd) simp
  with m have "2 ^ (bit_length \<bar>m\<bar> - 24) dvd \<bar>m\<bar>" by simp
  then show "representable m" by (simp add: representable_def)
qed

lemma representableI: "\<bar>m\<bar> = k * 2 ^ e \<Longrightarrow> 0 \<le> k \<Longrightarrow> k < 2 ^ 24 \<Longrightarrow> representable m"
  unfolding representable_iff by blast

lemma representable_small:
  assumes "\<bar>m\<bar> \<le> 2 ^ 24"
  shows "representable m"
proof (cases "\<bar>m\<bar> = 2 ^ 24")
  case True
  then show ?thesis by (intro representableI [of m "2 ^ 23" 1]) simp_all
next
  case False
  with assms show ?thesis by (intro representableI [of m "\<bar>m\<bar>" 0]) simp_all
qed

lemma representable_scale: "representable m \<Longrightarrow> representable (m * 2 ^ e)"
proof -
  assume "representable m"
  then obtain k f where m: "\<bar>m\<bar> = k * 2 ^ f" and "0 \<le> k" "k < 2 ^ 24"
    unfolding representable_iff by blast
  have "\<bar>m * 2 ^ e\<bar> = \<bar>m\<bar> * 2 ^ e" by (simp add: abs_mult)
  also have "\<dots> = k * 2 ^ (f + e)" by (simp only: m power_add mult.assoc)
  finally have "\<bar>m * 2 ^ e\<bar> = k * 2 ^ (f + e)" .
  with \<open>0 \<le> k\<close> \<open>k < 2 ^ 24\<close> show ?thesis unfolding representable_iff by blast
qed

lemma representable_minus [simp]: "representable (- m) = representable m"
  by (simp add: representable_def)

lemma representable_0 [simp]: "representable 0"
  by (simp add: representable_def)

text \<open>
  The rounded magnitude lies on the right side of every representable number: from this both
  monotonicity and exactness follow.
\<close>

lemma round_mag_lower:
  assumes d: "0 < d" and m: "representable m" "0 \<le> m" and le: "m * d \<le> a"
  shows "m \<le> round_mag a d"
proof -
  define s where "s = round_shift a d"
  define D where "D = d * 2 ^ s"
  have D: "0 < D" using d by (simp add: D_def)
  have rm: "round_mag a d = rne_div a D * 2 ^ s"
    by (simp add: round_mag_def Let_def s_def D_def)
  have mad: "m \<le> a div d" using zdiv_mono1 [OF le d] d by simp
  obtain k e where ke: "m = k * 2 ^ e" "0 \<le> k" "k < 2 ^ 24"
    using m unfolding representable_iff by (metis abs_of_nonneg)
  show ?thesis
  proof (cases "s \<le> e")
    case True
    then have m': "m = (k * 2 ^ (e - s)) * 2 ^ s"
      by (simp add: ke(1) mult.assoc flip: power_add)
    have "(k * 2 ^ (e - s)) * D \<le> a"
      using le by (subst (asm) m') (simp add: D_def mult.assoc mult.left_commute mult.commute)
    then have "k * 2 ^ (e - s) \<le> rne_div a D" by (rule rne_div_ge [OF D])
    then show ?thesis by (subst m') (simp add: rm)
  next
    case False
    then have s: "s = bit_length (a div d) - 24" "0 < s"
      by (simp_all add: s_def round_shift_def)
    then have pos: "0 < a div d" using bit_length_0 [of "a div d"] by (cases "a div d \<le> 0") auto
    have "bit_length (a div d) - 1 = 23 + s" using s by simp
    then have low: "2 ^ (23 + s) \<le> a div d" using bit_length_lower [OF pos] by simp
    have "2 ^ 23 * D = 2 ^ (23 + s) * d" by (simp add: D_def power_add)
    also have "\<dots> \<le> a" by (rule mult_le_div [OF d low])
    finally have "2 ^ 23 \<le> rne_div a D" by (rule rne_div_ge [OF D])
    then have "2 ^ 23 * 2 ^ s \<le> round_mag a d" by (simp add: rm)
    moreover have "m \<le> 2 ^ 23 * 2 ^ s"
    proof -
      have "e \<le> s - 1" using False by simp
      then have "(2::int) ^ e \<le> 2 ^ (s - 1)" by simp
      then have "k * 2 ^ e \<le> 2 ^ 24 * 2 ^ (s - 1)"
        using ke(2,3) by (intro mult_mono) auto
      then have "m \<le> 2 ^ 24 * 2 ^ (s - 1)" by (simp only: ke(1))
      also have "\<dots> = 2 ^ 23 * 2 ^ s"
        using s(2) by (cases s) auto
      finally show ?thesis .
    qed
    ultimately show ?thesis by simp
  qed
qed

lemma round_mag_upper:
  assumes d: "0 < d" and m: "representable m" "0 \<le> m" and le: "a \<le> m * d"
  shows "round_mag a d \<le> m"
proof -
  define s where "s = round_shift a d"
  define D where "D = d * 2 ^ s"
  have D: "0 < D" using d by (simp add: D_def)
  have rm: "round_mag a d = rne_div a D * 2 ^ s"
    by (simp add: round_mag_def Let_def s_def D_def)
  have mad: "a div d \<le> m" using zdiv_mono1 [OF le d] d by simp
  obtain k e where ke: "m = k * 2 ^ e" "0 \<le> k" "k < 2 ^ 24"
    using m unfolding representable_iff by (metis abs_of_nonneg)
  have "s \<le> e"
  proof (rule ccontr)
    assume "\<not> s \<le> e"
    then have s: "s = bit_length (a div d) - 24" "e < s"
      by (simp_all add: s_def round_shift_def)
    then have "24 + e < bit_length (a div d)" by simp
    then have pos: "0 < a div d" and len: "24 + e \<le> bit_length (a div d) - 1"
      using bit_length_0 [of "a div d"] by (cases "a div d \<le> 0"; simp)+
    have "(2::int) ^ (24 + e) \<le> 2 ^ (bit_length (a div d) - 1)" using len by simp
    with bit_length_lower [OF pos] have "2 ^ (24 + e) \<le> a div d" by (meson order_trans)
    with mad have "2 ^ 24 * 2 ^ e \<le> m" by (simp add: power_add)
    with ke show False by simp
  qed
  then have m': "m = (k * 2 ^ (e - s)) * 2 ^ s"
    by (simp add: ke(1) mult.assoc flip: power_add)
  have "a \<le> (k * 2 ^ (e - s)) * D"
    using le by (subst (asm) m') (simp add: D_def mult.assoc mult.left_commute mult.commute)
  then have "rne_div a D \<le> k * 2 ^ (e - s)" by (rule rne_div_le [OF D])
  then show ?thesis by (subst m') (simp add: rm)
qed

lemma round_mag_exact: "0 < d \<Longrightarrow> representable m \<Longrightarrow> 0 \<le> m \<Longrightarrow> round_mag (m * d) d = m"
  by (intro antisym round_mag_lower round_mag_upper) auto

lemma round_mag_nonneg: "0 < d \<Longrightarrow> 0 \<le> a \<Longrightarrow> 0 \<le> round_mag a d"
  by (simp add: round_mag_def Let_def rne_div_nonneg)

lemma round_mag_representable:
  assumes d: "0 < d" and a: "0 \<le> a"
  shows "representable (round_mag a d)"
proof -
  define s where "s = round_shift a d"
  define D where "D = d * 2 ^ s"
  have D: "0 < D" using d by (simp add: D_def)
  have "bit_length (a div d) \<le> 24 + s" by (simp add: s_def round_shift_def)
  then have "a div d < 2 ^ (24 + s)"
    using a d by (simp add: bit_length_le_iff pos_imp_zdiv_nonneg_iff)
  then have "a \<le> 2 ^ (24 + s) * d"
    by (rule div_lt_mult [OF d])
  then have "rne_div a D \<le> 2 ^ 24"
    by (intro rne_div_lt_pow [OF D]) (simp add: D_def power_add mult.assoc mult.left_commute mult.commute)
  then have "representable (rne_div a D)"
    using rne_div_nonneg [OF D a] by (intro representable_small) simp
  then have "representable (rne_div a D * 2 ^ s)" by (rule representable_scale)
  then show ?thesis by (simp add: round_mag_def Let_def s_def D_def)
qed

lemma rne_div_mono:
  assumes d: "0 < d" and le: "a \<le> b"
  shows "rne_div a d \<le> rne_div b d"
proof (cases "a div d = b div d")
  case True
  then have "a mod d \<le> b mod d"
    using le by (simp add: minus_div_mult_eq_mod [symmetric])
  with True show ?thesis by (auto simp: rne_div_def Let_def)
next
  case False
  then have "a div d + 1 \<le> b div d"
    using zdiv_mono1 [OF le d] by simp
  then show ?thesis by (auto simp: rne_div_def Let_def)
qed

lemma bit_length_mono: "m \<le> n \<Longrightarrow> bit_length m \<le> bit_length n"
  using bit_length_upper [of n] bit_length_le_iff [of m "bit_length n"]
  by (cases "m \<le> 0") auto

lemma round_mag_mono:
  assumes d: "0 < d" and a: "0 \<le> a" and le: "a \<le> b"
  shows "round_mag a d \<le> round_mag b d"
proof (cases "round_shift a d = round_shift b d")
  case True
  then show ?thesis
    using d le by (simp add: round_mag_def Let_def rne_div_mono)
next
  case False
  define s where "s = round_shift b d"
  have "bit_length (a div d) \<le> bit_length (b div d)"
    by (rule bit_length_mono [OF zdiv_mono1 [OF le d]])
  with False have s: "round_shift a d < s" "bit_length (b div d) = 24 + s"
    by (simp_all add: round_shift_def s_def)
  have pos: "0 < b div d"
    using s bit_length_0 [of "b div d"] by (cases "b div d \<le> 0") auto
  have "bit_length (a div d) \<le> 23 + s" using s by (simp add: round_shift_def)
  then have "a div d < 2 ^ (23 + s)"
    using a d by (simp add: bit_length_le_iff pos_imp_zdiv_nonneg_iff)
  then have a': "a \<le> 2 ^ (23 + s) * d"
    by (rule div_lt_mult [OF d])
  have "2 ^ (23 + s) \<le> b div d"
    using bit_length_lower [OF pos] s by simp
  then have b': "2 ^ (23 + s) * d \<le> b" by (rule mult_le_div [OF d])
  have rep: "representable (2 ^ (23 + s))"
    using representable_scale [OF representable_small, of 1 "23 + s"] by simp
  have "round_mag a d \<le> 2 ^ (23 + s)"
    by (rule round_mag_upper [OF d rep _ a']) simp
  also have "\<dots> \<le> round_mag b d"
    by (rule round_mag_lower [OF d rep _ b']) simp
  finally show ?thesis .
qed

subsection \<open>Values and operations\<close>

datatype f32 = NaN | PInf | NInf | NZero | Fin int

text \<open>
  The value in units of the least subnormal.  The infinities get the least magnitude that
  overflows, \<open>2^128\<close>, so that comparisons are comparisons of these integers.
\<close>

definition f32_top :: int where
  "f32_top = 2 ^ 277"

fun fval :: "f32 \<Rightarrow> int" where
  "fval NaN = 0"
| "fval PInf = f32_top"
| "fval NInf = - f32_top"
| "fval NZero = 0"
| "fval (Fin k) = k"

fun sign_bit :: "f32 \<Rightarrow> bool" where
  "sign_bit NInf = True"
| "sign_bit NZero = True"
| "sign_bit (Fin k) = (k < 0)"
| "sign_bit _ = False"

definition is_inf :: "f32 \<Rightarrow> bool" where
  "is_inf x = (x = PInf \<or> x = NInf)"

definition is_finite :: "f32 \<Rightarrow> bool" where
  "is_finite x = (case x of NZero \<Rightarrow> True | Fin _ \<Rightarrow> True | _ \<Rightarrow> False)"

text \<open>The bit patterns that exist: 24 significant bits and the exponent range.\<close>

fun f32_ok :: "f32 \<Rightarrow> bool" where
  "f32_ok (Fin k) = (representable k \<and> \<bar>k\<bar> < f32_top)"
| "f32_ok _ = True"

text \<open>The float nearest to \<open>a / d\<close> units; \<open>neg\<close> is the sign of a zero result.\<close>

definition of_round :: "bool \<Rightarrow> int \<Rightarrow> int \<Rightarrow> f32" where
  "of_round neg a d =
     (let m = round_mag \<bar>a\<bar> d
      in if f32_top \<le> m then (if a < 0 then NInf else PInf)
         else if m = 0 then (if neg then NZero else Fin 0)
         else Fin (if a < 0 then - m else m))"

instantiation f32 :: "{ord, plus, uminus, minus, times, divide}"
begin

definition less_eq_f32 :: "f32 \<Rightarrow> f32 \<Rightarrow> bool" where
  "less_eq_f32 x y = (x \<noteq> NaN \<and> y \<noteq> NaN \<and> fval x \<le> fval y)"

definition less_f32 :: "f32 \<Rightarrow> f32 \<Rightarrow> bool" where
  "less_f32 x y = (x \<noteq> NaN \<and> y \<noteq> NaN \<and> fval x < fval y)"

definition uminus_f32 :: "f32 \<Rightarrow> f32" where
  "uminus_f32 x =
     (case x of NaN \<Rightarrow> NaN | PInf \<Rightarrow> NInf | NInf \<Rightarrow> PInf | NZero \<Rightarrow> Fin 0
      | Fin k \<Rightarrow> if k = 0 then NZero else Fin (- k))"

definition plus_f32 :: "f32 \<Rightarrow> f32 \<Rightarrow> f32" where
  "plus_f32 x y =
     (if x = NaN \<or> y = NaN then NaN
      else if is_inf x then (if is_inf y \<and> x \<noteq> y then NaN else x)
      else if is_inf y then y
      else if x = NZero \<and> y = NZero then NZero
      else of_round False (fval x + fval y) 1)"

definition minus_f32 :: "f32 \<Rightarrow> f32 \<Rightarrow> f32" where
  "minus_f32 x y = x + (- y)"

definition times_f32 :: "f32 \<Rightarrow> f32 \<Rightarrow> f32" where
  "times_f32 x y =
     (let neg = (sign_bit x \<noteq> sign_bit y)
      in if x = NaN \<or> y = NaN then NaN
         else if is_inf x \<or> is_inf y then
           (if fval x = 0 \<or> fval y = 0 then NaN else if neg then NInf else PInf)
         else of_round neg (fval x * fval y) (2 ^ 149))"

definition divide_f32 :: "f32 \<Rightarrow> f32 \<Rightarrow> f32" where
  "divide_f32 x y =
     (let neg = (sign_bit x \<noteq> sign_bit y)
      in if x = NaN \<or> y = NaN then NaN
         else if is_inf x then (if is_inf y then NaN else if neg then NInf else PInf)
         else if is_inf y then (if neg then NZero else Fin 0)
         else if fval y = 0 then (if fval x = 0 then NaN else if neg then NInf else PInf)
         else of_round neg (fval x * 2 ^ 149 * sgn (fval y)) \<bar>fval y\<bar>)"

instance ..

end

instantiation f32 :: inverse
begin

definition inverse_f32 :: "f32 \<Rightarrow> f32" where
  "inverse_f32 x = divide (Fin (2 ^ 149)) x"

instance ..

end

text \<open>\<^verbatim>\<open>std::max\<close>, \<^verbatim>\<open>std::min\<close>: the first argument unless the second is strictly better.\<close>

definition std_max :: "f32 \<Rightarrow> f32 \<Rightarrow> f32" where
  "std_max a b = (if a < b then b else a)"

definition std_min :: "f32 \<Rightarrow> f32 \<Rightarrow> f32" where
  "std_min a b = (if b < a then b else a)"

text \<open>A decimal literal \<open>a / d\<close>, \<^verbatim>\<open>static_cast<float>(int)\<close> and \<^verbatim>\<open>static_cast<int>(float)\<close>.\<close>

definition f32_lit :: "int \<Rightarrow> int \<Rightarrow> f32" where
  "f32_lit a d = of_round False (a * 2 ^ 149) d"

definition f32_of_int :: "int \<Rightarrow> f32" where
  "f32_of_int n = of_round False (n * 2 ^ 149) 1"

definition trunc_units :: "int \<Rightarrow> int" where
  "trunc_units k = (if k < 0 then - ((- k) div 2 ^ 149) else k div 2 ^ 149)"

text \<open>The cast truncates; it is undefined when the truncated value is no 32-bit \<^verbatim>\<open>int\<close>.\<close>

definition f32_to_int :: "f32 \<Rightarrow> int run" where
  "f32_to_int x =
     (if is_finite x \<and> - (2 ^ 31) \<le> trunc_units (fval x) \<and> trunc_units (fval x) < 2 ^ 31
      then Inr (trunc_units (fval x))
      else Inl (Undefined_Behaviour ''float to int''))"

text \<open>Whole pixels, and the constants of the sources.\<close>

definition px :: "int \<Rightarrow> f32" where
  "px n = Fin (n * 2 ^ 149)"

definition f_zero :: f32 where "f_zero = Fin 0"
definition f_half :: f32 where "f_half = Fin (2 ^ 148)"
definition f_one :: f32 where "f_one = Fin (2 ^ 149)"
definition f_two :: f32 where "f_two = Fin (2 ^ 150)"

subsection \<open>Comparisons\<close>

lemmas f32_order_defs = less_eq_f32_def less_f32_def

lemma f32_nan_compare [simp]:
  "\<not> NaN \<le> x" "\<not> x \<le> NaN" "\<not> NaN < x" "\<not> x < (NaN :: f32)"
  by (simp_all add: f32_order_defs)

lemma f32_le_refl [simp]: "x \<le> x \<longleftrightarrow> x \<noteq> (NaN :: f32)"
  by (auto simp: f32_order_defs)

lemma f32_le_trans: "x \<le> y \<Longrightarrow> y \<le> z \<Longrightarrow> x \<le> (z :: f32)"
  by (auto simp: f32_order_defs)

lemma f32_not_le: "x \<noteq> NaN \<Longrightarrow> y \<noteq> NaN \<Longrightarrow> \<not> x \<le> y \<longleftrightarrow> y < (x :: f32)"
  by (auto simp: f32_order_defs)

lemma f32_not_less: "x \<noteq> NaN \<Longrightarrow> y \<noteq> NaN \<Longrightarrow> \<not> x < y \<longleftrightarrow> y \<le> (x :: f32)"
  by (auto simp: f32_order_defs)

lemma Fin_le_Fin [simp]: "Fin a \<le> Fin b \<longleftrightarrow> a \<le> b"
  by (simp add: f32_order_defs)

lemma Fin_less_Fin [simp]: "Fin a < Fin b \<longleftrightarrow> a < b"
  by (simp add: f32_order_defs)

lemma px_le_px [simp]: "px a \<le> px b \<longleftrightarrow> a \<le> b"
  by (simp add: px_def)

lemma px_less_px [simp]: "px a < px b \<longleftrightarrow> a < b"
  by (simp add: px_def)

lemma px_inject [simp]: "px a = px b \<longleftrightarrow> a = b"
  by (simp add: px_def)

lemma px_not_NaN [simp]: "px a \<noteq> NaN" "NaN \<noteq> px a"
  by (simp_all add: px_def)

lemma f_zero_px: "f_zero = px 0"
  by (simp add: f_zero_def px_def)

lemma f_two_px: "f_two = px 2"
  by (simp add: f_two_def px_def)

lemma f_one_px: "f_one = px 1"
  by (simp add: f_one_def px_def)

lemma std_max_px [simp]: "std_max (px a) (px b) = px (max a b)"
  by (simp add: std_max_def max_def)

lemma std_min_px [simp]: "std_min (px a) (px b) = px (min a b)"
  by (simp add: std_min_def min_def)

subsection \<open>Rounding to a float\<close>

lemma f32_top_pos [simp]: "0 < f32_top" "0 \<le> f32_top" "\<not> f32_top \<le> 0" "f32_top \<noteq> 0"
  by (simp_all add: f32_top_def)

lemma representable_top: "representable f32_top"
  unfolding f32_top_def by (rule representableI [of _ 1 277]) simp_all

lemma of_round_not_NaN [simp]: "of_round s a d \<noteq> NaN" "NaN \<noteq> of_round s a d"
  by (simp_all add: of_round_def Let_def)

lemma of_round_ok: "0 < d \<Longrightarrow> f32_ok (of_round s a d)"
  using round_mag_representable [of d "\<bar>a\<bar>"] round_mag_nonneg [of d "\<bar>a\<bar>"]
  by (auto simp: of_round_def Let_def)

lemma fval_of_round:
  assumes "0 < d"
  shows "fval (of_round s a d) = sgn a * min f32_top (round_mag \<bar>a\<bar> d)"
proof (cases "a = 0")
  case True
  then show ?thesis
    using round_mag_exact [of d 0] assms by (simp add: of_round_def f32_top_def)
next
  case False
  then show ?thesis
    using round_mag_nonneg [of d "\<bar>a\<bar>"] assms
    by (auto simp: of_round_def Let_def min_def sgn_if)
qed

lemma of_round_mono:
  assumes "0 < d" "a \<le> b"
  shows "of_round s a d \<le> of_round s' b d"
proof -
  let ?r = "\<lambda>x. min f32_top (round_mag x d)"
  have nn: "0 \<le> ?r \<bar>x\<bar>" for x
    using round_mag_nonneg [of d "\<bar>x\<bar>"] assms(1) by (simp add: order_less_imp_le)
  have mono: "?r x \<le> ?r y" if "0 \<le> x" "x \<le> y" for x y
    using round_mag_mono [of d x y] that assms(1) by (simp add: min_le_iff_disj)
  have "sgn a * ?r \<bar>a\<bar> \<le> sgn b * ?r \<bar>b\<bar>"
  proof (cases "0 \<le> a \<or> b \<le> 0")
    case True
    then show ?thesis
      using assms(2) mono [of "\<bar>a\<bar>" "\<bar>b\<bar>"] mono [of "\<bar>b\<bar>" "\<bar>a\<bar>"] nn [of a] nn [of b]
      by (auto simp: sgn_if split: if_splits)
  next
    case False
    then have "sgn a * ?r \<bar>a\<bar> \<le> 0" using nn [of a] by (simp add: sgn_if min_def)
    also have "0 \<le> sgn b * ?r \<bar>b\<bar>" using False nn [of b] by (simp add: sgn_if)
    finally show ?thesis .
  qed
  then show ?thesis by (simp add: less_eq_f32_def fval_of_round assms(1))
qed

lemma of_round_exact:
  assumes "0 < d" "representable m" "\<bar>m\<bar> < f32_top" "m \<noteq> 0 \<or> \<not> s"
  shows "of_round s (m * d) d = Fin m"
proof -
  have "round_mag \<bar>m * d\<bar> d = \<bar>m\<bar>"
    using round_mag_exact [of d "\<bar>m\<bar>"] assms by (simp add: abs_mult representable_def)
  then show ?thesis
    using assms by (auto simp: of_round_def Let_def mult_less_0_iff)
qed

lemmas of_round_exact_1 = of_round_exact [where d = 1, simplified]

lemma fval_bounds: "f32_ok x \<Longrightarrow> \<bar>fval x\<bar> \<le> f32_top"
  by (cases x) auto

lemma fval_finite: "f32_ok x \<Longrightarrow> is_finite x \<Longrightarrow> \<bar>fval x\<bar> < f32_top"
  by (cases x) (auto simp: is_finite_def)

lemma representable_fval: "f32_ok x \<Longrightarrow> representable (fval x)"
  by (cases x) (auto simp: representable_top)

subsection \<open>The operations stay inside binary32\<close>

lemma f32_ok_plus: "f32_ok x \<Longrightarrow> f32_ok y \<Longrightarrow> f32_ok (x + y)"
  by (auto simp: plus_f32_def of_round_ok)

lemma f32_ok_uminus: "f32_ok x \<Longrightarrow> f32_ok (- x)"
  by (cases x) (auto simp: uminus_f32_def)

lemma f32_ok_minus: "f32_ok x \<Longrightarrow> f32_ok y \<Longrightarrow> f32_ok (x - y)"
  by (simp add: minus_f32_def f32_ok_plus f32_ok_uminus)

lemma f32_ok_times: "f32_ok (x * y)"
  by (auto simp: times_f32_def Let_def of_round_ok)

lemma f32_ok_divide: "f32_ok (x / y)"
  by (auto simp: divide_f32_def Let_def of_round_ok)

lemma f32_ok_max: "f32_ok x \<Longrightarrow> f32_ok y \<Longrightarrow> f32_ok (std_max x y)"
  by (simp add: std_max_def)

lemma f32_ok_min: "f32_ok x \<Longrightarrow> f32_ok y \<Longrightarrow> f32_ok (std_min x y)"
  by (simp add: std_min_def)

lemma f32_ok_of_int: "f32_ok (f32_of_int n)"
  by (simp add: f32_of_int_def of_round_ok)

lemma f32_ok_lit: "0 < d \<Longrightarrow> f32_ok (f32_lit a d)"
  by (simp add: f32_lit_def of_round_ok)

lemma f32_ok_consts [simp]: "f32_ok f_zero" "f32_ok f_half" "f32_ok f_one" "f32_ok f_two"
  unfolding f_zero_def f_half_def f_one_def f_two_def
  using representableI [of "2 ^ 148" 1 148] representableI [of "2 ^ 149" 1 149]
    representableI [of "2 ^ 150" 1 150]
  by (simp_all add: f32_top_def)

lemmas f32_ok_intros =
  f32_ok_plus f32_ok_minus f32_ok_times f32_ok_divide f32_ok_max f32_ok_min f32_ok_of_int

subsection \<open>Operations that do not round\<close>

lemma plus_exact:
  "representable (a + b) \<Longrightarrow> \<bar>a + b\<bar> < f32_top \<Longrightarrow> Fin a + Fin b = Fin (a + b)"
  by (simp add: plus_f32_def is_inf_def of_round_exact_1)

lemma minus_exact:
  "representable (a - b) \<Longrightarrow> \<bar>a - b\<bar> < f32_top \<Longrightarrow> b \<noteq> 0 \<or> a \<noteq> 0 \<Longrightarrow> Fin a - Fin b = Fin (a - b)"
  using of_round_exact_1 [of "a - b" False]
  by (auto simp: minus_f32_def uminus_f32_def plus_f32_def is_inf_def)

lemma minus_zero_exact: "representable a \<Longrightarrow> \<bar>a\<bar> < f32_top \<Longrightarrow> Fin a - Fin 0 = Fin a"
  using of_round_exact_1 [of a False]
  by (simp add: minus_f32_def uminus_f32_def plus_f32_def is_inf_def)

lemma times_exact:
  assumes "a * b = c * 2 ^ 149" "representable c" "\<bar>c\<bar> < f32_top" "c \<noteq> 0 \<or> 0 \<le> a \<and> 0 \<le> b"
  shows "Fin a * Fin b = Fin c"
  using assms of_round_exact [of "2 ^ 149" c "(a < 0) \<noteq> (b < 0)"]
  by (auto simp: times_f32_def is_inf_def Let_def)

text \<open>Whole pixels of at most 24 bits are floats, and their sums are exact.\<close>

lemma representable_px: "\<bar>n\<bar> \<le> 2 ^ 24 \<Longrightarrow> representable (n * 2 ^ 149)"
  by (rule representable_scale [OF representable_small])

lemma px_below_top: "\<bar>n\<bar> \<le> 2 ^ 24 \<Longrightarrow> \<bar>n * 2 ^ 149\<bar> < f32_top"
  by (simp add: f32_top_def abs_mult)

lemma f32_ok_px: "\<bar>n\<bar> \<le> 2 ^ 24 \<Longrightarrow> f32_ok (px n)"
  using representable_px [of n] px_below_top [of n] by (simp add: px_def)

lemma plus_px [exact_arith]: "\<bar>a + b\<bar> \<le> 2 ^ 24 \<Longrightarrow> px a + px b = px (a + b)"
  using plus_exact [of "a * 2 ^ 149" "b * 2 ^ 149"] representable_px [of "a + b"] px_below_top [of "a + b"]
  by (simp add: px_def distrib_right)

lemma minus_px [exact_arith]: "\<bar>a - b\<bar> \<le> 2 ^ 24 \<Longrightarrow> px a - px b = px (a - b)"
  using minus_exact [of "a * 2 ^ 149" "b * 2 ^ 149"] minus_zero_exact [of "a * 2 ^ 149"]
    representable_px [of "a - b"] px_below_top [of "a - b"]
  by (cases "b = 0") (auto simp: px_def left_diff_distrib)

lemma times_px [exact_arith]:
  "\<bar>a * b\<bar> \<le> 2 ^ 24 \<Longrightarrow> a * b \<noteq> 0 \<or> 0 \<le> a \<and> 0 \<le> b \<Longrightarrow> px a * px b = px (a * b)"
  unfolding px_def
  by (rule times_exact [OF _ representable_px px_below_top]) auto

lemma times_px_half [exact_arith]:
  assumes "0 \<le> a" "a \<le> 2 ^ 24"
  shows "px a * f_half = Fin (a * 2 ^ 148)"
  unfolding px_def f_half_def
proof (rule times_exact)
  show "representable (a * 2 ^ 148)"
    using assms by (intro representable_scale representable_small) simp
  show "\<bar>a * 2 ^ 148\<bar> < f32_top"
    using assms by (simp add: f32_top_def abs_mult)
qed (use assms in simp_all)

text \<open>
  The same on a finer grid: multiples of \<open>2^(e - 149)\<close> pixels, such as the half pixels that a
  padding of half an odd width has.
\<close>

definition grid :: "nat \<Rightarrow> int \<Rightarrow> f32" where
  "grid e n = Fin (n * 2 ^ e)"

lemma grid_compare [simp]: "grid e a \<le> grid e b \<longleftrightarrow> a \<le> b" "grid e a < grid e b \<longleftrightarrow> a < b"
  by (simp_all add: grid_def)

lemma grid_not_NaN [simp]: "grid e a \<noteq> NaN" "NaN \<noteq> grid e a"
  by (simp_all add: grid_def)

lemma f_zero_grid: "f_zero = grid e 0"
  by (simp add: grid_def f_zero_def)

lemma px_grid:
  assumes "e \<le> 149"
  shows "px n = grid e (n * 2 ^ (149 - e))"
proof -
  have "(2::int) ^ 149 = 2 ^ (149 - e) * 2 ^ e"
    using assms by (simp only: flip: power_add) simp
  then show ?thesis by (simp only: px_def grid_def mult.assoc)
qed

lemma representable_grid: "\<bar>n\<bar> \<le> 2 ^ 24 \<Longrightarrow> representable (n * 2 ^ e)"
  by (rule representable_scale [OF representable_small])

lemma grid_below_top:
  assumes "\<bar>n\<bar> \<le> 2 ^ 24" "e \<le> 250"
  shows "\<bar>n * 2 ^ e\<bar> < f32_top"
proof -
  have "\<bar>n * 2 ^ e\<bar> = \<bar>n\<bar> * 2 ^ e" by (simp add: abs_mult)
  also have "\<dots> \<le> 2 ^ 24 * 2 ^ 250"
    using assms by (intro mult_mono power_increasing) simp_all
  also have "\<dots> < f32_top" by (simp add: f32_top_def)
  finally show ?thesis .
qed

lemma plus_grid:
  assumes "\<bar>a + b\<bar> \<le> 2 ^ 24" "e \<le> 250"
  shows "grid e a + grid e b = grid e (a + b)"
  using plus_exact [of "a * 2 ^ e" "b * 2 ^ e"] representable_grid [of "a + b" e]
    grid_below_top [of "a + b" e] assms
  by (simp add: grid_def distrib_right)

lemma minus_grid:
  assumes "\<bar>a - b\<bar> \<le> 2 ^ 24" "e \<le> 250"
  shows "grid e a - grid e b = grid e (a - b)"
  using minus_exact [of "a * 2 ^ e" "b * 2 ^ e"] minus_zero_exact [of "a * 2 ^ e"]
    representable_grid [of "a - b" e] grid_below_top [of "a - b" e] assms
  by (cases "b = 0") (auto simp: grid_def left_diff_distrib)

lemma two_times_grid:
  assumes "0 \<le> p" "p \<le> 2 ^ 23" "e \<le> 250"
  shows "f_two * grid e p = grid e (2 * p)"
  unfolding f_two_def grid_def
  by (rule times_exact [OF _ representable_grid grid_below_top]) (use assms in simp_all)

lemma std_max_grid [simp]: "std_max (grid e a) (grid e b) = grid e (max a b)"
  by (simp add: std_max_def max_def)

lemma f32_of_int_px: "\<bar>n\<bar> \<le> 2 ^ 24 \<Longrightarrow> f32_of_int n = px n"
  unfolding f32_of_int_def px_def
  by (rule of_round_exact_1 [OF representable_px px_below_top]) simp_all

lemma f32_to_int_px: "- (2 ^ 31) \<le> n \<Longrightarrow> n < 2 ^ 31 \<Longrightarrow> f32_to_int (px n) = Inr n"
  by (simp add: f32_to_int_def px_def is_finite_def trunc_units_def flip: mult_minus_left)

subsection \<open>Monotonicity\<close>

lemma plus_PInf: "x + y \<noteq> NaN \<Longrightarrow> x = PInf \<or> y = PInf \<Longrightarrow> x + y = PInf"
  by (auto simp: plus_f32_def is_inf_def split: if_splits)

lemma plus_NInf: "x + y \<noteq> NaN \<Longrightarrow> x = NInf \<or> y = NInf \<Longrightarrow> x + y = NInf"
  by (auto simp: plus_f32_def is_inf_def split: if_splits)

lemma plus_NaN: "x = NaN \<or> y = NaN \<Longrightarrow> x + y = NaN"
  by (simp add: plus_f32_def)

lemma fval_plus_finite:
  "is_finite x \<Longrightarrow> is_finite y \<Longrightarrow> x + y \<noteq> NaN \<and> fval (x + y) = fval (of_round False (fval x + fval y) 1)"
  using of_round_exact_1 [of 0 False]
  by (cases x; cases y) (auto simp: plus_f32_def is_inf_def is_finite_def f32_top_def)

lemma le_PInf: "f32_ok x \<Longrightarrow> x \<noteq> NaN \<Longrightarrow> x \<le> PInf"
  using fval_bounds [of x] by (simp add: less_eq_f32_def)

lemma NInf_le: "f32_ok x \<Longrightarrow> x \<noteq> NaN \<Longrightarrow> NInf \<le> x"
  using fval_bounds [of x] by (simp add: less_eq_f32_def)

lemma le_not_PInf: "x \<le> y \<Longrightarrow> f32_ok y \<Longrightarrow> y \<noteq> PInf \<Longrightarrow> x \<noteq> PInf"
  by (cases y) (auto simp: less_eq_f32_def dest: less_le_trans)

lemma le_not_NInf: "x \<le> y \<Longrightarrow> f32_ok x \<Longrightarrow> x \<noteq> NInf \<Longrightarrow> y \<noteq> NInf"
  by (cases x) (auto simp: less_eq_f32_def)

lemma is_finite_iff: "is_finite x \<longleftrightarrow> x \<noteq> NaN \<and> x \<noteq> PInf \<and> x \<noteq> NInf"
  by (cases x) (auto simp: is_finite_def)

lemma plus_mono:
  fixes x y x' y' :: f32
  assumes ok: "f32_ok x" "f32_ok y" "f32_ok x'" "f32_ok y'"
    and le: "x \<le> x'" "y \<le> y'" and nan: "x + y \<noteq> NaN" "x' + y' \<noteq> NaN"
  shows "x + y \<le> x' + y'"
proof (cases "x + y = NInf \<or> x' + y' = PInf")
  case True
  then show ?thesis
    using ok nan le_PInf [of "x + y"] NInf_le [of "x' + y'"] f32_ok_plus by auto
next
  case False
  then have "x \<noteq> NInf" "y \<noteq> NInf" "x' \<noteq> PInf" "y' \<noteq> PInf"
    using plus_NInf [OF nan(1)] plus_PInf [OF nan(2)] by auto
  then have fin: "is_finite x" "is_finite y" "is_finite x'" "is_finite y'"
    using ok le le_not_PInf [of x x'] le_not_PInf [of y y'] le_not_NInf [of x x'] le_not_NInf [of y y']
    by (auto simp: is_finite_iff)
  have "fval x + fval y \<le> fval x' + fval y'"
    using le by (simp add: less_eq_f32_def add_mono)
  then have "of_round False (fval x + fval y) 1 \<le> of_round False (fval x' + fval y') 1"
    by (intro of_round_mono) auto
  then show ?thesis
    using fval_plus_finite [OF fin(1,2)] fval_plus_finite [OF fin(3,4)]
    by (simp add: less_eq_f32_def)
qed

lemma plus_commute_f32: "x + y = y + (x :: f32)"
  by (auto simp: plus_f32_def is_inf_def add.commute)

lemma times_nonneg:
  assumes "f_zero \<le> x" "f_zero \<le> y" "x * y \<noteq> NaN"
  shows "f_zero \<le> x * y"
proof (cases "is_inf x \<or> is_inf y")
  case True
  then show ?thesis using assms
    by (cases x; cases y)
      (auto simp: times_f32_def Let_def is_inf_def f_zero_def less_eq_f32_def f32_top_def)
next
  case False
  have "0 \<le> fval x * fval y"
    using assms by (simp add: f_zero_def less_eq_f32_def)
  then have "0 \<le> fval (of_round s (fval x * fval y) (2 ^ 149))" for s
    using round_mag_nonneg [of "2 ^ 149" "\<bar>fval x * fval y\<bar>"]
    by (simp add: fval_of_round sgn_if f32_top_def)
  then show ?thesis
    using assms False by (simp add: times_f32_def Let_def f_zero_def less_eq_f32_def)
qed

lemma std_max_ge1: "a \<noteq> NaN \<Longrightarrow> a \<le> std_max a b"
  by (auto simp: std_max_def f32_order_defs)

lemma std_max_ge2: "a \<noteq> NaN \<Longrightarrow> b \<noteq> NaN \<Longrightarrow> b \<le> std_max a b"
  by (auto simp: std_max_def f32_order_defs)

lemma std_max_not_NaN: "a \<noteq> NaN \<Longrightarrow> std_max a b \<noteq> NaN"
  by (auto simp: std_max_def)

lemma std_min_le1: "a \<noteq> NaN \<Longrightarrow> std_min a b \<le> a"
  by (auto simp: std_min_def f32_order_defs)

lemma std_min_le2: "a \<noteq> NaN \<Longrightarrow> b \<noteq> NaN \<Longrightarrow> std_min a b \<le> b"
  by (auto simp: std_min_def f32_order_defs)

end
