(* ===== verification/Domain.thy ===== *)
theory Domain
  imports Float32
begin

text \<open>
  The domain layer: \<^verbatim>\<open>BoundingBox\<close>, \<^verbatim>\<open>ObjectClass\<close>, \<^verbatim>\<open>Detection\<close>, \<^verbatim>\<open>SafetyZone\<close> and \<^verbatim>\<open>Alert\<close>
  (\<^verbatim>\<open>include/forklift/domain\<close>, \<^verbatim>\<open>src/domain\<close>), the pixel-set reading of a box, and the lemmas
  that tie the float geometry to it on boxes with whole-pixel coordinates, which are the
  boxes the detector yields.
\<close>

subsection \<open>Data\<close>

record bounding_box =
  bb_x :: f32
  bb_y :: f32
  bb_width :: f32
  bb_height :: f32

datatype object_class = kUnknown | kPerson | kForklift

definition object_class_to_string :: "object_class \<Rightarrow> string" where
  "object_class_to_string cls =
     (case cls of kPerson \<Rightarrow> ''person'' | kForklift \<Rightarrow> ''forklift'' | kUnknown \<Rightarrow> ''unknown'')"

record detection =
  det_box :: bounding_box
  det_cls :: object_class
  det_confidence :: f32
  det_track_id :: int

record safety_zone =
  sz_forklift_box :: bounding_box
  sz_zone_box :: bounding_box
  sz_forklift_track_id :: int

datatype alert_type = kPersonNearForklift

datatype alert_severity = kInfo | kWarning | kCritical

definition alert_type_to_string :: "alert_type \<Rightarrow> string" where
  "alert_type_to_string t = (case t of kPersonNearForklift \<Rightarrow> ''person_near_forklift'')"

definition alert_severity_to_string :: "alert_severity \<Rightarrow> string" where
  "alert_severity_to_string s =
     (case s of kInfo \<Rightarrow> ''info'' | kWarning \<Rightarrow> ''warning'' | kCritical \<Rightarrow> ''critical'')"

text \<open>Time points of \<^verbatim>\<open>system_clock\<close> and \<^verbatim>\<open>steady_clock\<close> are counts of nanoseconds.\<close>

type_synonym time_ns = int

record alert =
  al_alert_id :: string
  al_camera_id :: string
  al_type :: alert_type
  al_severity :: alert_severity
  al_timestamp :: time_ns
  al_person_track_id :: int
  al_forklift_track_id :: int
  al_person_box :: bounding_box
  al_forklift_box :: bounding_box
  al_safety_zone_box :: bounding_box
  al_distance_px :: f32

text \<open>The default member initialisers: an empty box, and the detection without a tracker.\<close>

definition empty_box :: bounding_box where
  "empty_box = \<lparr>bb_x = f_zero, bb_y = f_zero, bb_width = f_zero, bb_height = f_zero\<rparr>"

definition default_detection :: detection where
  "default_detection =
     \<lparr>det_box = empty_box, det_cls = kUnknown, det_confidence = f_zero, det_track_id = -1\<rparr>"

subsection \<open>BoundingBox\<close>

definition bb_area :: "bounding_box \<Rightarrow> f32" where
  "bb_area b = bb_width b * bb_height b"

definition bb_right :: "bounding_box \<Rightarrow> f32" where
  "bb_right b = bb_x b + bb_width b"

definition bb_bottom :: "bounding_box \<Rightarrow> f32" where
  "bb_bottom b = bb_y b + bb_height b"

definition bb_cx :: "bounding_box \<Rightarrow> f32" where
  "bb_cx b = bb_x b + bb_width b * f_half"

definition bb_cy :: "bounding_box \<Rightarrow> f32" where
  "bb_cy b = bb_y b + bb_height b * f_half"

definition bb_intersects :: "bounding_box \<Rightarrow> bounding_box \<Rightarrow> bool" where
  "bb_intersects b other =
     (\<not> (bb_right b \<le> bb_x other \<or>
         bb_right other \<le> bb_x b \<or>
         bb_bottom b \<le> bb_y other \<or>
         bb_bottom other \<le> bb_y b))"

definition bb_iou :: "bounding_box \<Rightarrow> bounding_box \<Rightarrow> f32" where
  "bb_iou b other =
     (let ix1 = std_max (bb_x b) (bb_x other);
          iy1 = std_max (bb_y b) (bb_y other);
          ix2 = std_min (bb_right b) (bb_right other);
          iy2 = std_min (bb_bottom b) (bb_bottom other);
          iw = std_max f_zero (ix2 - ix1);
          ih = std_max f_zero (iy2 - iy1);
          intersection = iw * ih;
          union_area = bb_area b + bb_area other - intersection
      in if union_area \<le> f_zero then f_zero else intersection / union_area)"

definition bb_expanded :: "bounding_box \<Rightarrow> f32 \<Rightarrow> f32 \<Rightarrow> bounding_box" where
  "bb_expanded b pad_x pad_y =
     \<lparr>bb_x = std_max f_zero (bb_x b - pad_x),
      bb_y = std_max f_zero (bb_y b - pad_y),
      bb_width = std_max f_zero (bb_width b + f_two * pad_x),
      bb_height = std_max f_zero (bb_height b + f_two * pad_y)\<rparr>"

subsection \<open>SafetyZone\<close>

definition sz_contains_point :: "safety_zone \<Rightarrow> f32 \<Rightarrow> f32 \<Rightarrow> bool" where
  "sz_contains_point z p_x p_y =
     (bb_x (sz_zone_box z) \<le> p_x \<and> p_x \<le> bb_right (sz_zone_box z) \<and>
      bb_y (sz_zone_box z) \<le> p_y \<and> p_y \<le> bb_bottom (sz_zone_box z))"

definition sz_overlaps :: "safety_zone \<Rightarrow> bounding_box \<Rightarrow> bool" where
  "sz_overlaps z other = bb_intersects (sz_zone_box z) other"

lemmas bb_defs = bb_area_def bb_right_def bb_bottom_def bb_cx_def bb_cy_def

subsection \<open>Abstract reading: the pixels of a box\<close>

definition pixels :: "bounding_box \<Rightarrow> (int \<times> int) set" where
  "pixels b = {(i, j). bb_x b \<le> px i \<and> px i < bb_right b \<and> bb_y b \<le> px j \<and> px j < bb_bottom b}"

text \<open>A box with whole-pixel coordinates, and the coordinates a camera frame can have.\<close>

definition pixel_box :: "int \<Rightarrow> int \<Rightarrow> int \<Rightarrow> int \<Rightarrow> bounding_box" where
  "pixel_box x y w h = \<lparr>bb_x = px x, bb_y = px y, bb_width = px w, bb_height = px h\<rparr>"

definition frame_scale :: "int \<Rightarrow> bool" where
  "frame_scale n = (\<bar>n\<bar> \<le> 2 ^ 22)"

definition pixel_box_ok :: "int \<Rightarrow> int \<Rightarrow> int \<Rightarrow> int \<Rightarrow> bool" where
  "pixel_box_ok x y w h =
     (frame_scale x \<and> frame_scale y \<and> frame_scale w \<and> frame_scale h \<and> 0 < w \<and> 0 < h)"

lemmas pixel_box_ok_defs = pixel_box_ok_def frame_scale_def

lemma pixel_box_sel [simp]:
  "bb_x (pixel_box x y w h) = px x" "bb_y (pixel_box x y w h) = px y"
  "bb_width (pixel_box x y w h) = px w" "bb_height (pixel_box x y w h) = px h"
  by (simp_all add: pixel_box_def)

lemma pixel_box_edges:
  assumes "frame_scale x" "frame_scale y" "frame_scale w" "frame_scale h"
  shows "bb_right (pixel_box x y w h) = px (x + w)" "bb_bottom (pixel_box x y w h) = px (y + h)"
  using assms by (simp_all add: bb_defs frame_scale_def plus_px)

lemma pixels_pixel_box:
  assumes "pixel_box_ok x y w h"
  shows "pixels (pixel_box x y w h) = {x..<x + w} \<times> {y..<y + h}"
  using assms by (auto simp: pixels_def pixel_box_edges pixel_box_ok_def)

lemma intersects_pixel_boxes:
  assumes "pixel_box_ok x y w h" "pixel_box_ok x' y' w' h'"
  shows "bb_intersects (pixel_box x y w h) (pixel_box x' y' w' h') \<longleftrightarrow>
    x' < x + w \<and> x < x' + w' \<and> y' < y + h \<and> y < y' + h'"
  using assms by (auto simp: bb_intersects_def pixel_box_edges pixel_box_ok_def)

lemma interval_overlap:
  fixes a b c d :: int
  assumes "a < b" "c < d"
  shows "{a..<b} \<inter> {c..<d} \<noteq> {} \<longleftrightarrow> c < b \<and> a < d"
proof
  assume "c < b \<and> a < d"
  with assms have "max a c \<in> {a..<b} \<inter> {c..<d}" by simp
  then show "{a..<b} \<inter> {c..<d} \<noteq> {}" by blast
qed auto

lemma rect_overlap:
  fixes A C :: "'a set" and B D :: "'b set"
  shows "(A \<times> B) \<inter> (C \<times> D) \<noteq> {} \<longleftrightarrow> A \<inter> C \<noteq> {} \<and> B \<inter> D \<noteq> {}"
  by blast

subsection \<open>Lemmas\<close>

lemma bb_intersects_sym: "bb_intersects a b = bb_intersects b a"
  by (auto simp: bb_intersects_def)

lemma bb_intersects_nan:
  assumes "bb_x b = NaN" "bb_y b = NaN"
  shows "bb_intersects a b"
  using assms by (simp add: bb_intersects_def bb_defs plus_NaN)

lemma sz_contains_point_pixels:
  "(i, j) \<in> pixels (sz_zone_box z) \<Longrightarrow> sz_contains_point z (px i) (px j)"
  by (auto simp: pixels_def sz_contains_point_def f32_order_defs)

text \<open>Padding a pixel box by whole pixels is exact.\<close>

lemma expand_edge:
  assumes "frame_scale x" "0 \<le> p" "frame_scale p" "e \<le> 250"
  shows "std_max f_zero (grid e x - grid e p) = grid e (max 0 (x - p))"
proof -
  have "grid e x - grid e p = grid e (x - p)"
    by (rule minus_grid) (use assms in \<open>simp_all add: frame_scale_def\<close>)
  then show ?thesis by (simp add: f_zero_grid [of e])
qed

lemma expand_extent:
  assumes "frame_scale w" "0 < w" "0 \<le> p" "frame_scale p" "e \<le> 250"
  shows "std_max f_zero (grid e w + f_two * grid e p) = grid e (w + 2 * p)"
proof -
  have "f_two * grid e p = grid e (2 * p)"
    by (rule two_times_grid) (use assms in \<open>simp_all add: frame_scale_def\<close>)
  moreover have "grid e w + grid e (2 * p) = grid e (w + 2 * p)"
    by (rule plus_grid) (use assms in \<open>simp_all add: frame_scale_def\<close>)
  ultimately show ?thesis using assms by (simp add: f_zero_grid [of e] max_def)
qed

lemma px_is_grid: "px n = grid 149 n"
  by (simp add: px_def grid_def)

lemma bb_expanded_pixel_box:
  assumes "pixel_box_ok x y w h" "0 \<le> p" "frame_scale p" "0 \<le> q" "frame_scale q"
  shows "bb_expanded (pixel_box x y w h) (px p) (px q) =
    pixel_box (max 0 (x - p)) (max 0 (y - q)) (w + 2 * p) (h + 2 * q)"
  using assms
  by (simp add: bb_expanded_def pixel_box_ok_def expand_edge expand_extent pixel_box_def px_is_grid)

lemma pixels_expanded:
  assumes "pixel_box_ok x y w h" "0 \<le> p" "frame_scale p" "0 \<le> q" "frame_scale q"
  shows "pixels (bb_expanded (pixel_box x y w h) (px p) (px q)) =
    {max 0 (x - p)..<max 0 (x - p) + (w + 2 * p)} \<times> {max 0 (y - q)..<max 0 (y - q) + (h + 2 * q)}"
proof -
  let ?X = "max 0 (x - p)" and ?Y = "max 0 (y - q)"
  have "bb_right (pixel_box ?X ?Y (w + 2 * p) (h + 2 * q)) = px (?X + (w + 2 * p))"
    "bb_bottom (pixel_box ?X ?Y (w + 2 * p) (h + 2 * q)) = px (?Y + (h + 2 * q))"
    using assms by (auto simp: bb_defs pixel_box_ok_defs intro!: plus_px)
  then show ?thesis
    using assms by (auto simp: bb_expanded_pixel_box pixels_def)
qed

text \<open>
  A box on the grid of multiples of \<open>2^(e - 149)\<close> pixels, and the zone it gets from a padding
  on that grid: its edges are computed exactly.
\<close>

definition grid_box :: "nat \<Rightarrow> int \<Rightarrow> int \<Rightarrow> int \<Rightarrow> int \<Rightarrow> bounding_box" where
  "grid_box e x y w h = \<lparr>bb_x = grid e x, bb_y = grid e y, bb_width = grid e w, bb_height = grid e h\<rparr>"

lemma pixel_box_grid:
  "e \<le> 149 \<Longrightarrow> pixel_box x y w h =
     grid_box e (x * 2 ^ (149 - e)) (y * 2 ^ (149 - e)) (w * 2 ^ (149 - e)) (h * 2 ^ (149 - e))"
  by (simp add: pixel_box_def grid_box_def px_grid)

lemma bb_expanded_grid_box:
  assumes "pixel_box_ok x y w h" "0 \<le> p" "frame_scale p" "0 \<le> q" "frame_scale q" "e \<le> 250"
  shows "bb_expanded (grid_box e x y w h) (grid e p) (grid e q) =
    grid_box e (max 0 (x - p)) (max 0 (y - q)) (w + 2 * p) (h + 2 * q)"
  using assms by (simp add: bb_expanded_def pixel_box_ok_def expand_edge expand_extent grid_box_def)

lemma grid_box_edges:
  assumes "\<bar>x + w\<bar> \<le> 2 ^ 24" "\<bar>y + h\<bar> \<le> 2 ^ 24" "e \<le> 250"
  shows "bb_right (grid_box e x y w h) = grid e (x + w)" "bb_bottom (grid_box e x y w h) = grid e (y + h)"
  using assms by (simp_all add: bb_defs grid_box_def plus_grid)

lemma intersects_grid_boxes:
  assumes "\<bar>x + w\<bar> \<le> 2 ^ 24" "\<bar>y + h\<bar> \<le> 2 ^ 24" "\<bar>x' + w'\<bar> \<le> 2 ^ 24" "\<bar>y' + h'\<bar> \<le> 2 ^ 24" "e \<le> 250"
  shows "bb_intersects (grid_box e x y w h) (grid_box e x' y' w' h') \<longleftrightarrow>
    x' < x + w \<and> x < x' + w' \<and> y' < y + h \<and> y < y' + h'"
  using assms
  by (simp add: bb_intersects_def grid_box_edges) (auto simp: grid_box_def)

text \<open>
  The exact overlap test of a padded box: the distance is compared with the padding, and the
  clamp at zero lengthens the far side.
\<close>

lemma expanded_intersects_grid:
  assumes f: "pixel_box_ok x y w h" and p: "0 \<le> p" "frame_scale p" "0 \<le> q" "frame_scale q"
    and o: "pixel_box_ok x' y' w' h'" and e: "e \<le> 250"
  shows "bb_intersects (bb_expanded (grid_box e x y w h) (grid e p) (grid e q)) (grid_box e x' y' w' h') \<longleftrightarrow>
    x' < x + w + p + max 0 (p - x) \<and> max 0 (x - p) < x' + w' \<and>
    y' < y + h + q + max 0 (q - y) \<and> max 0 (y - q) < y' + h'"
proof -
  have "bb_intersects (grid_box e (max 0 (x - p)) (max 0 (y - q)) (w + 2 * p) (h + 2 * q))
      (grid_box e x' y' w' h') \<longleftrightarrow>
    x' < max 0 (x - p) + (w + 2 * p) \<and> max 0 (x - p) < x' + w' \<and>
    y' < max 0 (y - q) + (h + 2 * q) \<and> max 0 (y - q) < y' + h'"
    by (rule intersects_grid_boxes) (use assms in \<open>auto simp: pixel_box_ok_defs\<close>)
  moreover have "max 0 (x - p) + (w + 2 * p) = x + w + p + max 0 (p - x)"
    "max 0 (y - q) + (h + 2 * q) = y + h + q + max 0 (q - y)" by simp_all
  ultimately show ?thesis by (simp only: bb_expanded_grid_box [OF f p e])
qed

text \<open>A finite binary32 number, a box of such numbers, and a padding.\<close>

definition finite32 :: "f32 \<Rightarrow> bool" where
  "finite32 x = (f32_ok x \<and> is_finite x)"

definition finite_box :: "bounding_box \<Rightarrow> bool" where
  "finite_box b = (finite32 (bb_x b) \<and> finite32 (bb_y b) \<and> finite32 (bb_width b) \<and> finite32 (bb_height b))"

definition padding_ok :: "f32 \<Rightarrow> bool" where
  "padding_ok p = (finite32 p \<and> f_zero \<le> p \<and> is_finite (f_two * p))"

text \<open>Float facts that need no whole pixels: padding never moves an edge inward.\<close>

lemma minus_le_self:
  assumes "f32_ok x" "f32_ok p" "is_finite x" "f_zero \<le> p" "p \<noteq> PInf"
  shows "x - p \<le> x"
proof -
  have fin: "is_finite (- p)" and le: "fval (- p) \<le> 0"
    using assms by (cases p; simp add: is_finite_def uminus_f32_def f_zero_def less_eq_f32_def)+
  have "of_round False (fval x + fval (- p)) 1 \<le> of_round False (fval x) 1"
    using le by (intro of_round_mono) auto
  moreover have "fval (of_round False (fval x) 1) = fval x"
    using of_round_exact_1 [of "fval x" False] assms(1,3)
    by (simp add: representable_fval fval_finite)
  ultimately show ?thesis
    using fval_plus_finite [OF assms(3) fin] assms(3)
    by (simp add: minus_f32_def less_eq_f32_def is_finite_iff)
qed

lemma self_le_plus:
  assumes "f32_ok x" "f32_ok p" "is_finite x" "f_zero \<le> p" "is_finite p"
  shows "x \<le> x + p"
proof -
  have "of_round False (fval x) 1 \<le> of_round False (fval x + fval p) 1"
    using assms(4) by (intro of_round_mono) (auto simp: f_zero_def less_eq_f32_def)
  moreover have "fval (of_round False (fval x) 1) = fval x"
    using of_round_exact_1 [of "fval x" False] assms(1,3)
    by (simp add: representable_fval fval_finite)
  ultimately show ?thesis
    using fval_plus_finite [OF assms(3,5)] assms(3)
    by (simp add: less_eq_f32_def is_finite_iff)
qed

lemma pad_edge:
  assumes "finite32 x" "f_zero \<le> x" "padding_ok p"
  shows "std_max f_zero (x - p) \<le> x \<and> f_zero \<le> std_max f_zero (x - p)"
  using assms minus_le_self [of x p] std_max_ge1 [of f_zero "x - p"]
  by (auto simp: std_max_def is_finite_iff f_zero_def padding_ok_def finite32_def)

lemma pad_extent:
  assumes "finite32 w" "padding_ok p"
  shows "w \<le> std_max f_zero (w + f_two * p) \<and> f_zero \<le> std_max f_zero (w + f_two * p)"
proof -
  have "f_zero \<le> f_two * p"
    using assms
    by (intro times_nonneg) (auto simp: is_finite_iff f_zero_px f_two_px padding_ok_def)
  then have le: "w \<le> w + f_two * p"
    using assms by (intro self_le_plus) (auto simp: f32_ok_times padding_ok_def finite32_def)
  then have "w + f_two * p \<noteq> NaN" by auto
  then have "w + f_two * p \<le> std_max f_zero (w + f_two * p)"
    by (intro std_max_ge2) (simp_all add: f_zero_def)
  with le show ?thesis
    using f32_le_trans [OF le] std_max_ge1 [of f_zero "w + f_two * p"]
    by (simp add: f_zero_def)
qed

subsection \<open>Intersection over union\<close>

text \<open>The overlap of two pixel boxes along one axis.\<close>

definition overlap1 :: "int \<Rightarrow> int \<Rightarrow> int \<Rightarrow> int \<Rightarrow> int" where
  "overlap1 x w x' w' = max 0 (min (x + w) (x' + w') - max x x')"

lemma overlap1_bounds: "0 < w \<Longrightarrow> 0 < w' \<Longrightarrow> 0 \<le> overlap1 x w x' w' \<and> overlap1 x w x' w' \<le> w \<and> overlap1 x w x' w' \<le> w'"
  by (auto simp: overlap1_def)

lemma overlap1_pos: "0 < w \<Longrightarrow> 0 < w' \<Longrightarrow> 0 < overlap1 x w x' w' \<longleftrightarrow> x' < x + w \<and> x < x' + w'"
  by (auto simp: overlap1_def)

lemma overlap1_px:
  assumes "frame_scale x" "frame_scale w" "frame_scale x'" "frame_scale w'"
  shows "std_max f_zero (px (min (x + w) (x' + w')) - px (max x x')) = px (overlap1 x w x' w')"
proof -
  have "px (min (x + w) (x' + w')) - px (max x x') = px (min (x + w) (x' + w') - max x x')"
    by (rule minus_px) (use assms in \<open>auto simp: frame_scale_def\<close>)
  then show ?thesis by (simp add: f_zero_px overlap1_def)
qed

lemma area_px:
  assumes "0 < w" "0 < h" "w * h \<le> 2 ^ 24"
  shows "px w * px h = px (w * h)"
  by (rule times_px) (use assms in simp_all)

lemma overlap_area:
  assumes "0 < w" "0 < h" "0 < w'" "0 < h'"
  shows "0 \<le> overlap1 x w x' w' * overlap1 y h y' h'"
    and "overlap1 x w x' w' * overlap1 y h y' h' \<le> w * h"
    and "overlap1 x w x' w' * overlap1 y h y' h' \<le> w' * h'"
  using overlap1_bounds [of w w' x x'] overlap1_bounds [of h h' y y'] assms
  by (auto intro: mult_mono)

text \<open>
  On pixel boxes the areas, the intersection and the union are computed exactly; only the
  final division rounds.
\<close>

lemma bb_iou_pixel_boxes:
  fixes x y w h x' y' w' h' :: int
  defines "i \<equiv> overlap1 x w x' w' * overlap1 y h y' h'"
  assumes ok: "pixel_box_ok x y w h" "pixel_box_ok x' y' w' h'" and area: "w * h + w' * h' \<le> 2 ^ 24"
  shows "bb_iou (pixel_box x y w h) (pixel_box x' y' w' h') = px i / px (w * h + w' * h' - i)"
proof -
  have fs: "frame_scale x" "frame_scale y" "frame_scale w" "frame_scale h"
      "frame_scale x'" "frame_scale y'" "frame_scale w'" "frame_scale h'"
    and pos: "0 < w" "0 < h" "0 < w'" "0 < h'"
    using ok by (auto simp: pixel_box_ok_def)
  have wh: "0 < w * h" "0 < w' * h'" using pos by simp_all
  note i = overlap_area [OF pos, of x x' y y', folded i_def]
  have inter: "px (overlap1 x w x' w') * px (overlap1 y h y' h') = px i"
    unfolding i_def
    by (rule times_px)
      (use i wh area overlap1_bounds [of w w' x x'] overlap1_bounds [of h h' y y'] pos in \<open>auto simp: i_def\<close>)
  have sum: "px (w * h) + px (w' * h') = px (w * h + w' * h')"
    by (rule plus_px) (use wh area in simp)
  have union: "px (w * h + w' * h') - px i = px (w * h + w' * h' - i)"
    by (rule minus_px) (use wh area i in simp)
  have upos: "0 < w * h + w' * h' - i" using i wh by linarith
  have areas: "px w * px h = px (w * h)" "px w' * px h' = px (w' * h')"
    by (rule area_px; use pos wh area in linarith)+
  show ?thesis
    using fs upos
    by (simp add: bb_iou_def Let_def pixel_box_edges overlap1_px inter areas sum union bb_area_def)
      (simp add: f_zero_px)
qed

lemma ratio_bounds:
  assumes "0 \<le> i" "i \<le> u" "0 < u"
  shows "f_zero \<le> px i / px u \<and> px i / px u \<le> f_one"
proof -
  let ?d = "u * 2 ^ 149"
  have d: "0 < ?d" using assms(3) by simp
  have div: "px i / px u = of_round False (i * 2 ^ 149 * 2 ^ 149) ?d"
    using assms by (simp add: px_def divide_f32_def is_inf_def Let_def sgn_if)
  have rep: "representable (2 ^ 149)" by (rule representableI [of _ 1 149]) simp_all
  have one: "of_round False (2 ^ 149 * ?d) ?d = Fin (2 ^ 149)"
    by (rule of_round_exact [OF d rep]) (simp_all add: f32_top_def)
  have zero: "of_round False (0 * ?d) ?d = Fin 0"
    by (rule of_round_exact [OF d]) simp_all
  have "of_round False (0 * ?d) ?d \<le> of_round False (i * 2 ^ 149 * 2 ^ 149) ?d"
    using assms by (intro of_round_mono [OF d]) simp
  moreover have "of_round False (i * 2 ^ 149 * 2 ^ 149) ?d \<le> of_round False (2 ^ 149 * ?d) ?d"
    using assms by (intro of_round_mono [OF d]) (simp add: mult_right_mono)
  ultimately show ?thesis by (simp only: div one zero f_zero_def f_one_def)
qed

lemma ratio_pos:
  assumes "0 < i" "0 < u" "u \<le> 2 ^ 24"
  shows "f_zero < px i / px u"
proof -
  let ?d = "u * 2 ^ 149"
  have d: "0 < ?d" using assms(2) by simp
  have div: "px i / px u = of_round False (i * 2 ^ 149 * 2 ^ 149) ?d"
    using assms by (simp add: px_def divide_f32_def is_inf_def Let_def sgn_if)
  have low: "of_round False (2 ^ 125 * ?d) ?d = Fin (2 ^ 125)"
    by (rule of_round_exact [OF d representableI [of _ 1 125]]) (simp_all add: f32_top_def)
  have "2 ^ 125 * u \<le> 2 ^ 125 * (2 ^ 24 * i)"
    using assms mult_mono [of u "2 ^ 24" 1 i] by simp
  then have "of_round False (2 ^ 125 * ?d) ?d \<le> of_round False (i * 2 ^ 149 * 2 ^ 149) ?d"
    by (intro of_round_mono [OF d]) simp
  then show ?thesis
    by (simp only: div low) (auto simp: f_zero_def f32_order_defs)
qed

lemma ratio_zero: "0 < u \<Longrightarrow> px 0 / px u = f_zero"
  using of_round_exact [of "u * 2 ^ 149" 0 False]
  by (simp add: px_def divide_f32_def is_inf_def Let_def f_zero_def)

lemma ratio_one: "0 < u \<Longrightarrow> px u / px u = f_one"
  using of_round_exact [of "u * 2 ^ 149" "2 ^ 149" False] representableI [of "2 ^ 149" 1 149]
  by (simp add: px_def divide_f32_def is_inf_def Let_def f_one_def sgn_if f32_top_def)

subsection \<open>Properties of the box geometry\<close>



text \<open>
  The intersection test fails safe: a box whose position is not a number intersects every
  box, so a corrupt person box raises the alert instead of hiding it.  The test is symmetric.
\<close>

theorem intersects_nan_fail_safe:
  assumes "bb_x b = NaN" "bb_y b = NaN"
  shows "bb_intersects a b \<and> bb_intersects b a"
  using bb_intersects_nan [OF assms] by (simp add: bb_intersects_sym)

theorem intersects_nan_fail_safe_witness:
  "bb_intersects (pixel_box 500 500 10 10) (empty_box\<lparr>bb_x := NaN, bb_y := NaN\<rparr>)"
  by (rule intersects_nan_fail_safe [THEN conjunct1]) simp_all



text \<open>
  Where the clamp at zero acts, the box is moved and keeps its padded width: the right edge
  of the expanded box lies at \<open>x + w + p\<close> plus the amount the left edge was clamped by, so the
  zone reaches further than \<open>pad_x\<close> on that side.
\<close>

theorem expanded_right_edge:
  assumes "pixel_box_ok x y w h" "0 \<le> p" "frame_scale p" "0 \<le> q" "frame_scale q"
  shows "bb_right (bb_expanded (pixel_box x y w h) (px p) (px q)) = px (x + w + p + max 0 (p - x))"
proof -
  have "bb_right (bb_expanded (pixel_box x y w h) (px p) (px q)) = px (max 0 (x - p)) + px (w + 2 * p)"
    using assms by (simp add: bb_expanded_pixel_box bb_right_def)
  also have "\<dots> = px (max 0 (x - p) + (w + 2 * p))"
    by (rule plus_px) (use assms in \<open>auto simp: pixel_box_ok_defs\<close>)
  also have "max 0 (x - p) + (w + 2 * p) = x + w + p + max 0 (p - x)" by simp
  finally show ?thesis .
qed

theorem expanded_right_edge_witness:
  "bb_right (bb_expanded (pixel_box 5 5 10 10) (px 20) (px 20)) = px 50"
  using expanded_right_edge [of 5 5 10 10 20 20] by (simp add: pixel_box_ok_defs)

text \<open>
  For every box of finite floats in the frame (no whole pixels needed) and every finite
  non-negative padding, rounding included, expanding never moves the left or the top edge
  inward, never makes the box smaller, and never yields a negative coordinate or size.
\<close>

theorem expanded_never_shrinks:
  assumes "finite_box b" "f_zero \<le> bb_x b" "f_zero \<le> bb_y b" "padding_ok p" "padding_ok q"
  shows "bb_x (bb_expanded b p q) \<le> bb_x b \<and> bb_y (bb_expanded b p q) \<le> bb_y b \<and>
    bb_width b \<le> bb_width (bb_expanded b p q) \<and> bb_height b \<le> bb_height (bb_expanded b p q) \<and>
    f_zero \<le> bb_x (bb_expanded b p q) \<and> f_zero \<le> bb_y (bb_expanded b p q) \<and>
    f_zero \<le> bb_width (bb_expanded b p q) \<and> f_zero \<le> bb_height (bb_expanded b p q)"
  using assms pad_edge [of "bb_x b" p] pad_edge [of "bb_y b" q]
    pad_extent [of "bb_width b" p] pad_extent [of "bb_height b" q]
  by (simp add: bb_expanded_def finite_box_def)

theorem expanded_never_shrinks_witness:
  "px 10 \<le> bb_width (bb_expanded (pixel_box 5 5 10 10) f_half (px 1))"
proof -
  have "finite32 (px n)" if "n \<in> {1, 5, 10}" for n
    using that f32_ok_px [of n] by (auto simp: finite32_def px_def is_finite_def)
  moreover have "finite32 f_half" "f_zero \<le> f_half" "f_zero \<le> px 1" "f_zero \<le> px 5"
    "is_finite (f_two * f_half)" "is_finite (f_two * px 1)"
    by (simp add: finite32_def, simp add: f_half_def is_finite_def) code_simp+
  ultimately show ?thesis
    using expanded_never_shrinks [of "pixel_box 5 5 10 10" f_half "px 1"]
    by (simp add: finite_box_def padding_ok_def)
qed



subsection \<open>The AlertPublisher port\<close>

text \<open>
  \<^verbatim>\<open>AlertPublisher::publish\<close>: what the pipeline relies on is that the sink takes every alert, whatever
  its state, and never reports a failure that would have to be handled.
\<close>

locale alert_publisher =
  fixes publish :: "alert \<Rightarrow> 's \<Rightarrow> void_result \<times> 's"
  assumes accepts: "vr_ok (fst (publish a s))"
begin

lemma accepts_all: "list_all (\<lambda>a. vr_ok (fst (publish a s))) as"
  by (simp add: accepts list_all_iff)

end

end
