(* ===== verification/Risk.thy ===== *)
theory Risk
  imports Domain
begin

text \<open>
  The safety decision: \<^verbatim>\<open>SafetyZoneService\<close> builds a zone around each forklift and
  \<^verbatim>\<open>RiskDetectionService::evaluate\<close> raises an alert for each person that overlaps a zone
  (\<^verbatim>\<open>src/application\<close>).  The loops are kept as loops over accumulators and shown equal to a
  comprehension; on whole-pixel boxes the overlap test is decided in integers.
\<close>

subsection \<open>SafetyZoneService\<close>

datatype zone_mode = kAbsolutePixels | kRelativeToBox

record safety_zone_config =
  szc_mode :: zone_mode
  szc_pad_x_px :: f32
  szc_pad_y_px :: f32
  szc_pad_ratio :: f32

definition default_safety_zone_config :: safety_zone_config where
  "default_safety_zone_config =
     \<lparr>szc_mode = kRelativeToBox, szc_pad_x_px = f32_lit 120 1, szc_pad_y_px = f32_lit 120 1,
      szc_pad_ratio = f32_lit 1 2\<rparr>"

definition zone_for_forklift :: "safety_zone_config \<Rightarrow> detection \<Rightarrow> safety_zone" where
  "zone_for_forklift cfg forklift =
     (let pads = (if szc_mode cfg = kRelativeToBox
                  then (bb_width (det_box forklift) * szc_pad_ratio cfg,
                        bb_height (det_box forklift) * szc_pad_ratio cfg)
                  else (szc_pad_x_px cfg, szc_pad_y_px cfg))
      in \<lparr>sz_forklift_box = det_box forklift,
          sz_zone_box = bb_expanded (det_box forklift) (fst pads) (snd pads),
          sz_forklift_track_id = det_track_id forklift\<rparr>)"

fun zones_loop :: "safety_zone_config \<Rightarrow> detection list \<Rightarrow> safety_zone list \<Rightarrow> safety_zone list" where
  "zones_loop cfg [] out = out"
| "zones_loop cfg (f # fs) out = zones_loop cfg fs (out @ [zone_for_forklift cfg f])"

definition zones_for :: "safety_zone_config \<Rightarrow> detection list \<Rightarrow> safety_zone list" where
  "zones_for cfg forklifts = zones_loop cfg forklifts []"

subsection \<open>RiskDetectionService\<close>

definition make_alert_id :: "string \<Rightarrow> int \<Rightarrow> int \<Rightarrow> time_ns \<Rightarrow> string" where
  "make_alert_id camera_id forklift_track person_track ts =
     camera_id @ '':F'' @ dec_int forklift_track @ '':P'' @ dec_int person_track @ '':'' @ dec_int ts"

text \<open>The first loop splits the detections by class; others are skipped.\<close>

fun split_by_class ::
  "detection list \<Rightarrow> detection list \<Rightarrow> detection list \<Rightarrow> detection list \<times> detection list"
where
  "split_by_class [] persons forklifts = (persons, forklifts)"
| "split_by_class (d # ds) persons forklifts =
     (case det_cls d of
        kPerson \<Rightarrow> split_by_class ds (persons @ [d]) forklifts
      | kForklift \<Rightarrow> split_by_class ds persons (forklifts @ [d])
      | kUnknown \<Rightarrow> split_by_class ds persons forklifts)"

definition make_alert :: "string \<Rightarrow> time_ns \<Rightarrow> safety_zone \<Rightarrow> detection \<Rightarrow> alert" where
  "make_alert camera_id frame_ts zone person =
     \<lparr>al_alert_id = make_alert_id camera_id (sz_forklift_track_id zone) (det_track_id person) frame_ts,
      al_camera_id = camera_id,
      al_type = kPersonNearForklift,
      al_severity = kWarning,
      al_timestamp = frame_ts,
      al_person_track_id = det_track_id person,
      al_forklift_track_id = sz_forklift_track_id zone,
      al_person_box = det_box person,
      al_forklift_box = sz_forklift_box zone,
      al_safety_zone_box = sz_zone_box zone,
      al_distance_px = f_zero\<rparr>"

fun persons_loop ::
  "string \<Rightarrow> time_ns \<Rightarrow> safety_zone \<Rightarrow> detection list \<Rightarrow> alert list \<Rightarrow> alert list"
where
  "persons_loop cam ts zone [] alerts = alerts"
| "persons_loop cam ts zone (p # ps) alerts =
     (if \<not> sz_overlaps zone (det_box p) then persons_loop cam ts zone ps alerts
      else persons_loop cam ts zone ps (alerts @ [make_alert cam ts zone p]))"

fun zone_alerts_loop ::
  "string \<Rightarrow> time_ns \<Rightarrow> detection list \<Rightarrow> safety_zone list \<Rightarrow> alert list \<Rightarrow> alert list"
where
  "zone_alerts_loop cam ts persons [] alerts = alerts"
| "zone_alerts_loop cam ts persons (z # zs) alerts =
     zone_alerts_loop cam ts persons zs (persons_loop cam ts z persons alerts)"

definition evaluate ::
  "safety_zone_config \<Rightarrow> string \<Rightarrow> detection list \<Rightarrow> time_ns \<Rightarrow> alert list"
where
  "evaluate cfg camera_id detections frame_ts =
     (let split = split_by_class detections [] [];
          zones = zones_for cfg (snd split)
      in zone_alerts_loop camera_id frame_ts (fst split) zones [])"

subsection \<open>The loops as comprehensions\<close>

lemma zones_loop_eq: "zones_loop cfg fs out = out @ map (zone_for_forklift cfg) fs"
  by (induction fs arbitrary: out) auto

lemma zones_for_eq: "zones_for cfg fs = map (zone_for_forklift cfg) fs"
  by (simp add: zones_for_def zones_loop_eq)

definition persons_of :: "detection list \<Rightarrow> detection list" where
  "persons_of ds = filter (\<lambda>d. det_cls d = kPerson) ds"

definition forklifts_of :: "detection list \<Rightarrow> detection list" where
  "forklifts_of ds = filter (\<lambda>d. det_cls d = kForklift) ds"

lemma split_by_class_eq:
  "split_by_class ds ps fs = (ps @ persons_of ds, fs @ forklifts_of ds)"
  by (induction ds arbitrary: ps fs)
    (auto simp: persons_of_def forklifts_of_def split: object_class.splits)

lemma persons_loop_eq:
  "persons_loop cam ts z ps as =
     as @ map (make_alert cam ts z) (filter (\<lambda>p. sz_overlaps z (det_box p)) ps)"
  by (induction ps arbitrary: as) auto

lemma zone_alerts_loop_eq:
  "zone_alerts_loop cam ts ps zs as =
     as @ concat (map (\<lambda>z. map (make_alert cam ts z) (filter (\<lambda>p. sz_overlaps z (det_box p)) ps)) zs)"
  by (induction zs arbitrary: as) (auto simp: persons_loop_eq)

text \<open>
  C8: \<^verbatim>\<open>evaluate\<close> returns exactly one alert per pair of a forklift and a person whose box overlaps
  the forklift's zone: forklifts in detection order, for each its persons in detection order, and
  objects of other classes never take part.
\<close>

theorem evaluate_eq_pairs:
  "evaluate cfg cam ds ts =
     concat (map (\<lambda>f. map (make_alert cam ts (zone_for_forklift cfg f))
        (filter (\<lambda>p. bb_intersects (sz_zone_box (zone_for_forklift cfg f)) (det_box p))
           (filter (\<lambda>d. det_cls d = kPerson) ds)))
       (filter (\<lambda>d. det_cls d = kForklift) ds))"
  by (simp add: evaluate_def Let_def split_by_class_eq zones_for_eq zone_alerts_loop_eq comp_def
      sz_overlaps_def persons_of_def forklifts_of_def)

lemma set_evaluate:
  "set (evaluate cfg cam ds ts) =
     {make_alert cam ts (zone_for_forklift cfg f) p | f p.
        f \<in> set ds \<and> det_cls f = kForklift \<and> p \<in> set ds \<and> det_cls p = kPerson \<and>
        sz_overlaps (zone_for_forklift cfg f) (det_box p)}"
  by (auto simp: evaluate_def Let_def split_by_class_eq zones_for_eq zone_alerts_loop_eq
      persons_of_def forklifts_of_def)

subsection \<open>Alert identifiers\<close>

lemma colon_letter_inject:
  assumes "int_chars t" "int_chars t'"
  shows "s @ CHR '':'' # c # t = s' @ CHR '':'' # c # t' \<longleftrightarrow> s = s' \<and> t = t'"
proof (cases "c = CHR '':''")
  case True
  have "(s @ [CHR '':'']) @ CHR '':'' # t = (s' @ [CHR '':'']) @ CHR '':'' # t' \<longleftrightarrow> s = s' \<and> t = t'"
    using append_sep_inject [of "CHR '':''" t t' "s @ [CHR '':'']" "s' @ [CHR '':'']"] assms
    by (simp add: int_chars_no_colon)
  with True show ?thesis by simp
next
  case False
  then show ?thesis
    using append_sep_inject [of "CHR '':''" "c # t" "c # t'" s s'] assms
    by (simp add: int_chars_no_colon)
qed

text \<open>
  C10: An alert id determines the camera, both track ids and the timestamp it was made from, for
  any camera id whatever characters it holds.
\<close>

theorem make_alert_id_inject:
  "make_alert_id c f p t = make_alert_id c' f' p' t' \<longleftrightarrow> c = c' \<and> f = f' \<and> p = p' \<and> t = t'"
proof -
  let ?L = "\<lambda>c f. c @ CHR '':'' # CHR ''F'' # dec_int f"
  let ?M = "\<lambda>c f p. ?L c f @ CHR '':'' # CHR ''P'' # dec_int p"
  have "make_alert_id c f p t = make_alert_id c' f' p' t' \<longleftrightarrow>
      ?M c f p @ CHR '':'' # dec_int t = ?M c' f' p' @ CHR '':'' # dec_int t'"
    by (simp add: make_alert_id_def)
  also have "\<dots> \<longleftrightarrow> ?M c f p = ?M c' f' p' \<and> t = t'"
    by (subst append_sep_inject) (simp_all add: int_chars_no_colon dec_int_chars dec_int_inject)
  also have "?M c f p = ?M c' f' p' \<longleftrightarrow> ?L c f = ?L c' f' \<and> p = p'"
    by (subst colon_letter_inject) (simp_all add: dec_int_chars dec_int_inject)
  also have "?L c f = ?L c' f' \<longleftrightarrow> c = c' \<and> f = f'"
    by (subst colon_letter_inject) (simp_all add: dec_int_chars dec_int_inject)
  finally show ?thesis by blast
qed

subsection \<open>The zone test in integers\<close>

text \<open>The padding a configuration gives a box, and the grid of a box with padding.\<close>

definition zone_padding :: "safety_zone_config \<Rightarrow> bounding_box \<Rightarrow> f32 \<times> f32" where
  "zone_padding cfg b =
     (if szc_mode cfg = kRelativeToBox
      then (bb_width b * szc_pad_ratio cfg, bb_height b * szc_pad_ratio cfg)
      else (szc_pad_x_px cfg, szc_pad_y_px cfg))"

definition scaled_box_ok :: "int \<Rightarrow> int \<Rightarrow> int \<Rightarrow> int \<Rightarrow> int \<Rightarrow> bool" where
  "scaled_box_ok k x y w h = pixel_box_ok (x * k) (y * k) (w * k) (h * k)"

lemma frame_scale_unscale: "frame_scale (n * 2 ^ m) \<Longrightarrow> frame_scale n"
proof -
  assume "frame_scale (n * 2 ^ m)"
  then have "\<bar>n\<bar> * 2 ^ m \<le> 2 ^ 22" by (simp add: frame_scale_def abs_mult)
  moreover have "\<bar>n\<bar> * 1 \<le> \<bar>n\<bar> * 2 ^ m" by (rule mult_left_mono) simp_all
  ultimately show "frame_scale n" by (simp add: frame_scale_def)
qed

lemma scaled_box_okD: "scaled_box_ok (2 ^ m) x y w h \<Longrightarrow> pixel_box_ok x y w h"
  unfolding scaled_box_ok_def pixel_box_ok_def
  by (auto intro: frame_scale_unscale simp: zero_less_mult_iff)

text \<open>\<open>pads_on_grid cfg e b p q\<close>: the paddings of \<open>b\<close> are \<open>p\<close> and \<open>q\<close> steps of \<open>2^(e-149)\<close> pixels.\<close>

definition pads_on_grid :: "safety_zone_config \<Rightarrow> nat \<Rightarrow> bounding_box \<Rightarrow> int \<Rightarrow> int \<Rightarrow> bool" where
  "pads_on_grid cfg e b p q =
     (e \<le> 149 \<and> zone_padding cfg b = (grid e p, grid e q) \<and>
      0 \<le> p \<and> frame_scale p \<and> 0 \<le> q \<and> frame_scale q)"

text \<open>
  C9: For whole-pixel boxes and a padding on a binary grid the zone test is exact: a person
  overlaps the zone if and only if, in grid steps, it reaches within the padding of the forklift
  on all four sides, where the clamp of the zone at zero adds its amount on the far side.
\<close>

theorem zone_overlap_exact:
  assumes "det_box f = pixel_box x y w h" "pads_on_grid cfg e (det_box f) p q"
    and "scaled_box_ok (2 ^ (149 - e)) x y w h" "scaled_box_ok (2 ^ (149 - e)) x' y' w' h'"
  defines "k \<equiv> 2 ^ (149 - e)"
  shows "sz_overlaps (zone_for_forklift cfg f) (pixel_box x' y' w' h') \<longleftrightarrow>
    x' * k < (x + w) * k + p + max 0 (p - x * k) \<and> max 0 (x * k - p) < (x' + w') * k \<and>
    y' * k < (y + h) * k + q + max 0 (q - y * k) \<and> max 0 (y * k - q) < (y' + h') * k"
proof -
  have e: "e \<le> 149" and pads: "zone_padding cfg (pixel_box x y w h) = (grid e p, grid e q)"
    and pq: "0 \<le> p" "frame_scale p" "0 \<le> q" "frame_scale q"
    using assms by (auto simp: pads_on_grid_def)
  have zone: "sz_zone_box (zone_for_forklift cfg f) =
      bb_expanded (pixel_box x y w h) (grid e p) (grid e q)"
    using pads assms(1) by (simp add: zone_for_forklift_def zone_padding_def Let_def split: if_splits)
  have "bb_intersects (bb_expanded (pixel_box x y w h) (grid e p) (grid e q)) (pixel_box x' y' w' h') \<longleftrightarrow>
    x' * k < x * k + w * k + p + max 0 (p - x * k) \<and> max 0 (x * k - p) < x' * k + w' * k \<and>
    y' * k < y * k + h * k + q + max 0 (q - y * k) \<and> max 0 (y * k - q) < y' * k + h' * k"
    unfolding pixel_box_grid [OF e] k_def
    by (rule expanded_intersects_grid) (use assms(3,4) pq e in \<open>simp_all add: scaled_box_ok_def\<close>)
  then show ?thesis by (simp add: sz_overlaps_def zone distrib_right)
qed

text \<open>The default configuration pads by half the box, which is on the half-pixel grid.\<close>

lemma default_ratio_half: "szc_pad_ratio default_safety_zone_config = f_half"
  unfolding default_safety_zone_config_def f_half_def by code_simp

lemma default_pads_on_grid:
  assumes "scaled_box_ok 2 x y w h"
  shows "pads_on_grid default_safety_zone_config 148 (pixel_box x y w h) w h"
proof -
  have "zone_padding default_safety_zone_config b = (bb_width b * f_half, bb_height b * f_half)" for b
    using default_ratio_half by (simp add: zone_padding_def) (simp add: default_safety_zone_config_def)
  moreover have "px w * f_half = grid 148 w" "px h * f_half = grid 148 h"
    unfolding grid_def
    by (rule times_px_half; use assms in \<open>auto simp: scaled_box_ok_def pixel_box_ok_defs\<close>)+
  ultimately show ?thesis
    using assms by (auto simp: pads_on_grid_def scaled_box_ok_def pixel_box_ok_defs)
qed

lemma zone_overlap_contact:
  assumes "det_box f = pixel_box x y w h" "pads_on_grid cfg e (det_box f) p q"
    and ok: "scaled_box_ok (2 ^ (149 - e)) x y w h" "scaled_box_ok (2 ^ (149 - e)) x' y' w' h'"
    and i: "0 \<le> i" "x \<le> i" "i < x + w" "x' \<le> i" "i < x' + w'"
    and j: "0 \<le> j" "y \<le> j" "j < y + h" "y' \<le> j" "j < y' + h'"
  shows "sz_overlaps (zone_for_forklift cfg f) (pixel_box x' y' w' h')"
proof -
  let ?k = "2 ^ (149 - e) :: int"
  have pq: "0 \<le> p" "0 \<le> q" using assms(2) by (auto simp: pads_on_grid_def)
  have side: "a' * ?k < (a + l) * ?k + r + max 0 (r - a * ?k)" "max 0 (a * ?k - r) < (a' + l') * ?k"
    if "0 \<le> r" "0 \<le> n" "a \<le> n" "n < a + l" "a' \<le> n" "n < a' + l'" for a l a' l' n r :: int
  proof -
    have "a' * ?k < (a + l) * ?k" "a * ?k < (a' + l') * ?k" "0 < (a' + l') * ?k"
      using that by simp_all
    then show "a' * ?k < (a + l) * ?k + r + max 0 (r - a * ?k)" "max 0 (a * ?k - r) < (a' + l') * ?k"
      using \<open>0 \<le> r\<close> by linarith+
  qed
  show ?thesis
    using zone_overlap_exact [OF assms(1,2) ok] side [OF pq(1) i] side [OF pq(2) j] by blast
qed

lemma contact_alert:
  assumes mem: "f \<in> set ds" "det_cls f = kForklift" "m \<in> set ds" "det_cls m = kPerson"
    and box: "det_box f = pixel_box x y w h" "det_box m = pixel_box x' y' w' h'"
    and pad: "pads_on_grid cfg e (det_box f) p q"
    and ok: "scaled_box_ok (2 ^ (149 - e)) x y w h" "scaled_box_ok (2 ^ (149 - e)) x' y' w' h'"
    and shared: "(i, j) \<in> pixels (det_box f) \<inter> pixels (det_box m)" "0 \<le> i" "0 \<le> j"
  shows "\<exists>a \<in> set (evaluate cfg cam ds ts).
    al_camera_id a = cam \<and> al_timestamp a = ts \<and>
    al_forklift_track_id a = det_track_id f \<and> al_person_track_id a = det_track_id m \<and>
    al_forklift_box a = det_box f \<and> al_person_box a = det_box m"
proof -
  have "x \<le> i" "i < x + w" "x' \<le> i" "i < x' + w'" "y \<le> j" "j < y + h" "y' \<le> j" "j < y' + h'"
    using shared(1) pixels_pixel_box [OF scaled_box_okD [OF ok(1)]]
      pixels_pixel_box [OF scaled_box_okD [OF ok(2)]] by (auto simp: box)
  then have "sz_overlaps (zone_for_forklift cfg f) (det_box m)"
    unfolding box(2)
    by (intro zone_overlap_contact [OF box(1) pad ok, of i j] shared(2,3))
  then have "make_alert cam ts (zone_for_forklift cfg f) m \<in> set (evaluate cfg cam ds ts)"
    using mem by (auto simp: set_evaluate)
  then show ?thesis
    by (rule bexI [rotated]) (simp add: make_alert_def zone_for_forklift_def Let_def)
qed


text \<open>A forklift and a person of the sources' own test, with the default configuration.\<close>

definition test_detection :: "object_class \<Rightarrow> int \<Rightarrow> int \<Rightarrow> int \<Rightarrow> int \<Rightarrow> int \<Rightarrow> detection" where
  "test_detection c x y w h i =
     \<lparr>det_box = pixel_box x y w h, det_cls = c, det_confidence = f32_lit 9 10, det_track_id = i\<rparr>"

lemma test_detection_sel [simp]:
  "det_box (test_detection c x y w h i) = pixel_box x y w h"
  "det_cls (test_detection c x y w h i) = c"
  "det_track_id (test_detection c x y w h i) = i"
  by (simp_all add: test_detection_def)

theorem zone_overlap_exact_witness:
  "sz_overlaps (zone_for_forklift default_safety_zone_config (test_detection kForklift 100 100 100 100 1))
     (pixel_box 60 60 30 30) \<and>
   \<not> sz_overlaps (zone_for_forklift default_safety_zone_config (test_detection kForklift 100 100 100 100 1))
     (pixel_box 250 60 30 30)"
proof -
  let ?f = "test_detection kForklift 100 100 100 100 1"
  have pads: "pads_on_grid default_safety_zone_config 148 (det_box ?f) 100 100"
    using default_pads_on_grid [of 100 100 100 100] by (simp add: scaled_box_ok_def pixel_box_ok_defs)
  show ?thesis
    using zone_overlap_exact [OF _ pads, of 100 100 100 100 60 60 30 30]
      zone_overlap_exact [OF _ pads, of 100 100 100 100 250 60 30 30]
    by (simp add: scaled_box_ok_def pixel_box_ok_defs)
qed


end
