(* ===== verification/Video_Source.thy ===== *)
theory Video_Source
  imports Float32 "HOL-Library.Word"
begin

text \<open>
  Frames and the two adapters of the \<^verbatim>\<open>VideoSource\<close> port: \<^verbatim>\<open>RtspCameraSource\<close> and
  \<^verbatim>\<open>VideoFileSource\<close> (\<^verbatim>\<open>src/infrastructure/video\<close>).  \<^verbatim>\<open>cv::VideoCapture\<close> and \<^verbatim>\<open>cv::Mat\<close> are
  OpenCV's: they enter as a record of functions, about which nothing is assumed.  The contract of
  the port is the locale \<open>video_source\<close>; both adapters are interpretations of it.
\<close>

subsection \<open>Frames and the OpenCV parameters\<close>

record 'm frame =
  fr_camera_id :: string
  fr_sequence :: "64 word"
  fr_captured_at :: int
  fr_image :: 'm

datatype cap_prop = CAP_PROP_BUFFERSIZE | CAP_PROP_POS_FRAMES

text \<open>
  A \<^verbatim>\<open>double\<close> as \<^verbatim>\<open>cap_.get(CAP_PROP_FPS)\<close> may return it: a NaN, an infinity with its sign, or a
  finite value, which is a fraction with a positive denominator.
\<close>

datatype double = Double_NaN | Double_Inf bool | Double_Frac int int

record ('c, 'm) capture_api =
  vc_open :: "string \<Rightarrow> 'c \<Rightarrow> 'c"
  vc_open_ffmpeg :: "string \<Rightarrow> 'c \<Rightarrow> 'c"
  vc_is_opened :: "'c \<Rightarrow> bool"
  vc_release :: "'c \<Rightarrow> 'c"
  vc_set :: "cap_prop \<Rightarrow> int \<Rightarrow> 'c \<Rightarrow> 'c"
  vc_get_fps :: "'c \<Rightarrow> double"
  vc_read :: "'c \<Rightarrow> (bool \<times> 'm) \<times> 'c"
  vc_mat_empty :: "'m \<Rightarrow> bool"

definition frame_empty :: "('m \<Rightarrow> bool) \<Rightarrow> 'm frame \<Rightarrow> bool" where
  "frame_empty mat_empty f = mat_empty (fr_image f)"

text \<open>\<^verbatim>\<open>!cap_.read(mat) || mat.empty()\<close>, with the capture after the read.\<close>

definition vc_read_frame :: "('c, 'm) capture_api \<Rightarrow> 'c \<Rightarrow> 'm option \<times> 'c" where
  "vc_read_frame api c =
     (case vc_read api c of ((got, mat), c') \<Rightarrow>
        (if \<not> got \<or> vc_mat_empty api mat then None else Some mat, c'))"

lemma vc_read_frame_not_empty:
  "vc_read_frame api c = (Some mat, c') \<Longrightarrow> \<not> vc_mat_empty api mat"
  by (auto simp: vc_read_frame_def split: prod.splits if_splits)

subsection \<open>RtspCameraSource\<close>

record rtsp_config =
  rc_camera_id :: string
  rc_rtsp_url :: string
  rc_reconnect_backoff_ms :: int
  rc_max_reconnect_backoff_ms :: int
  rc_read_timeout_ms :: int

definition default_rtsp_config :: rtsp_config where
  "default_rtsp_config =
     \<lparr>rc_camera_id = [], rc_rtsp_url = [], rc_reconnect_backoff_ms = 1000,
      rc_max_reconnect_backoff_ms = 15000, rc_read_timeout_ms = 5000\<rparr>"

record 'c rtsp_source =
  rs_cfg :: rtsp_config
  rs_cap :: 'c
  rs_sequence :: "64 word"

definition rtsp_new :: "rtsp_config \<Rightarrow> 'c \<Rightarrow> 'c rtsp_source" where
  "rtsp_new cfg cap0 = \<lparr>rs_cfg = cfg, rs_cap = cap0, rs_sequence = 0\<rparr>"

definition rtsp_open :: "('c, 'm) capture_api \<Rightarrow> 'c rtsp_source \<Rightarrow> void_result \<times> 'c rtsp_source" where
  "rtsp_open api s =
     (let cap = vc_open_ffmpeg api (rc_rtsp_url (rs_cfg s)) (rs_cap s)
      in if \<not> vc_is_opened api cap
         then (vr_failure (mk_error 1 (''failed to open RTSP: '' @ rc_rtsp_url (rs_cfg s))),
               s\<lparr>rs_cap := cap\<rparr>)
         else (vr_success, s\<lparr>rs_cap := vc_set api CAP_PROP_BUFFERSIZE 1 cap\<rparr>))"

definition rtsp_close :: "('c, 'm) capture_api \<Rightarrow> 'c rtsp_source \<Rightarrow> 'c rtsp_source" where
  "rtsp_close api s =
     (if vc_is_opened api (rs_cap s) then s\<lparr>rs_cap := vc_release api (rs_cap s)\<rparr> else s)"

definition rtsp_is_open :: "('c, 'm) capture_api \<Rightarrow> 'c rtsp_source \<Rightarrow> bool" where
  "rtsp_is_open api s = vc_is_opened api (rs_cap s)"

text \<open>The clock reading of the call is an argument.\<close>

definition rtsp_read_frame ::
  "('c, 'm) capture_api \<Rightarrow> int \<Rightarrow> 'c rtsp_source \<Rightarrow> 'm frame option \<times> 'c rtsp_source"
where
  "rtsp_read_frame api now s =
     (if \<not> vc_is_opened api (rs_cap s) then (None, s)
      else case vc_read_frame api (rs_cap s) of
          (None, cap) \<Rightarrow> (None, s\<lparr>rs_cap := cap\<rparr>)
        | (Some mat, cap) \<Rightarrow>
            (let n = rs_sequence s + 1
             in (Some \<lparr>fr_camera_id = rc_camera_id (rs_cfg s), fr_sequence = n,
                       fr_captured_at = now, fr_image = mat\<rparr>,
                 s\<lparr>rs_cap := cap, rs_sequence := n\<rparr>)))"

subsection \<open>VideoFileSource\<close>

record file_config =
  fc_camera_id :: string
  fc_file_path :: string
  fc_loop :: bool
  fc_realtime_pacing :: bool

definition default_file_config :: file_config where
  "default_file_config =
     \<lparr>fc_camera_id = [], fc_file_path = [], fc_loop = True, fc_realtime_pacing = True\<rparr>"

record 'c file_source =
  fs_cfg :: file_config
  fs_cap :: 'c
  fs_sequence :: "64 word"
  fs_frame_interval_ms :: int
  fs_next_frame_at :: int

definition file_new :: "file_config \<Rightarrow> 'c \<Rightarrow> 'c file_source" where
  "file_new cfg cap0 =
     \<lparr>fs_cfg = cfg, fs_cap = cap0, fs_sequence = 0, fs_frame_interval_ms = 0, fs_next_frame_at = 0\<rparr>"

text \<open>The guard on bogus metadata: \<^verbatim>\<open>if (!(fps > 0.0) || fps > 240.0) fps = 25.0\<close>.\<close>

definition fps_guard :: "double \<Rightarrow> int \<times> int" where
  "fps_guard fps =
     (case fps of
        Double_Frac n d \<Rightarrow> if \<not> 0 < n \<or> 240 * d < n then (25, 1) else (n, d)
      | _ \<Rightarrow> (25, 1))"

text \<open>
  \<^verbatim>\<open>static_cast<long>(1000.0 / fps)\<close> for \<open>fps = n / d\<close>: the quotient, which is above one, rounded to
  the 53 bits of a \<^verbatim>\<open>double\<close> and truncated; the cast of a value outside \<^verbatim>\<open>long\<close> is undefined.
\<close>

definition double_quot_trunc :: "int \<Rightarrow> int \<Rightarrow> int" where
  "double_quot_trunc a b =
     (let bits = bit_length (a div b)
      in if bits \<le> 53 then rne_div (a * 2 ^ (53 - bits)) b div 2 ^ (53 - bits)
         else rne_div a (b * 2 ^ (bits - 53)) * 2 ^ (bits - 53))"

definition frame_interval_of :: "double \<Rightarrow> int run" where
  "frame_interval_of fps =
     (case fps_guard fps of (n, d) \<Rightarrow>
        let q = double_quot_trunc (1000 * d) n
        in if q < 2 ^ 63 then Inr q else Inl (Undefined_Behaviour ''double out of range of long''))"

definition file_open ::
  "('c, 'm) capture_api \<Rightarrow> int \<Rightarrow> 'c file_source \<Rightarrow> (void_result \<times> 'c file_source) run"
where
  "file_open api now s =
     (let cap = vc_open api (fc_file_path (fs_cfg s)) (fs_cap s)
      in if \<not> vc_is_opened api cap
         then Inr (vr_failure (mk_error 1 (''failed to open video file: '' @ fc_file_path (fs_cfg s))),
                   s\<lparr>fs_cap := cap\<rparr>)
         else case frame_interval_of (vc_get_fps api cap) of
             Inl e \<Rightarrow> Inl e
           | Inr ms \<Rightarrow> Inr (vr_success,
                 s\<lparr>fs_cap := cap, fs_frame_interval_ms := ms, fs_next_frame_at := now\<rparr>))"

definition file_close :: "('c, 'm) capture_api \<Rightarrow> 'c file_source \<Rightarrow> 'c file_source" where
  "file_close api s =
     (if vc_is_opened api (fs_cap s) then s\<lparr>fs_cap := vc_release api (fs_cap s)\<rparr> else s)"

definition file_is_open :: "('c, 'm) capture_api \<Rightarrow> 'c file_source \<Rightarrow> bool" where
  "file_is_open api s = vc_is_opened api (fs_cap s)"

text \<open>\<open>pace\<close> at time \<open>now\<close>: how long it sleeps, in nanoseconds, and the new schedule.\<close>

definition file_pace :: "int \<Rightarrow> 'c file_source \<Rightarrow> int \<times> 'c file_source" where
  "file_pace now s =
     (if \<not> fc_realtime_pacing (fs_cfg s) \<or> fs_frame_interval_ms s \<le> 0 then (0, s)
      else let step = fs_frame_interval_ms s * 1000000
           in if now < fs_next_frame_at s
              then (fs_next_frame_at s - now, s\<lparr>fs_next_frame_at := fs_next_frame_at s + step\<rparr>)
              else (0, s\<lparr>fs_next_frame_at := now + step\<rparr>))"

text \<open>
  \<open>read_frame\<close>, with the two clock readings of the call, the one of \<open>pace\<close> and the one that stamps
  the frame.
\<close>

definition file_stamp ::
  "int \<Rightarrow> 'm \<Rightarrow> 'c \<Rightarrow> 'c file_source \<Rightarrow> 'm frame option \<times> 'c file_source"
where
  "file_stamp now mat cap s =
     (let n = fs_sequence s + 1
      in (Some \<lparr>fr_camera_id = fc_camera_id (fs_cfg s), fr_sequence = n,
                fr_captured_at = now, fr_image = mat\<rparr>,
          s\<lparr>fs_cap := cap, fs_sequence := n\<rparr>))"

definition file_read_frame ::
  "('c, 'm) capture_api \<Rightarrow> int \<Rightarrow> int \<Rightarrow> 'c file_source \<Rightarrow> 'm frame option \<times> 'c file_source"
where
  "file_read_frame api now_pace now s =
     (if \<not> vc_is_opened api (fs_cap s) then (None, s)
      else let s1 = snd (file_pace now_pace s)
           in case vc_read_frame api (fs_cap s1) of
               (Some mat, cap) \<Rightarrow> file_stamp now mat cap s1
             | (None, cap) \<Rightarrow>
                 (if \<not> fc_loop (fs_cfg s1) then (None, s1\<lparr>fs_cap := cap\<rparr>)
                  else case vc_read_frame api (vc_set api CAP_PROP_POS_FRAMES 0 cap) of
                      (None, cap') \<Rightarrow> (None, s1\<lparr>fs_cap := cap'\<rparr>)
                    | (Some mat, cap') \<Rightarrow> file_stamp now mat cap' s1))"

subsection \<open>The port and its contract\<close>

text \<open>
  The abstract class \<^verbatim>\<open>VideoSource\<close>: an adapter is a record of its methods.  A \<open>read_frame\<close> gets
  the clock readings it may make.
\<close>

record ('s, 'm) source_ops =
  so_open :: "int \<Rightarrow> 's \<Rightarrow> (void_result \<times> 's) run"
  so_close :: "'s \<Rightarrow> 's"
  so_is_open :: "'s \<Rightarrow> bool"
  so_read :: "int \<times> int \<Rightarrow> 's \<Rightarrow> 'm frame option \<times> 's"
  so_camera_id :: "'s \<Rightarrow> string"

definition rtsp_ops :: "('c, 'm) capture_api \<Rightarrow> ('c rtsp_source, 'm) source_ops" where
  "rtsp_ops api =
     \<lparr>so_open = (\<lambda>now s. Inr (rtsp_open api s)), so_close = rtsp_close api,
      so_is_open = rtsp_is_open api, so_read = (\<lambda>t. rtsp_read_frame api (snd t)),
      so_camera_id = (\<lambda>s. rc_camera_id (rs_cfg s))\<rparr>"

definition file_ops :: "('c, 'm) capture_api \<Rightarrow> ('c file_source, 'm) source_ops" where
  "file_ops api =
     \<lparr>so_open = file_open api, so_close = file_close api,
      so_is_open = file_is_open api, so_read = (\<lambda>t. file_read_frame api (fst t) (snd t)),
      so_camera_id = (\<lambda>s. fc_camera_id (fs_cfg s))\<rparr>"

text \<open>
  What the capture loop relies on: a closed source yields nothing, a frame carries the camera id,
  the next sequence number, the clock reading of the call and a non-empty image, and nothing but a
  frame advances the sequence.
\<close>

locale video_source =
  fixes ops :: "('s, 'm) source_ops"
    and mat_empty :: "'m \<Rightarrow> bool"
    and seq_of :: "'s \<Rightarrow> 64 word"
  assumes read_closed: "\<not> so_is_open ops s \<Longrightarrow> so_read ops t s = (None, s)"
    and read_frame: "so_read ops t s = (Some f, s') \<Longrightarrow>
      fr_camera_id f = so_camera_id ops s \<and> fr_sequence f = seq_of s + 1 \<and>
      fr_captured_at f = snd t \<and> \<not> frame_empty mat_empty f \<and>
      seq_of s' = fr_sequence f \<and> so_camera_id ops s' = so_camera_id ops s"
    and read_none: "so_read ops t s = (None, s') \<Longrightarrow>
      seq_of s' = seq_of s \<and> so_camera_id ops s' = so_camera_id ops s"
    and open_keeps: "so_open ops now s = Inr (r, s') \<Longrightarrow>
      seq_of s' = seq_of s \<and> so_camera_id ops s' = so_camera_id ops s \<and> (vr_ok r \<or> err_code (vr_err r) = 1)"
    and close_keeps: "seq_of (so_close ops s) = seq_of s"
      "so_camera_id ops (so_close ops s) = so_camera_id ops s"
begin

lemma read_seq:
  "so_read ops t s = (r, s') \<Longrightarrow> seq_of s' = (case r of None \<Rightarrow> seq_of s | Some f \<Rightarrow> seq_of s + 1)"
  using read_frame [of t s _ s'] read_none [of t s s'] by (cases r) auto

lemma read_some_open: "so_read ops t s = (Some f, s') \<Longrightarrow> so_is_open ops s"
  using read_closed [of s t] by auto

end

interpretation rtsp: video_source "rtsp_ops api" "vc_mat_empty api" rs_sequence
  for api :: "('c, 'm) capture_api"
  by unfold_locales
    (auto simp: rtsp_ops_def rtsp_read_frame_def rtsp_open_def rtsp_close_def rtsp_is_open_def
      frame_empty_def Let_def mk_error_def vr_failure_def vr_success_def vr_ok_def
      split: if_splits option.splits prod.splits dest: vc_read_frame_not_empty)

lemma file_pace_keeps [simp]:
  "fs_sequence (snd (file_pace now s)) = fs_sequence s" "fs_cfg (snd (file_pace now s)) = fs_cfg s"
  "fs_cap (snd (file_pace now s)) = fs_cap s"
  "fs_frame_interval_ms (snd (file_pace now s)) = fs_frame_interval_ms s"
  by (simp_all add: file_pace_def Let_def)

interpretation video_file: video_source "file_ops api" "vc_mat_empty api" fs_sequence
  for api :: "('c, 'm) capture_api"
  by unfold_locales
    (auto simp: file_ops_def file_read_frame_def file_stamp_def file_open_def file_close_def
      file_is_open_def frame_empty_def Let_def mk_error_def vr_failure_def vr_success_def vr_ok_def
      split: if_splits option.splits prod.splits sum.splits dest: vc_read_frame_not_empty)

subsection \<open>Pacing and frame interval\<close>

text \<open>When the successive calls of \<open>pace\<close>, made at the given times, return.\<close>

fun emission_times :: "int list \<Rightarrow> 'c file_source \<Rightarrow> int list" where
  "emission_times [] s = []"
| "emission_times (now # later) s =
     (case file_pace now s of (sleep, s') \<Rightarrow> (now + sleep) # emission_times later s')"

definition paced :: "'c file_source \<Rightarrow> bool" where
  "paced s = (fc_realtime_pacing (fs_cfg s) \<and> 0 < fs_frame_interval_ms s)"

lemma emission_times_paced:
  "paced s \<Longrightarrow> emission_times (now # later) s =
     max now (fs_next_frame_at s) #
       emission_times later (s\<lparr>fs_next_frame_at :=
         max now (fs_next_frame_at s) + fs_frame_interval_ms s * 1000000\<rparr>)"
  by (auto simp: file_pace_def paced_def max_def Let_def)

lemma paced_update [simp]: "paced (s\<lparr>fs_next_frame_at := t\<rparr>) = paced s"
  by (simp add: paced_def)

lemma length_emission_times [simp]: "length (emission_times ts s) = length ts"
  by (induction ts arbitrary: s) (auto split: prod.splits)

lemma emission_lower:
  "paced s \<Longrightarrow> j < length ts \<Longrightarrow>
   fs_next_frame_at s + int j * (fs_frame_interval_ms s * 1000000) \<le> emission_times ts s ! j"
proof (induction ts arbitrary: s j)
  case (Cons now later)
  show ?case
  proof (cases j)
    case (Suc i)
    let ?step = "fs_frame_interval_ms s * 1000000"
    let ?s = "s\<lparr>fs_next_frame_at := max now (fs_next_frame_at s) + ?step\<rparr>"
    have "fs_next_frame_at ?s + int i * ?step \<le> emission_times later ?s ! i"
      using Cons.IH [of ?s i] Cons.prems Suc by simp
    with Suc Cons.prems(1) show ?thesis
      by (simp add: emission_times_paced distrib_right del: emission_times.simps)
  qed (simp add: emission_times_paced Cons.prems del: emission_times.simps)
qed simp


definition paced_demo :: "unit file_source" where
  "paced_demo =
     (file_new default_file_config ())\<lparr>fs_frame_interval_ms := 40, fs_next_frame_at := 5\<rparr>"


lemma rne_div_bounds:
  assumes "0 < d" "0 \<le> a"
  shows "a div d \<le> rne_div a d" "rne_div a d \<le> a div d + 1"
  by (simp_all add: rne_div_def Let_def)

lemma double_quot_trunc_bounds:
  assumes "0 < b" "0 \<le> a" "bit_length (a div b) \<le> 53"
  shows "a div b \<le> double_quot_trunc a b" "double_quot_trunc a b \<le> a div b + 1"
proof -
  let ?k = "53 - bit_length (a div b)" and ?q = "a div b"
  let ?r = "rne_div (a * 2 ^ ?k) b"
  have eq: "double_quot_trunc a b = ?r div 2 ^ ?k"
    using assms(3) by (simp add: double_quot_trunc_def Let_def)
  have qb: "?q * b \<le> a" "a \<le> (?q + 1) * b"
    using Float32.mult_le_div [OF assms(1), of ?q a] Float32.div_lt_mult [OF assms(1), of a "?q + 1"] by simp_all
  have "?q * 2 ^ ?k * b \<le> a * 2 ^ ?k"
    using mult_right_mono [OF qb(1), of "2 ^ ?k"] by (simp add: ac_simps)
  then have "?q * 2 ^ ?k \<le> ?r" by (rule rne_div_ge [OF assms(1)])
  then have "?q * 2 ^ ?k div 2 ^ ?k \<le> ?r div 2 ^ ?k" by (intro zdiv_mono1) simp_all
  then show "?q \<le> double_quot_trunc a b" by (simp add: eq)
  have "a * 2 ^ ?k \<le> (?q + 1) * 2 ^ ?k * b"
    using mult_right_mono [OF qb(2), of "2 ^ ?k"] by (simp add: ac_simps)
  then have "?r \<le> (?q + 1) * 2 ^ ?k" by (rule rne_div_le [OF assms(1)])
  then have "?r div 2 ^ ?k \<le> (?q + 1) * 2 ^ ?k div 2 ^ ?k" by (intro zdiv_mono1) simp_all
  then show "double_quot_trunc a b \<le> ?q + 1" by (simp add: eq)
qed

text \<open>
  The frame interval of a file is safe for any frame-rate metadata that is not absurdly small:
  a NaN, an infinity, a rate that is not positive or is above 240 gives the 40 ms of 25 frames per
  second, any other rate its period in milliseconds, within one, and never less than 4; but a
  positive rate so small that the period does not fit a \<^verbatim>\<open>long\<close> is undefined behaviour.
\<close>

theorem frame_interval_safe:
  "(fps_guard fps = (25, 1) \<longrightarrow> frame_interval_of fps = Inr 40) \<and>
   (\<forall>n d. fps = Double_Frac n d \<and> 0 < d \<and> 0 < n \<and> n \<le> 240 * d \<and> 1000 * d div n < 2 ^ 53 \<longrightarrow>
      (\<exists>ms. frame_interval_of fps = Inr ms \<and> 4 \<le> ms \<and>
         1000 * d div n \<le> ms \<and> ms \<le> 1000 * d div n + 1)) \<and>
   (\<exists>e. frame_interval_of (Double_Frac 1 (2 ^ 60)) = Inl (Undefined_Behaviour e))"
proof (intro conjI allI impI)
  assume "fps_guard fps = (25, 1)"
  moreover have "frame_interval_of (Double_Frac 25 1) = Inr 40" by code_simp
  ultimately show "frame_interval_of fps = Inr 40" by (simp add: frame_interval_of_def fps_guard_def)
next
  fix n d assume fps: "fps = Double_Frac n d \<and> 0 < d \<and> 0 < n \<and> n \<le> 240 * d \<and> 1000 * d div n < 2 ^ 53"
  let ?q = "1000 * d div n"
  have "4 * n \<le> 1000 * d" using fps by linarith
  then have "4 * n div n \<le> ?q" using fps by (intro zdiv_mono1) auto
  then have q: "4 \<le> ?q" using fps by simp
  have "bit_length ?q \<le> 53" using fps q by (subst bit_length_le_iff) auto
  then have b: "?q \<le> double_quot_trunc (1000 * d) n" "double_quot_trunc (1000 * d) n \<le> ?q + 1"
    using double_quot_trunc_bounds [of n "1000 * d"] fps by auto
  have "double_quot_trunc (1000 * d) n < 2 ^ 63"
    using b(2) fps by (intro le_less_trans [OF b(2)]) simp
  then have "frame_interval_of fps = Inr (double_quot_trunc (1000 * d) n)"
    using fps by (simp add: frame_interval_of_def fps_guard_def Let_def)
  with b q show "\<exists>ms. frame_interval_of fps = Inr ms \<and> 4 \<le> ms \<and> ?q \<le> ms \<and> ms \<le> ?q + 1" by auto
next
  show "\<exists>e. frame_interval_of (Double_Frac 1 (2 ^ 60)) = Inl (Undefined_Behaviour e)"
    by (rule exI [of _ "''double out of range of long''"]) code_simp
qed

theorem frame_interval_safe_witness:
  "frame_interval_of Double_NaN = Inr 40 \<and>
   (\<exists>ms. frame_interval_of (Double_Frac 30000 1001) = Inr ms \<and> 33 \<le> ms \<and> ms \<le> 34)"
  using frame_interval_safe [of Double_NaN] frame_interval_safe [of "Double_Frac 30000 1001"]
  by (auto simp: fps_guard_def)

end
