(* ===== verification/Rate_Limit.thy ===== *)
theory Rate_Limit
  imports Prelude
begin

text \<open>
  Rate limiting of events by key, the contract behind the alert cooldown of the pipeline and the
  drop warning of the WebSocket publisher: an event passes unless one of its key passed less than
  a gap before it.  What a run of such a limiter lets through is proved once, in the locale.
\<close>

fun rate_run :: "('e \<Rightarrow> 's \<Rightarrow> bool) \<Rightarrow> ('e \<Rightarrow> 's \<Rightarrow> 's) \<Rightarrow> 'e list \<Rightarrow> 's \<Rightarrow> 's \<times> 'e list" where
  "rate_run admits mark [] s = (s, [])"
| "rate_run admits mark (e # es) s =
     (if admits e s
      then let r = rate_run admits mark es (mark e s) in (fst r, e # snd r)
      else rate_run admits mark es s)"

lemma rate_run_append:
  "rate_run admits mark (es @ es') s =
     (let r = rate_run admits mark es s; r' = rate_run admits mark es' (fst r)
      in (fst r', snd r @ snd r'))"
  by (induction es arbitrary: s) (auto simp: Let_def)

lemma sorted_wrt_distinct: "sorted_wrt (\<lambda>a b. f a \<noteq> f b) xs \<Longrightarrow> distinct (map f xs)"
  by (induction xs) auto

lemma rate_run_subset: "set (snd (rate_run admits mark es s)) \<subseteq> set es"
  by (induction es arbitrary: s) (auto simp: Let_def)

locale rate_limit =
  fixes admits :: "'e \<Rightarrow> 's \<Rightarrow> bool"
    and mark :: "'e \<Rightarrow> 's \<Rightarrow> 's"
    and latest :: "'s \<Rightarrow> 'k \<Rightarrow> int option"
    and time_of :: "'e \<Rightarrow> int"
    and key_of :: "'e \<Rightarrow> 'k"
    and gap :: int
  assumes admits_iff: "admits e s \<longleftrightarrow>
      (case latest s (key_of e) of None \<Rightarrow> True | Some u \<Rightarrow> gap \<le> time_of e - u)"
    and latest_mark: "latest (mark e s) = (latest s)(key_of e \<mapsto> time_of e)"
begin

lemma run_after:
  assumes "0 < gap" "e \<in> set (snd (rate_run admits mark es s))" "latest s (key_of e) = Some u"
  shows "gap \<le> time_of e - u"
  using assms(2,3)
proof (induction es arbitrary: s u)
  case (Cons x es)
  show ?case
  proof (cases "admits x s")
    case False
    with Cons show ?thesis by simp
  next
    case True
    show ?thesis
    proof (cases "e = x")
      case True
      with \<open>admits x s\<close> Cons.prems show ?thesis by (simp add: admits_iff)
    next
      case False
      then have e: "e \<in> set (snd (rate_run admits mark es (mark x s)))"
        using Cons.prems True by (simp add: Let_def)
      show ?thesis
      proof (cases "key_of x = key_of e")
        case True
        then have "gap \<le> time_of e - time_of x"
          using Cons.IH [OF e, of "time_of x"] by (simp add: latest_mark)
        moreover have "gap \<le> time_of x - u"
          using \<open>admits x s\<close> True Cons.prems by (simp add: admits_iff)
        ultimately show ?thesis using assms(1) by linarith
      next
        case False
        then show ?thesis
          using Cons.IH [OF e, of u] Cons.prems by (simp add: latest_mark)
      qed
    qed
  qed
qed simp

lemma run_spaced:
  "0 < gap \<Longrightarrow> sorted_wrt (\<lambda>a b. key_of a = key_of b \<longrightarrow> gap \<le> time_of b - time_of a)
     (snd (rate_run admits mark es s))"
  by (induction es arbitrary: s) (auto simp: Let_def latest_mark intro!: run_after)

lemma run_covers:
  assumes "0 < gap" "e \<in> set es"
  shows "\<exists>u. ((\<exists>a \<in> set (snd (rate_run admits mark es s)). key_of a = key_of e \<and> time_of a = u) \<or>
      latest s (key_of e) = Some u) \<and> time_of e - u < gap"
  using assms(2)
proof (induction es arbitrary: s)
  case (Cons x es)
  show ?case
  proof (cases "admits x s")
    case True
    show ?thesis
    proof (cases "e = x")
      case True
      with \<open>admits x s\<close> assms(1) show ?thesis
        by (intro exI [of _ "time_of x"]) (simp add: Let_def)
    next
      case False
      then have "e \<in> set es" using Cons.prems by simp
      from Cons.IH [OF this, of "mark x s"] True show ?thesis
        by (auto simp: Let_def latest_mark split: if_splits)
    qed
  next
    case False
    show ?thesis
    proof (cases "e = x")
      case True
      with False show ?thesis by (auto simp: admits_iff split: option.splits)
    next
      case False
      then have "e \<in> set es" using Cons.prems by simp
      from Cons.IH [OF this, of s] \<open>\<not> admits x s\<close> show ?thesis by simp
    qed
  qed
qed simp

lemma run_at_once:
  assumes "latest s (key_of e) = None"
  shows "snd (rate_run admits mark (e # es) s) = e # snd (rate_run admits mark es (mark e s))"
  using assms by (simp add: admits_iff Let_def)

text \<open>At one time, at most one event of a key passes.\<close>

lemma run_simultaneous:
  assumes "0 < gap" "\<forall>e \<in> set es. time_of e = t"
  shows "distinct (map key_of (snd (rate_run admits mark es s)))"
proof -
  let ?out = "snd (rate_run admits mark es s)"
  have t: "\<forall>e \<in> set ?out. time_of e = t"
    using assms(2) rate_run_subset [of admits mark es s] by blast
  have "sorted_wrt (\<lambda>a b. key_of a \<noteq> key_of b) ?out"
    using run_spaced [OF assms(1), of es s] t assms(1)
    by (elim sorted_wrt_mono_rel [rotated]) force
  then show ?thesis by (rule sorted_wrt_distinct)
qed

end

end
