(* ===== verification/Pipeline.thy ===== *)
theory Pipeline
  imports Risk Bounded_Queue Video_Source Rate_Limit
begin

text \<open>
  \<^verbatim>\<open>FrameProcessingPipeline\<close> (\<^verbatim>\<open>src/application/FrameProcessingPipeline.cpp\<close>): the capture loop,
  the inference loop with its cooldown, and start and stop, first as functions of one iteration,
  then as a step relation in which the capture thread, the inference workers and the
  caller of \<open>stop\<close> interleave at the grain of the queue, the running flag and the join calls.
  The engine, the publisher and the video source are the ports the pipeline is built with.
\<close>

subsection \<open>Configuration, ports and effects\<close>

record pipeline_config =
  pc_frame_queue_capacity :: nat
  pc_inference_workers :: nat
  pc_alert_cooldown_ms :: int
  pc_max_frame_lag_ms :: int
  pc_enable_viewer :: bool

definition default_pipeline_config :: pipeline_config where
  "default_pipeline_config =
     \<lparr>pc_frame_queue_capacity = 4, pc_inference_workers = 1, pc_alert_cooldown_ms = 2000,
      pc_max_frame_lag_ms = 500, pc_enable_viewer = False\<rparr>"

text \<open>
  The collaborators: \<open>infer\<close> of the engine (an exception is a fault), the zone configuration behind
  \<open>risk_\<close>, \<open>publish\<close> of the publisher, whether the two viewer sinks are set, the zone service
  of the viewer, and the two questions asked of an image.
\<close>

record 'm pipeline_deps =
  pd_camera_id :: string
  pd_infer :: "'m frame \<Rightarrow> detection list result run"
  pd_risk :: safety_zone_config
  pd_publish :: "alert \<Rightarrow> void_result"
  pd_stream :: bool
  pd_detection_stream :: bool
  pd_zone_service :: "safety_zone_config option"
  pd_mat_empty :: "'m \<Rightarrow> bool"
  pd_mat_size :: "'m \<Rightarrow> int \<times> int"

definition enable_viewer :: "bool \<Rightarrow> bool \<Rightarrow> safety_zone_config option \<Rightarrow> 'm pipeline_deps \<Rightarrow> 'm pipeline_deps"
where
  "enable_viewer stream det_stream zones deps =
     deps\<lparr>pd_stream := stream, pd_detection_stream := det_stream, pd_zone_service := zones\<rparr>"

text \<open>What an iteration does to the outside, in order.\<close>

datatype 'm effect =
    Log_Stale string int "64 word"
  | Log_Infer_Failed string
  | Stream_Frame "'m frame"
  | Stream_Detections string "detection list" "safety_zone list" int int
  | Alert_Publish alert
  | Log_Publish_Failed string

subsection \<open>One iteration of the inference loop\<close>

type_synonym cooldown_map = "int \<rightharpoonup> time_ns"

definition in_cooldown :: "pipeline_config \<Rightarrow> time_ns \<Rightarrow> cooldown_map \<Rightarrow> int \<Rightarrow> bool" where
  "in_cooldown cfg frame_ts seen track =
     (case seen track of
        None \<Rightarrow> False
      | Some t \<Rightarrow> cast_ms (frame_ts - t) < pc_alert_cooldown_ms cfg)"

fun alerts_loop ::
  "pipeline_config \<Rightarrow> (alert \<Rightarrow> void_result) \<Rightarrow> time_ns \<Rightarrow> alert list \<Rightarrow>
   cooldown_map \<Rightarrow> 'm effect list \<Rightarrow> cooldown_map \<times> 'm effect list"
where
  "alerts_loop cfg publish ts [] seen out = (seen, out)"
| "alerts_loop cfg publish ts (a # as) seen out =
     (if in_cooldown cfg ts seen (al_forklift_track_id a)
      then alerts_loop cfg publish ts as seen out
      else let pub = publish a
           in alerts_loop cfg publish ts as (seen(al_forklift_track_id a \<mapsto> ts))
                (out @ Alert_Publish a #
                   (if vr_ok pub then [] else [Log_Publish_Failed (err_message (vr_err pub))])))"

fun collect_forklifts :: "detection list \<Rightarrow> detection list \<Rightarrow> detection list" where
  "collect_forklifts [] forklifts = forklifts"
| "collect_forklifts (d # ds) forklifts =
     (if det_cls d = kForklift then collect_forklifts ds (forklifts @ [d])
      else collect_forklifts ds forklifts)"

definition viewer_effects ::
  "pipeline_config \<Rightarrow> 'm pipeline_deps \<Rightarrow> 'm frame \<Rightarrow> detection list \<Rightarrow> 'm effect list"
where
  "viewer_effects cfg deps frame detections =
     (if pc_enable_viewer cfg \<and> pd_stream deps \<and> pd_detection_stream deps
      then case pd_zone_service deps of
          None \<Rightarrow> []
        | Some zcfg \<Rightarrow>
            (let zones = zones_for zcfg (collect_forklifts detections []);
                 size = pd_mat_size deps (fr_image frame)
             in [Stream_Frame frame,
                 Stream_Detections (pd_camera_id deps) detections zones (fst size) (snd size)])
      else [])"

definition stale_effects ::
  "pipeline_config \<Rightarrow> 'm pipeline_deps \<Rightarrow> int \<Rightarrow> 'm frame \<Rightarrow> 'm effect list"
where
  "stale_effects cfg deps now frame =
     (let lag = cast_ms (now - fr_captured_at frame)
      in if pc_max_frame_lag_ms cfg < lag
         then [Log_Stale (pd_camera_id deps) lag (fr_sequence frame)] else [])"

text \<open>
  The body of the loop after a frame was popped, with the readings of the steady and of the
  system clock it makes.
\<close>

definition process_frame ::
  "pipeline_config \<Rightarrow> 'm pipeline_deps \<Rightarrow> int \<Rightarrow> time_ns \<Rightarrow> 'm frame \<Rightarrow> cooldown_map \<Rightarrow>
   (cooldown_map \<times> 'm effect list) run"
where
  "process_frame cfg deps now frame_ts frame last_alert =
     (if frame_empty (pd_mat_empty deps) frame then Inr (last_alert, [])
      else let stale = stale_effects cfg deps now frame
           in case pd_infer deps frame of
               Inl fault \<Rightarrow> Inl fault
             | Inr (Inl e) \<Rightarrow> Inr (last_alert, stale @ [Log_Infer_Failed (err_message e)])
             | Inr (Inr detections) \<Rightarrow>
                 (let alerts = evaluate (pd_risk deps) (pd_camera_id deps) detections frame_ts
                  in Inr (alerts_loop cfg (pd_publish deps) frame_ts alerts last_alert
                       (stale @ viewer_effects cfg deps frame detections))))"

text \<open>What a worker has done after the frames it took, with the clock readings of each.\<close>

fun inference_run ::
  "pipeline_config \<Rightarrow> 'm pipeline_deps \<Rightarrow> (int \<times> time_ns \<times> 'm frame) list \<Rightarrow> cooldown_map \<Rightarrow>
   (cooldown_map \<times> 'm effect list) run"
where
  "inference_run cfg deps [] seen = Inr (seen, [])"
| "inference_run cfg deps ((now, ts, f) # later) seen =
     (case process_frame cfg deps now ts f seen of
        Inl e \<Rightarrow> Inl e
      | Inr (seen', out) \<Rightarrow>
          (case inference_run cfg deps later seen' of
             Inl e \<Rightarrow> Inl e
           | Inr (seen'', out') \<Rightarrow> Inr (seen'', out @ out')))"

subsection \<open>One iteration of the capture loop\<close>

text \<open>
  The body of the capture loop while \<open>running_\<close> holds: it reopens a closed source after 500 ms,
  closes a source that yields nothing, or has a frame to push.
\<close>

definition capture_iter ::
  "('s, 'm) source_ops \<Rightarrow> int \<times> int \<Rightarrow> 's \<Rightarrow> ('m frame option \<times> 's) run"
where
  "capture_iter ops t src =
     (if \<not> so_is_open ops src then
        (case so_open ops (fst t) src of Inl e \<Rightarrow> Inl e | Inr (_, src') \<Rightarrow> Inr (None, src'))
      else case so_read ops t src of
          (None, src') \<Rightarrow> Inr (None, so_close ops src')
        | (Some f, src') \<Rightarrow> Inr (Some f, src'))"

subsection \<open>The threads\<close>

datatype 'm capture_pc =
    Cap_Not_Started
  | Cap_Open
  | Cap_Loop
  | Cap_Push "'m frame"
  | Cap_Exited
  | Cap_Faulted fault

datatype 'm worker_pc =
    Wk_Queued
  | Wk_Check cooldown_map
  | Wk_Pop cooldown_map
  | Wk_Frame cooldown_map "'m frame"
  | Wk_Done
  | Wk_Faulted fault

datatype stop_pc = Stop_Idle | Stop_Close | Stop_Join | Stop_Shutdown | Stop_Source | Stop_Returned

record ('s, 'm) pipeline =
  pl_running :: bool
  pl_source :: 's
  pl_frames :: "'m frame cqueue"
  pl_capture :: "'m capture_pc"
  pl_workers :: "'m worker_pc list"
  pl_stop :: stop_pc

definition pl_new :: "pipeline_config \<Rightarrow> 's \<Rightarrow> ('s, 'm) pipeline" where
  "pl_new cfg src =
     \<lparr>pl_running = False, pl_source = src,
      pl_frames = cq_new (pc_frame_queue_capacity cfg) kDropOldestWhenFull,
      pl_capture = Cap_Not_Started, pl_workers = [], pl_stop = Stop_Idle\<rparr>"

text \<open>\<open>start\<close>: nothing when already running; else the capture thread and one task per worker.\<close>

definition pl_start :: "pipeline_config \<Rightarrow> ('s, 'm) pipeline \<Rightarrow> ('s, 'm) pipeline" where
  "pl_start cfg p =
     (if pl_running p then p
      else p\<lparr>pl_running := True, pl_capture := Cap_Open,
             pl_workers := replicate (pc_inference_workers cfg) Wk_Queued, pl_stop := Stop_Idle\<rparr>)"

text \<open>The capture thread: the clock readings of a step are its argument.\<close>

definition capture_step ::
  "('s, 'm) source_ops \<Rightarrow> int \<times> int \<Rightarrow> ('s, 'm) pipeline \<Rightarrow> ('s, 'm) pipeline option"
where
  "capture_step ops t p =
     (case pl_capture p of
        Cap_Open \<Rightarrow>
          (case so_open ops (fst t) (pl_source p) of
             Inl e \<Rightarrow> Some (p\<lparr>pl_capture := Cap_Faulted e\<rparr>)
           | Inr (_, src) \<Rightarrow> Some (p\<lparr>pl_source := src, pl_capture := Cap_Loop\<rparr>))
      | Cap_Loop \<Rightarrow>
          (if \<not> pl_running p then Some (p\<lparr>pl_capture := Cap_Exited\<rparr>)
           else case capture_iter ops t (pl_source p) of
               Inl e \<Rightarrow> Some (p\<lparr>pl_capture := Cap_Faulted e\<rparr>)
             | Inr (None, src) \<Rightarrow> Some (p\<lparr>pl_source := src\<rparr>)
             | Inr (Some f, src) \<Rightarrow> Some (p\<lparr>pl_source := src, pl_capture := Cap_Push f\<rparr>))
      | Cap_Push f \<Rightarrow>
          (case cq_push f (pl_frames p) of
             Waits \<Rightarrow> None
           | Faults e \<Rightarrow> Some (p\<lparr>pl_capture := Cap_Faulted e\<rparr>)
           | Returns _ q \<Rightarrow> Some (p\<lparr>pl_frames := q, pl_capture := Cap_Loop\<rparr>))
      | _ \<Rightarrow> None)"

text \<open>
  A worker: a pool thread picks up the task, then \<open>while (running_.load())\<close>, the wait in
  \<open>pop_latest\<close>, and the body.  The effects of the step are returned with it.
\<close>

definition set_worker :: "nat \<Rightarrow> 'm worker_pc \<Rightarrow> ('s, 'm) pipeline \<Rightarrow> ('s, 'm) pipeline" where
  "set_worker i w p = p\<lparr>pl_workers := (pl_workers p)[i := w]\<rparr>"

definition inference_step ::
  "pipeline_config \<Rightarrow> 'm pipeline_deps \<Rightarrow> int \<Rightarrow> time_ns \<Rightarrow> nat \<Rightarrow> ('s, 'm) pipeline \<Rightarrow>
   (('s, 'm) pipeline \<times> 'm effect list) option"
where
  "inference_step cfg deps now ts i p =
     (case pl_workers p ! i of
        Wk_Queued \<Rightarrow> Some (set_worker i (Wk_Check Map.empty) p, [])
      | Wk_Check seen \<Rightarrow>
          Some (set_worker i (if pl_running p then Wk_Pop seen else Wk_Done) p, [])
      | Wk_Pop seen \<Rightarrow>
          (case cq_pop_latest (pl_frames p) of
             Waits \<Rightarrow> None
           | Faults e \<Rightarrow> Some (set_worker i (Wk_Faulted e) p, [])
           | Returns None q \<Rightarrow> Some (set_worker i Wk_Done (p\<lparr>pl_frames := q\<rparr>), [])
           | Returns (Some f) q \<Rightarrow> Some (set_worker i (Wk_Frame seen f) (p\<lparr>pl_frames := q\<rparr>), []))
      | Wk_Frame seen f \<Rightarrow>
          (case process_frame cfg deps now ts f seen of
             Inl e \<Rightarrow> Some (set_worker i (Wk_Faulted e) p, [])
           | Inr (seen', out) \<Rightarrow> Some (set_worker i (Wk_Check seen') p, out))
      | _ \<Rightarrow> None)"

definition worker_finished :: "'m worker_pc \<Rightarrow> bool" where
  "worker_finished w = (case w of Wk_Done \<Rightarrow> True | Wk_Faulted _ \<Rightarrow> True | _ \<Rightarrow> False)"

text \<open>
  The caller of \<open>stop\<close>.  \<open>shutdown\<close> of the pool returns when its threads have run out of tasks,
  an exception of a task ends only the task.
\<close>

definition stop_step :: "('s, 'm) source_ops \<Rightarrow> ('s, 'm) pipeline \<Rightarrow> ('s, 'm) pipeline option" where
  "stop_step ops p =
     (case pl_stop p of
        Stop_Idle \<Rightarrow> if \<not> pl_running p then None
                     else Some (p\<lparr>pl_running := False, pl_stop := Stop_Close\<rparr>)
      | Stop_Close \<Rightarrow> Some (p\<lparr>pl_frames := cq_close (pl_frames p), pl_stop := Stop_Join\<rparr>)
      | Stop_Join \<Rightarrow> if pl_capture p = Cap_Exited then Some (p\<lparr>pl_stop := Stop_Shutdown\<rparr>) else None
      | Stop_Shutdown \<Rightarrow>
          if \<forall>w \<in> set (pl_workers p). worker_finished w then Some (p\<lparr>pl_stop := Stop_Source\<rparr>) else None
      | Stop_Source \<Rightarrow>
          Some (p\<lparr>pl_source := so_close ops (pl_source p), pl_stop := Stop_Returned\<rparr>)
      | Stop_Returned \<Rightarrow> None)"

text \<open>With a publisher that keeps its contract the loop has no failure to report.\<close>

context alert_publisher begin

lemma no_publish_failure:
  "Log_Publish_Failed msg \<in> set (snd (alerts_loop cfg (\<lambda>a. fst (publish a s)) ts as seen out)) \<Longrightarrow>
   Log_Publish_Failed msg \<in> set out"
proof (induction as arbitrary: seen out)
  case (Cons a as)
  from Cons.prems have "\<exists>seen' out'. Log_Publish_Failed msg \<in> set (snd (alerts_loop cfg (\<lambda>a. fst (publish a s)) ts as seen' out')) \<and>
      set out' \<subseteq> insert (Alert_Publish a) (set out)"
    by (cases "in_cooldown cfg ts seen (al_forklift_track_id a)") (fastforce simp: Let_def accepts)+
  with Cons.IH show ?case by fastforce
qed simp

end

subsection \<open>The cooldown as a rate limiter\<close>

fun alerts_of :: "'m effect list \<Rightarrow> alert list" where
  "alerts_of [] = []"
| "alerts_of (Alert_Publish a # out) = a # alerts_of out"
| "alerts_of (_ # out) = alerts_of out"

lemma alerts_of_append [simp]: "alerts_of (out @ out') = alerts_of out @ alerts_of out'"
  by (induction out rule: alerts_of.induct) auto

lemma alerts_of_stale [simp]: "alerts_of (stale_effects cfg deps now f) = []"
  by (simp add: stale_effects_def Let_def)

lemma alerts_of_viewer [simp]: "alerts_of (viewer_effects cfg deps f ds) = []"
  by (simp add: viewer_effects_def Let_def split: option.splits)

definition admits_alert :: "pipeline_config \<Rightarrow> alert \<Rightarrow> cooldown_map \<Rightarrow> bool" where
  "admits_alert cfg a seen = (\<not> in_cooldown cfg (al_timestamp a) seen (al_forklift_track_id a))"

definition mark_alert :: "alert \<Rightarrow> cooldown_map \<Rightarrow> cooldown_map" where
  "mark_alert a seen = seen(al_forklift_track_id a \<mapsto> al_timestamp a)"

text \<open>The cooldown in nanoseconds; truncation toward zero matters only for one that is not positive.\<close>

definition cooldown_gap :: "int \<Rightarrow> int" where
  "cooldown_gap c = (if 0 < c then c * 1000000 else (c - 1) * 1000000 + 1)"

lemma int_le_div_iff: "0 < d \<Longrightarrow> m \<le> a div d \<longleftrightarrow> m * d \<le> a" for a d m :: int
  using Float32.mult_le_div [of d m a] zdiv_mono1 [of "m * d" a d] by auto

lemma int_div_less_iff: "0 < d \<Longrightarrow> a div d < m \<longleftrightarrow> a < m * d" for a d m :: int
  using int_le_div_iff [of d m a] by linarith

lemma cast_ms_less: "cast_ms d < c \<longleftrightarrow> d < cooldown_gap c"
proof (cases "0 \<le> d")
  case True
  moreover have "0 \<le> d div 1000000" using True by simp
  moreover have "(c - 1) * 1000000 + 1 \<le> 0" if "c \<le> 0"
    using mult_right_mono [OF that, of 1000000] by (simp add: left_diff_distrib)
  ultimately show ?thesis
    by (auto simp: cast_ms_def cooldown_gap_def int_div_less_iff)
next
  case False
  have "- (- d div 1000000) < c \<longleftrightarrow> - c + 1 \<le> - d div 1000000" by linarith
  also have "\<dots> \<longleftrightarrow> (- c + 1) * 1000000 \<le> - d" by (rule int_le_div_iff) simp
  also have "\<dots> \<longleftrightarrow> d < cooldown_gap c" using False by (auto simp: cooldown_gap_def)
  finally show ?thesis using False by (simp add: cast_ms_def)
qed

interpretation cooldown: rate_limit "admits_alert cfg" mark_alert "\<lambda>s. s" al_timestamp
  al_forklift_track_id "cooldown_gap (pc_alert_cooldown_ms cfg)"
  for cfg :: pipeline_config
  by unfold_locales
    (auto simp: admits_alert_def in_cooldown_def mark_alert_def cast_ms_less split: option.splits)

lemma evaluate_stamp: "a \<in> set (evaluate cfg cam ds ts) \<Longrightarrow> al_timestamp a = ts \<and> al_camera_id a = cam"
  by (auto simp: set_evaluate make_alert_def)

lemma evaluate_forklift:
  assumes "a \<in> set (evaluate cfg cam ds ts)"
  obtains f where "f \<in> set ds" "det_cls f = kForklift" "al_forklift_track_id a = det_track_id f"
proof -
  have "sz_forklift_track_id (zone_for_forklift cfg f) = det_track_id f" for f
    by (simp add: zone_for_forklift_def Let_def)
  then show thesis using assms that by (auto simp: set_evaluate make_alert_def)
qed

lemma alerts_loop_rate:
  "\<forall>a \<in> set as. al_timestamp a = ts \<Longrightarrow>
   fst (alerts_loop cfg pub ts as seen out) = fst (rate_run (admits_alert cfg) mark_alert as seen) \<and>
   alerts_of (snd (alerts_loop cfg pub ts as seen out)) =
     alerts_of out @ snd (rate_run (admits_alert cfg) mark_alert as seen)"
  by (induction as arbitrary: seen out) (auto simp: admits_alert_def mark_alert_def Let_def)

lemma alerts_loop_rateD:
  assumes "alerts_loop cfg pub ts (evaluate zcfg cam ds ts) seen out = (seen', out')"
  shows "seen' = fst (rate_run (admits_alert cfg) mark_alert (evaluate zcfg cam ds ts) seen) \<and>
    alerts_of out' =
      alerts_of out @ snd (rate_run (admits_alert cfg) mark_alert (evaluate zcfg cam ds ts) seen)"
  using alerts_loop_rate [of "evaluate zcfg cam ds ts" ts cfg pub seen out] evaluate_stamp assms
  by fastforce

text \<open>The alerts a frame gives rise to, before the cooldown.\<close>

definition frame_alerts :: "'m pipeline_deps \<Rightarrow> int \<times> time_ns \<times> 'm frame \<Rightarrow> alert list" where
  "frame_alerts deps x =
     (case x of (now, ts, f) \<Rightarrow>
        if frame_empty (pd_mat_empty deps) f then []
        else case pd_infer deps f of
            Inr (Inr ds) \<Rightarrow> evaluate (pd_risk deps) (pd_camera_id deps) ds ts
          | _ \<Rightarrow> [])"

lemma frame_alerts_stamp: "a \<in> set (frame_alerts deps (now, ts, f)) \<Longrightarrow> al_timestamp a = ts"
  by (auto simp: frame_alerts_def evaluate_stamp split: if_splits sum.splits)

lemma frame_alertsE:
  assumes "a \<in> set (frame_alerts deps x)"
  obtains now ts f ds where "x = (now, ts, f)" "pd_infer deps f = Inr (Inr ds)"
    "a \<in> set (evaluate (pd_risk deps) (pd_camera_id deps) ds ts)"
proof -
  obtain now ts f where x: "x = (now, ts, f)" by (cases x) auto
  with assms obtain ds where "pd_infer deps f = Inr (Inr ds)"
    by (cases "pd_infer deps f") (auto simp: frame_alerts_def split: if_splits sum.splits)
  with assms x that show thesis by (simp add: frame_alerts_def split: if_splits)
qed

lemma process_frame_rate:
  assumes "process_frame cfg deps now ts f seen = Inr (seen', out)"
  shows "seen' = fst (rate_run (admits_alert cfg) mark_alert (frame_alerts deps (now, ts, f)) seen)"
    "alerts_of out = snd (rate_run (admits_alert cfg) mark_alert (frame_alerts deps (now, ts, f)) seen)"
  using assms
  by (auto simp: process_frame_def frame_alerts_def Let_def dest: alerts_loop_rateD
      split: if_splits sum.splits)

lemma inference_run_rate:
  "inference_run cfg deps xs seen = Inr (seen', out) \<Longrightarrow>
   seen' = fst (rate_run (admits_alert cfg) mark_alert (concat (map (frame_alerts deps) xs)) seen) \<and>
   alerts_of out = snd (rate_run (admits_alert cfg) mark_alert (concat (map (frame_alerts deps) xs)) seen)"
proof (induction xs arbitrary: seen out)
  case (Cons x xs)
  obtain now ts f where x: "x = (now, ts, f)" by (cases x) auto
  with Cons.prems obtain seen1 out1 out2
    where "process_frame cfg deps now ts f seen = Inr (seen1, out1)"
      "inference_run cfg deps xs seen1 = Inr (seen', out2)" "out = out1 @ out2"
    by (auto split: sum.splits)
  then show ?case
    using process_frame_rate [of cfg deps now ts f seen seen1 out1] Cons.IH [of seen1 out2]
    by (simp add: x rate_run_append Let_def)
qed simp

lemma inference_run_append:
  "inference_run cfg deps (xs @ ys) seen =
     (case inference_run cfg deps xs seen of
        Inl e \<Rightarrow> Inl e
      | Inr (seen', out) \<Rightarrow>
          (case inference_run cfg deps ys seen' of
             Inl e \<Rightarrow> Inl e | Inr (seen'', out') \<Rightarrow> Inr (seen'', out @ out')))"
  by (induction xs arbitrary: seen) (auto split: sum.splits)

subsection \<open>Properties of the cooldown\<close>

text \<open>Two alerts, the second later, that the cooldown lets through.\<close>

definition apart :: "pipeline_config \<Rightarrow> alert \<Rightarrow> alert \<Rightarrow> bool" where
  "apart cfg a b =
     (al_forklift_track_id a = al_forklift_track_id b \<longrightarrow>
        pc_alert_cooldown_ms cfg * 1000000 \<le> al_timestamp b - al_timestamp a)"

lemma inference_run_spaced:
  assumes "inference_run cfg deps xs Map.empty = Inr (seen, out)" "0 < pc_alert_cooldown_ms cfg"
  shows "sorted_wrt (apart cfg) (alerts_of out)"
proof -
  have "cooldown_gap (pc_alert_cooldown_ms cfg) = pc_alert_cooldown_ms cfg * 1000000"
    "0 < cooldown_gap (pc_alert_cooldown_ms cfg)"
    using assms(2) by (simp_all add: cooldown_gap_def)
  then show ?thesis
    using cooldown.run_spaced [of cfg _ Map.empty] inference_run_rate [OF assms(1)]
    by (simp add: apart_def [abs_def])
qed

text \<open>
  Nothing but a recent alert silences a contact: when a worker, over any past, processes a
  frame in which a person and a forklift share a pixel of the frame, it has published an alert
  for that forklift's track, now or less than the cooldown before the frame's time.
\<close>

theorem contact_is_reported:
  assumes run: "inference_run cfg deps (past @ [(now, ts, fr)]) Map.empty = Inr (seen, out)"
    and cd: "0 < pc_alert_cooldown_ms cfg"
    and frame: "\<not> frame_empty (pd_mat_empty deps) fr" "pd_infer deps fr = Inr (Inr ds)"
    and mem: "f \<in> set ds" "det_cls f = kForklift" "m \<in> set ds" "det_cls m = kPerson"
    and box: "det_box f = pixel_box x y w h" "det_box m = pixel_box x' y' w' h'"
    and pad: "pads_on_grid (pd_risk deps) e (det_box f) p q"
    and ok: "scaled_box_ok (2 ^ (149 - e)) x y w h" "scaled_box_ok (2 ^ (149 - e)) x' y' w' h'"
    and shared: "(i, j) \<in> pixels (det_box f) \<inter> pixels (det_box m)" "0 \<le> i" "0 \<le> j"
  shows "\<exists>a \<in> set (alerts_of out). al_forklift_track_id a = det_track_id f \<and>
    ts - al_timestamp a < pc_alert_cooldown_ms cfg * 1000000"
proof -
  obtain a where a: "a \<in> set (evaluate (pd_risk deps) (pd_camera_id deps) ds ts)"
    "al_timestamp a = ts" "al_forklift_track_id a = det_track_id f"
    using contact_alert [OF mem box pad ok shared, of "pd_camera_id deps" ts] by blast
  let ?es = "concat (map (frame_alerts deps) (past @ [(now, ts, fr)]))"
  have "a \<in> set ?es" using a(1) frame by (simp add: frame_alerts_def)
  with cd have "\<exists>u. (\<exists>b \<in> set (snd (rate_run (admits_alert cfg) mark_alert ?es Map.empty)).
      al_forklift_track_id b = al_forklift_track_id a \<and> al_timestamp b = u) \<and>
      al_timestamp a - u < cooldown_gap (pc_alert_cooldown_ms cfg)"
    using cooldown.run_covers [of cfg a ?es Map.empty] by (simp add: cooldown_gap_def)
  then show ?thesis
    using inference_run_rate [OF run] a cd by (auto simp: cooldown_gap_def)
qed

text \<open>
  The cooldown compares readings of the wall clock, so a clock that is set back silences a
  track: after an alert at time \<open>t\<close>, whatever frames follow, no alert of its track is published
  as long as the clock reads less than \<open>t\<close> plus the cooldown, however far back it was set.
\<close>

theorem clock_set_back_silences:
  assumes "inference_run cfg deps xs seen = Inr (seen', out)" "0 < pc_alert_cooldown_ms cfg"
    and "seen track = Some t"
    and "\<forall>(now, ts, f) \<in> set xs. ts < t + pc_alert_cooldown_ms cfg * 1000000"
  shows "\<forall>a \<in> set (alerts_of out). al_forklift_track_id a \<noteq> track"
proof (intro ballI notI)
  let ?es = "concat (map (frame_alerts deps) xs)"
  fix a assume a: "a \<in> set (alerts_of out)" "al_forklift_track_id a = track"
  then have out: "a \<in> set (snd (rate_run (admits_alert cfg) mark_alert ?es seen))"
    using inference_run_rate [OF assms(1)] by simp
  then have "a \<in> set ?es" using rate_run_subset [of "admits_alert cfg"] by blast
  then have "al_timestamp a < t + pc_alert_cooldown_ms cfg * 1000000"
    using assms(4) frame_alerts_stamp by fastforce
  moreover have "cooldown_gap (pc_alert_cooldown_ms cfg) \<le> al_timestamp a - t"
    using cooldown.run_after [of cfg a ?es seen t] out a(2) assms(2,3) by (simp add: cooldown_gap_def)
  ultimately show False using assms(2) by (simp add: cooldown_gap_def)
qed

text \<open>
  Without a tracker every detection has track \<open>-1\<close>, so all forklifts of a camera share one
  cooldown: any two alerts of the worker are the cooldown apart, also those of two different
  forklifts, and at most one alert is published per frame.
\<close>

theorem untracked_forklifts_share_cooldown:
  assumes "inference_run cfg deps xs Map.empty = Inr (seen, out)" "0 < pc_alert_cooldown_ms cfg"
    and "\<And>f ds d. pd_infer deps f = Inr (Inr ds) \<Longrightarrow> d \<in> set ds \<Longrightarrow> det_track_id d = -1"
  shows "sorted_wrt (\<lambda>a b. pc_alert_cooldown_ms cfg * 1000000 \<le> al_timestamp b - al_timestamp a)
    (alerts_of out)"
proof -
  let ?es = "concat (map (frame_alerts deps) xs)"
  have "al_forklift_track_id a = -1" if "a \<in> set ?es" for a
  proof -
    have "\<exists>x \<in> set xs. a \<in> set (frame_alerts deps x)" using that by simp
    then obtain x where "a \<in> set (frame_alerts deps x)" by blast
    then obtain f ds ts where "pd_infer deps f = Inr (Inr ds)"
      and a: "a \<in> set (evaluate (pd_risk deps) (pd_camera_id deps) ds ts)"
      by (elim frame_alertsE)
    then show ?thesis using evaluate_forklift [OF a] assms(3) by metis
  qed
  then have track: "\<forall>a \<in> set (alerts_of out). al_forklift_track_id a = -1"
    using inference_run_rate [OF assms(1)] rate_run_subset [of "admits_alert cfg"] by fastforce
  have "sorted_wrt (apart cfg) (alerts_of out)" by (rule inference_run_spaced [OF assms(1,2)])
  then show ?thesis
    by (rule sorted_wrt_mono_rel [rotated]) (use track in \<open>auto simp: apart_def\<close>)
qed

subsection \<open>A concrete run\<close>

text \<open>
  An engine that sees two forklifts and a person between them in every frame, without a tracker,
  and a publisher that fails.
\<close>

definition demo_deps :: "unit pipeline_deps" where
  "demo_deps =
     \<lparr>pd_camera_id = ''cam'',
      pd_infer = (\<lambda>f. Inr (Inr [test_detection kForklift 100 100 100 100 (-1),
                               test_detection kPerson 150 150 20 20 (-1),
                               test_detection kForklift 160 160 100 100 (-1)])),
      pd_risk = default_safety_zone_config,
      pd_publish = (\<lambda>a. vr_failure (mk_error 1 ''down'')),
      pd_stream = True, pd_detection_stream = True, pd_zone_service = None,
      pd_mat_empty = (\<lambda>_. False), pd_mat_size = (\<lambda>_. (640, 480))\<rparr>"

definition demo_frame :: "nat \<Rightarrow> unit frame" where
  "demo_frame n = \<lparr>fr_camera_id = ''cam'', fr_sequence = of_nat n, fr_captured_at = 0, fr_image = ()\<rparr>"

definition demo_run :: "(int \<times> time_ns \<times> unit frame) list \<Rightarrow> (cooldown_map \<times> unit effect list) run" where
  "demo_run xs = inference_run default_pipeline_config demo_deps xs Map.empty"

definition demo_out :: "(int \<times> time_ns \<times> unit frame) list \<Rightarrow> unit effect list" where
  "demo_out xs = (case demo_run xs of Inr (_, out) \<Rightarrow> out | _ \<Rightarrow> [])"

definition demo_seen :: "(int \<times> time_ns \<times> unit frame) list \<Rightarrow> cooldown_map" where
  "demo_seen xs = (case demo_run xs of Inr (seen, _) \<Rightarrow> seen | _ \<Rightarrow> Map.empty)"

lemma inference_run_returns:
  assumes "\<And>f. \<exists>r. pd_infer deps f = Inr r"
  shows "\<exists>s out. inference_run cfg deps xs seen = Inr (s, out)"
proof (induction xs arbitrary: seen)
  case (Cons x xs)
  obtain now ts f where x: "x = (now, ts, f)" by (cases x) auto
  obtain r where "pd_infer deps f = Inr r" using assms by blast
  then have "\<exists>res. process_frame cfg deps now ts f seen = Inr res"
    by (simp add: process_frame_def Let_def split: sum.splits)
  then obtain s1 out1 where "process_frame cfg deps now ts f seen = Inr (s1, out1)" by fastforce
  with Cons.IH [of s1] show ?case by (auto simp: x)
qed simp

lemma demo_run: "inference_run default_pipeline_config demo_deps xs Map.empty = Inr (demo_seen xs, demo_out xs)"
  using inference_run_returns [of demo_deps default_pipeline_config xs Map.empty]
  by (auto simp: demo_seen_def demo_out_def demo_run_def demo_deps_def)

definition demo_past :: "(int \<times> time_ns \<times> unit frame) list" where
  "demo_past = [(0, 0, demo_frame 1), (0, 1999999999, demo_frame 2), (0, 2000000000, demo_frame 3)]"

lemma demo_published: "map al_timestamp (alerts_of (demo_out demo_past)) = [0, 2000000000]"
  by code_simp

lemma default_cooldown [simp]: "pc_alert_cooldown_ms default_pipeline_config = 2000"
  by (simp add: default_pipeline_config_def)

theorem untracked_forklifts_share_cooldown_witness:
  "sorted_wrt (\<lambda>a b. 2000000000 \<le> al_timestamp b - al_timestamp a) (alerts_of (demo_out demo_past)) \<and>
   length (alerts_of (demo_out demo_past)) = 2"
proof -
  have "det_track_id d = -1" if "pd_infer demo_deps f = Inr (Inr ds)" "d \<in> set ds" for f ds d
    using that by (auto simp: demo_deps_def)
  then show ?thesis
    using untracked_forklifts_share_cooldown [OF demo_run, of demo_past]
      arg_cong [OF demo_published, of length] by auto
qed

theorem contact_is_reported_witness:
  "\<exists>a \<in> set (alerts_of (demo_out demo_past)). al_forklift_track_id a = -1 \<and>
     2000000000 - al_timestamp a < 2000 * 1000000"
proof -
  let ?f = "test_detection kForklift 100 100 100 100 (-1)" and ?m = "test_detection kPerson 150 150 20 20 (-1)"
  let ?ds = "[?f, ?m, test_detection kForklift 160 160 100 100 (-1)]"
  have run: "inference_run default_pipeline_config demo_deps
      ([(0, 0, demo_frame 1), (0, 1999999999, demo_frame 2)] @ [(0, 2000000000, demo_frame 3)]) Map.empty =
      Inr (demo_seen demo_past, demo_out demo_past)"
    using demo_run [of demo_past] by (simp add: demo_past_def)
  have deps: "\<not> frame_empty (pd_mat_empty demo_deps) (demo_frame 3)"
    "pd_infer demo_deps (demo_frame 3) = Inr (Inr ?ds)" "pd_risk demo_deps = default_safety_zone_config"
    by (simp_all add: demo_deps_def frame_empty_def)
  have pads: "pads_on_grid (pd_risk demo_deps) 148 (det_box ?f) 100 100"
    using default_pads_on_grid [of 100 100 100 100] deps(3) by (simp add: scaled_box_ok_def pixel_box_ok_defs)
  have ok: "scaled_box_ok (2 ^ (149 - 148)) 100 100 100 100" "scaled_box_ok (2 ^ (149 - 148)) 150 150 20 20"
    by (simp_all add: scaled_box_ok_def pixel_box_ok_defs)
  have "(155, 155) \<in> pixels (det_box ?f) \<inter> pixels (det_box ?m)"
    by (simp add: pixels_pixel_box pixel_box_ok_defs)
  then show ?thesis
    using contact_is_reported [OF run _ deps(1,2) _ _ _ _ _ _ pads ok, of ?m 155 155] by simp
qed

theorem clock_set_back_silences_witness:
  "length (frame_alerts demo_deps (0, 0, demo_frame 1)) = 2 \<and>
   (\<exists>seen out. inference_run default_pipeline_config demo_deps [(0, 0, demo_frame 1)] [-1 \<mapsto> 3600000000000] =
      Inr (seen, out) \<and> list_all (\<lambda>a. al_forklift_track_id a \<noteq> -1) (alerts_of out))"
proof -
  have "length (frame_alerts demo_deps (0, 0, demo_frame 1)) = 2" by code_simp
  moreover have "\<exists>s out. inference_run default_pipeline_config demo_deps [(0, 0, demo_frame 1)]
      [-1 \<mapsto> 3600000000000] = Inr (s, out)"
    by (rule inference_run_returns) (simp add: demo_deps_def)
  ultimately show ?thesis
    using clock_set_back_silences [of default_pipeline_config demo_deps "[(0, 0, demo_frame 1)]"
        "[-1 \<mapsto> 3600000000000]" _ _ "-1" 3600000000000] by (fastforce simp: list_all_iff)
qed

end
