(* ===== verification/Pipeline_Threads.thy ===== *)
theory Pipeline_Threads
  imports Pipeline "HOL-Library.Multiset"
begin

text \<open>
  The threads of the pipeline interleaved: the capture thread, the inference workers and the
  caller of \<open>stop\<close> take steps in any order.  The thread pool is taken by its contract here: its shutdown returns when
  the inference loops have; \<open>Pipeline_Pool\<close> refines this to the pool itself.  Beside the state a run carries a trace of what
  happened, which the code does not keep: the frames pushed and popped, and for each worker the
  frames it processed and its effects.
\<close>

subsection \<open>The step relation\<close>

record 'm trace =
  tr_pushed :: "'m frame list"
  tr_popped :: "'m frame list"
  tr_done :: "nat \<Rightarrow> (int \<times> time_ns \<times> 'm frame) list"
  tr_out :: "nat \<Rightarrow> 'm effect list"

definition no_trace :: "'m trace" where
  "no_trace = \<lparr>tr_pushed = [], tr_popped = [], tr_done = (\<lambda>_. []), tr_out = (\<lambda>_. [])\<rparr>"

definition capture_frames :: "'m capture_pc \<Rightarrow> 'm frame list" where
  "capture_frames c = (case c of Cap_Push f \<Rightarrow> [f] | _ \<Rightarrow> [])"

definition worker_frames :: "'m worker_pc \<Rightarrow> 'm frame list" where
  "worker_frames w = (case w of Wk_Frame m f \<Rightarrow> [f] | _ \<Rightarrow> [])"

definition trace_worker :: "nat \<Rightarrow> int \<Rightarrow> time_ns \<Rightarrow> 'm worker_pc \<Rightarrow> 'm worker_pc \<Rightarrow> 'm effect list \<Rightarrow> 'm trace \<Rightarrow> 'm trace"
where
  "trace_worker i now ts w w' out tr =
     (case (w, w') of
        (Wk_Frame m f, Wk_Check m') \<Rightarrow>
          tr\<lparr>tr_done := (tr_done tr)(i := tr_done tr i @ [(now, ts, f)]),
             tr_out := (tr_out tr)(i := tr_out tr i @ out)\<rparr>
      | (Wk_Pop m, Wk_Frame m' f) \<Rightarrow> tr\<lparr>tr_popped := tr_popped tr @ [f]\<rparr>
      | _ \<Rightarrow> tr)"

definition trace_capture :: "('s, 'm) pipeline \<Rightarrow> ('s, 'm) pipeline \<Rightarrow> 'm trace \<Rightarrow> 'm trace" where
  "trace_capture p p' tr =
     (if pl_capture p' = Cap_Loop then tr\<lparr>tr_pushed := tr_pushed tr @ capture_frames (pl_capture p)\<rparr>
      else tr)"

inductive pipe_step ::
  "pipeline_config \<Rightarrow> 'm pipeline_deps \<Rightarrow> ('s, 'm) source_ops \<Rightarrow>
   ('s, 'm) pipeline \<times> 'm trace \<Rightarrow> ('s, 'm) pipeline \<times> 'm trace \<Rightarrow> bool"
  for cfg deps ops
where
  capture: "capture_step ops t p = Some p' \<Longrightarrow>
    pipe_step cfg deps ops (p, tr) (p', trace_capture p p' tr)"
| worker: "i < length (pl_workers p) \<Longrightarrow> inference_step cfg deps now ts i p = Some (p', out) \<Longrightarrow>
    pipe_step cfg deps ops (p, tr)
      (p', trace_worker i now ts (pl_workers p ! i) (pl_workers p' ! i) out tr)"
| stop: "stop_step ops p = Some p' \<Longrightarrow> pipe_step cfg deps ops (p, tr) (p', tr)"

inductive pipe_reachable ::
  "pipeline_config \<Rightarrow> 'm pipeline_deps \<Rightarrow> ('s, 'm) source_ops \<Rightarrow> 's \<Rightarrow>
   ('s, 'm) pipeline \<times> 'm trace \<Rightarrow> bool"
  for cfg deps ops src
where
  start: "pipe_reachable cfg deps ops src (pl_start cfg (pl_new cfg src), no_trace)"
| step: "pipe_reachable cfg deps ops src h \<Longrightarrow> pipe_step cfg deps ops h h' \<Longrightarrow>
    pipe_reachable cfg deps ops src h'"

lemmas thread_defs = capture_step_def inference_step_def stop_step_def set_worker_def
lemmas trace_defs = trace_capture_def trace_worker_def capture_frames_def worker_frames_def

text \<open>Case rules of the three threads.\<close>

lemma capture_step_cases:
  assumes "capture_step ops t p = Some p'"
  obtains (opened) r src where "pl_capture p = Cap_Open" "so_open ops (fst t) (pl_source p) = Inr (r, src)"
      "p' = p\<lparr>pl_source := src, pl_capture := Cap_Loop\<rparr>"
    | (exit) "pl_capture p = Cap_Loop" "\<not> pl_running p" "p' = p\<lparr>pl_capture := Cap_Exited\<rparr>"
    | (idle) src where "pl_capture p = Cap_Loop" "pl_running p"
      "capture_iter ops t (pl_source p) = Inr (None, src)" "p' = p\<lparr>pl_source := src\<rparr>"
    | (got) f src where "pl_capture p = Cap_Loop" "pl_running p"
      "capture_iter ops t (pl_source p) = Inr (Some f, src)"
      "p' = p\<lparr>pl_source := src, pl_capture := Cap_Push f\<rparr>"
    | (pushed) f b q where "pl_capture p = Cap_Push f" "cq_push f (pl_frames p) = Returns b q"
      "p' = p\<lparr>pl_frames := q, pl_capture := Cap_Loop\<rparr>"
    | (fault) e where "p' = p\<lparr>pl_capture := Cap_Faulted e\<rparr>"
      "pl_capture p = Cap_Open \<or> pl_capture p = Cap_Loop \<or> (\<exists>f. pl_capture p = Cap_Push f)"
  using assms
  by (auto simp: capture_step_def split: capture_pc.splits sum.splits if_splits op_result.splits option.splits)

lemma inference_step_cases:
  assumes "inference_step cfg deps now ts i p = Some (p', out)"
  obtains (picked) "pl_workers p ! i = Wk_Queued" "p' = set_worker i (Wk_Check Map.empty) p" "out = []"
    | (check) m where "pl_workers p ! i = Wk_Check m"
      "p' = set_worker i (if pl_running p then Wk_Pop m else Wk_Done) p" "out = []"
    | (ended) m q where "pl_workers p ! i = Wk_Pop m" "cq_pop_latest (pl_frames p) = Returns None q"
      "p' = set_worker i Wk_Done (p\<lparr>pl_frames := q\<rparr>)" "out = []"
    | (popped) m f q where "pl_workers p ! i = Wk_Pop m"
      "cq_pop_latest (pl_frames p) = Returns (Some f) q"
      "p' = set_worker i (Wk_Frame m f) (p\<lparr>pl_frames := q\<rparr>)" "out = []"
    | (processed) m f m' where "pl_workers p ! i = Wk_Frame m f"
      "process_frame cfg deps now ts f m = Inr (m', out)" "p' = set_worker i (Wk_Check m') p"
    | (fault) e m f where "pl_workers p ! i = Wk_Frame m f" "p' = set_worker i (Wk_Faulted e) p" "out = []"
  using assms
  by (auto simp: inference_step_def cq_pop_latest_eq split: worker_pc.splits sum.splits if_splits)

lemma stop_step_cases:
  assumes "stop_step ops p = Some p'"
  obtains (request) "pl_stop p = Stop_Idle" "pl_running p"
      "p' = p\<lparr>pl_running := False, pl_stop := Stop_Close\<rparr>"
    | (close) "pl_stop p = Stop_Close" "p' = p\<lparr>pl_frames := cq_close (pl_frames p), pl_stop := Stop_Join\<rparr>"
    | (join) "pl_stop p = Stop_Join" "pl_capture p = Cap_Exited" "p' = p\<lparr>pl_stop := Stop_Shutdown\<rparr>"
    | (shutdown) "pl_stop p = Stop_Shutdown" "\<forall>w \<in> set (pl_workers p). worker_finished w"
      "p' = p\<lparr>pl_stop := Stop_Source\<rparr>"
    | (source) "pl_stop p = Stop_Source"
      "p' = p\<lparr>pl_source := so_close ops (pl_source p), pl_stop := Stop_Returned\<rparr>"
  using assms by (auto simp: stop_step_def split: stop_pc.splits if_splits)

subsection \<open>Invariants\<close>

text \<open>The queue: the pushes and pops of the pipeline are a history of its frame queue.\<close>

definition queue_inv :: "pipeline_config \<Rightarrow> ('s, 'm) pipeline \<times> 'm trace \<Rightarrow> bool" where
  "queue_inv cfg h = (case h of (p, tr) \<Rightarrow>
     history_inv (pc_frame_queue_capacity cfg) kDropOldestWhenFull
       (tr_pushed tr, tr_popped tr, pl_frames p))"

lemma cq_push_accepts:
  assumes "cq_push f q = Returns b q'" "cq_policy q = kDropOldestWhenFull"
  shows "b = True"
  using assms by (auto simp: cq_push_def split: if_splits list.splits)

lemma cq_pop_latest_None: "cq_pop_latest q = Returns None q' \<Longrightarrow> q' = q"
  by (auto simp: cq_pop_latest_eq split: if_splits)

lemma set_worker_simps [simp]:
  "pl_running (set_worker i w p) = pl_running p" "pl_source (set_worker i w p) = pl_source p"
  "pl_frames (set_worker i w p) = pl_frames p" "pl_capture (set_worker i w p) = pl_capture p"
  "pl_stop (set_worker i w p) = pl_stop p" "pl_workers (set_worker i w p) = (pl_workers p)[i := w]"
  by (simp_all add: set_worker_def)

lemma queue_inv_capture:
  assumes "queue_inv cfg (p, tr)" "capture_step ops t p = Some p'" "0 < pc_frame_queue_capacity cfg"
  shows "queue_inv cfg (p', trace_capture p p' tr)"
  using assms(2)
proof (cases rule: capture_step_cases)
  case (pushed f b q)
  have "b = True"
    using cq_push_accepts [OF pushed(2)] assms(1) by (simp add: queue_inv_def history_inv_def)
  then have "cq_step (tr_pushed tr, tr_popped tr, pl_frames p) (tr_pushed tr @ [f], tr_popped tr, q)"
    using pushed(2) by (intro cq_step.push_ok) simp
  from history_inv_step [OF this] pushed assms show ?thesis
    by (simp add: queue_inv_def trace_defs)
qed (use assms in \<open>auto simp: queue_inv_def trace_defs\<close>)

lemma queue_inv_worker:
  assumes "queue_inv cfg (p, tr)" "inference_step cfg deps now ts i p = Some (p', out)"
    "i < length (pl_workers p)" "0 < pc_frame_queue_capacity cfg"
  shows "queue_inv cfg (p', trace_worker i now ts (pl_workers p ! i) (pl_workers p' ! i) out tr)"
  using assms(2)
proof (cases rule: inference_step_cases)
  case (popped m f q)
  have "cq_step (tr_pushed tr, tr_popped tr, pl_frames p) (tr_pushed tr, tr_popped tr @ [f], q)"
    using popped(2) by (intro cq_step.latest_value)
  from history_inv_step [OF this] popped assms show ?thesis
    by (simp add: queue_inv_def trace_defs)
next
  case (ended m q)
  then show ?thesis using assms cq_pop_latest_None [OF ended(2)] by (simp add: queue_inv_def trace_defs)
qed (use assms in \<open>auto simp: queue_inv_def trace_defs\<close>)

lemma queue_inv_stop:
  "queue_inv cfg (p, tr) \<Longrightarrow> stop_step ops p = Some p' \<Longrightarrow> queue_inv cfg (p', tr)"
  by (elim stop_step_cases) (auto simp: queue_inv_def history_inv_def cq_close_def)

lemma queue_inv_reachable:
  assumes "pipe_reachable cfg deps ops src h" "0 < pc_frame_queue_capacity cfg"
  shows "queue_inv cfg h"
  using assms(1)
proof (induction rule: pipe_reachable.induct)
  case start
  then show ?case
    by (simp add: queue_inv_def history_inv_def pl_start_def pl_new_def no_trace_def cq_new_def)
next
  case (step h h')
  from step.hyps(2) step.IH assms(2) show ?case
    by (induction rule: pipe_step.induct) (auto intro: queue_inv_capture queue_inv_worker queue_inv_stop)
qed

text \<open>The workers: each has done exactly what the frames it processed make the loop do.\<close>

definition worker_map :: "'m worker_pc \<Rightarrow> cooldown_map option" where
  "worker_map w =
     (case w of Wk_Queued \<Rightarrow> Some Map.empty | Wk_Check m \<Rightarrow> Some m | Wk_Pop m \<Rightarrow> Some m
      | Wk_Frame m f \<Rightarrow> Some m | _ \<Rightarrow> None)"

definition worker_inv :: "pipeline_config \<Rightarrow> 'm pipeline_deps \<Rightarrow> ('s, 'm) pipeline \<times> 'm trace \<Rightarrow> bool" where
  "worker_inv cfg deps h = (case h of (p, tr) \<Rightarrow>
     \<forall>i < length (pl_workers p).
       \<exists>m. inference_run cfg deps (tr_done tr i) Map.empty = Inr (m, tr_out tr i) \<and>
         (\<forall>m'. worker_map (pl_workers p ! i) = Some m' \<longrightarrow> m' = m))"

lemma inference_run_snoc:
  assumes "inference_run cfg deps xs Map.empty = Inr (m, out)"
    "process_frame cfg deps now ts f m = Inr (m', out')"
  shows "inference_run cfg deps (xs @ [(now, ts, f)]) Map.empty = Inr (m', out @ out')"
  using assms by (simp add: inference_run_append)

lemma worker_inv_worker:
  assumes "worker_inv cfg deps (p, tr)" "inference_step cfg deps now ts i p = Some (p', out)"
    "i < length (pl_workers p)"
  shows "worker_inv cfg deps (p', trace_worker i now ts (pl_workers p ! i) (pl_workers p' ! i) out tr)"
  using assms(2)
proof (cases rule: inference_step_cases)
  case (processed m f m')
  obtain k where "inference_run cfg deps (tr_done tr i) Map.empty = Inr (k, tr_out tr i)" "k = m"
    using assms(1,3) processed(1) by (auto simp: worker_inv_def worker_map_def)
  then have "inference_run cfg deps (tr_done tr i @ [(now, ts, f)]) Map.empty = Inr (m', tr_out tr i @ out)"
    using inference_run_snoc processed(2) by blast
  with assms(1,3) processed show ?thesis
    by (auto simp: worker_inv_def trace_defs worker_map_def nth_list_update)
qed (use assms in \<open>auto simp: worker_inv_def trace_defs worker_map_def nth_list_update split: if_splits; fastforce\<close>)+

lemma worker_inv_reachable:
  "pipe_reachable cfg deps ops src h \<Longrightarrow> worker_inv cfg deps h"
proof (induction rule: pipe_reachable.induct)
  case start
  then show ?case
    by (simp add: worker_inv_def pl_start_def pl_new_def no_trace_def worker_map_def)
next
  case (step h h')
  from step.hyps(2) step.IH show ?case
  proof (induction rule: pipe_step.induct)
    case (capture t p p' tr)
    then have "pl_workers p' = pl_workers p" by (auto elim: capture_step_cases)
    with capture show ?case by (simp add: worker_inv_def trace_defs)
  next
    case (stop p p' tr)
    then have "pl_workers p' = pl_workers p" by (auto elim: stop_step_cases)
    with stop show ?case by (simp add: worker_inv_def)
  qed (rule worker_inv_worker)
qed

text \<open>Every frame taken from the queue is with at most one worker, at most once.\<close>

definition worker_share :: "('s, 'm) pipeline \<Rightarrow> 'm trace \<Rightarrow> nat \<Rightarrow> 'm frame list" where
  "worker_share p tr i = map (\<lambda>(now, ts, f). f) (tr_done tr i) @ worker_frames (pl_workers p ! i)"

definition share_inv :: "('s, 'm) pipeline \<times> 'm trace \<Rightarrow> bool" where
  "share_inv h = (case h of (p, tr) \<Rightarrow>
     (\<Sum>i < length (pl_workers p). mset (worker_share p tr i)) \<subseteq># mset (tr_popped tr) \<and>
     (\<forall>i < length (pl_workers p). subseq (worker_share p tr i) (tr_popped tr)))"

lemma sum_change_one:
  fixes g :: "nat \<Rightarrow> 'b multiset"
  assumes "i < n" "\<And>j. j < n \<Longrightarrow> j \<noteq> i \<Longrightarrow> g' j = g j" "g' i + a = g i + b"
  shows "(\<Sum>j<n. g' j) + a = (\<Sum>j<n. g j) + b"
proof -
  have "(\<Sum>j<n. h j) = h i + (\<Sum>j \<in> {..<n} - {i}. h j)" for h :: "nat \<Rightarrow> 'b multiset"
    using assms(1) by (simp add: sum.remove)
  moreover have "(\<Sum>j \<in> {..<n} - {i}. g' j) = (\<Sum>j \<in> {..<n} - {i}. g j)"
    using assms(2) by (intro sum.cong) auto
  ultimately show ?thesis using assms(3) by (metis add.assoc add.commute)
qed

lemma share_inv_change:
  assumes "share_inv (p, tr)" "i < length (pl_workers p)" "length (pl_workers p') = length (pl_workers p)"
    and others: "\<And>j. j < length (pl_workers p) \<Longrightarrow> j \<noteq> i \<Longrightarrow> worker_share p' tr' j = worker_share p tr j"
    and shift: "worker_share p' tr' i @ lost = worker_share p tr i @ new"
    and popped: "tr_popped tr' = tr_popped tr @ new" and new: "lost = [] \<or> new = []"
  shows "share_inv (p', tr')"
proof -
  let ?n = "length (pl_workers p)"
  have "mset (worker_share p' tr' i) + mset lost = mset (worker_share p tr i) + mset new"
    using arg_cong [OF shift, of mset] by simp
  then have sum: "(\<Sum>j<?n. mset (worker_share p' tr' j)) + mset lost =
      (\<Sum>j<?n. mset (worker_share p tr j)) + mset new"
    using others assms(2) by (intro sum_change_one [of i]) simp_all
  moreover have "(\<Sum>j<?n. mset (worker_share p tr j)) + mset new \<subseteq># mset (tr_popped tr')"
    using assms(1) popped by (simp add: share_inv_def subset_mset.add_right_mono)
  ultimately have "(\<Sum>j<?n. mset (worker_share p' tr' j)) \<subseteq># mset (tr_popped tr')"
    using subset_mset.order_trans [OF mset_subset_eq_add_left] by metis
  moreover have "subseq (worker_share p' tr' j) (tr_popped tr')" if "j < ?n" for j
  proof (cases "j = i")
    case False
    then show ?thesis
      using others assms(1) that popped by (auto simp: share_inv_def intro: subseq_rev_drop_many)
  next
    case True
    have sub: "subseq (worker_share p tr i) (tr_popped tr)"
      using assms(1,2) by (simp add: share_inv_def)
    show ?thesis
    proof (cases "lost = []")
      case False
      with new shift have "worker_share p tr i = worker_share p' tr' i @ lost" by simp
      with sub have "subseq (worker_share p' tr' i) (tr_popped tr)"
        by (metis subseq_order.order_refl subseq_order.order_trans subseq_rev_drop_many)
      with True popped show ?thesis by (auto intro: subseq_rev_drop_many)
    next
      case True
      with shift sub popped \<open>j = i\<close> show ?thesis by (auto intro: list_emb_append_mono)
    qed
  qed
  ultimately show ?thesis using assms(3) by (simp add: share_inv_def)
qed

lemma share_inv_worker:
  assumes "share_inv (p, tr)" "inference_step cfg deps now ts i p = Some (p', out)"
    "i < length (pl_workers p)"
  shows "share_inv (p', trace_worker i now ts (pl_workers p ! i) (pl_workers p' ! i) out tr)"
  using assms(2)
proof (cases rule: inference_step_cases)
  case (popped m f q)
  show ?thesis
    by (rule share_inv_change [OF assms(1,3), where lost = "[]" and new = "[f]"])
      (use popped assms(3) in \<open>auto simp: worker_share_def trace_defs\<close>)
next
  case (fault e m f)
  show ?thesis
    by (rule share_inv_change [OF assms(1,3), where lost = "[f]" and new = "[]"])
      (use fault assms(3) in \<open>auto simp: worker_share_def trace_defs\<close>)
next
  case (processed m f m')
  show ?thesis
    by (rule share_inv_change [OF assms(1,3), where lost = "[]" and new = "[]"])
      (use processed assms(3) in \<open>auto simp: worker_share_def trace_defs\<close>)
qed (rule share_inv_change [OF assms(1,3), where lost = "[]" and new = "[]"],
    use assms(3) in \<open>auto simp: worker_share_def trace_defs\<close>)+

lemma share_inv_reachable: "pipe_reachable cfg deps ops src h \<Longrightarrow> share_inv h"
proof (induction rule: pipe_reachable.induct)
  case start
  then show ?case
    by (simp add: share_inv_def pl_start_def pl_new_def no_trace_def worker_share_def worker_frames_def)
next
  case (step h h')
  from step.hyps(2) step.IH show ?case
  proof (induction rule: pipe_step.induct)
    case (capture t p p' tr)
    then have "pl_workers p' = pl_workers p" by (auto elim: capture_step_cases)
    with capture show ?case by (simp add: share_inv_def worker_share_def trace_capture_def)
  next
    case (stop p p' tr)
    then have "pl_workers p' = pl_workers p" by (auto elim: stop_step_cases)
    with stop show ?case by (simp add: share_inv_def worker_share_def)
  qed (rule share_inv_worker)
qed

text \<open>The source: the frames pushed carry the sequence numbers from one on, without a gap.\<close>

context video_source begin

definition seq_inv :: "string \<Rightarrow> ('s, 'm) pipeline \<times> 'm trace \<Rightarrow> bool" where
  "seq_inv cam h = (case h of (p, tr) \<Rightarrow>
     let fs = tr_pushed tr @ capture_frames (pl_capture p)
     in map fr_sequence fs = map of_nat [1..<Suc (length fs)] \<and>
        (\<forall>f \<in> set fs. fr_camera_id f = cam \<and> \<not> frame_empty mat_empty f) \<and>
        ((\<forall>e. pl_capture p \<noteq> Cap_Faulted e) \<longrightarrow>
           seq_of (pl_source p) = of_nat (length fs) \<and> so_camera_id ops (pl_source p) = cam))"

lemma capture_iter_seq:
  assumes "capture_iter ops t s = Inr (r, s')"
  shows "seq_of s' = (case r of None \<Rightarrow> seq_of s | Some f \<Rightarrow> seq_of s + 1)"
    "so_camera_id ops s' = so_camera_id ops s"
    "r = Some f \<Longrightarrow> fr_sequence f = seq_of s + 1 \<and> fr_camera_id f = so_camera_id ops s \<and>
       \<not> frame_empty mat_empty f"
  using assms
  by (auto simp: capture_iter_def close_keeps split: if_splits sum.splits option.splits prod.splits
      dest: open_keeps read_none read_frame)

lemma seq_inv_capture:
  assumes "seq_inv cam (p, tr)" "capture_step ops t p = Some p'"
  shows "seq_inv cam (p', trace_capture p p' tr)"
  using assms(2)
proof (cases rule: capture_step_cases)
  case (opened r src)
  then show ?thesis using assms(1) open_keeps by (fastforce simp: seq_inv_def trace_defs)
next
  case (idle src)
  then show ?thesis using assms(1) capture_iter_seq [OF idle(3)] by (simp add: seq_inv_def trace_defs)
next
  case (got f src)
  then show ?thesis
    using assms(1) capture_iter_seq [OF got(3)] by (auto simp: seq_inv_def trace_defs Let_def)
next
  case (fault e)
  then show ?thesis using assms(1)
    by (auto simp: seq_inv_def trace_defs Let_def)
qed (use assms(1) in \<open>auto simp: seq_inv_def trace_defs Let_def\<close>)

lemma seq_inv_reachable:
  assumes "pipe_reachable cfg deps ops src h" "seq_of src = 0"
  shows "seq_inv (so_camera_id ops src) h"
  using assms(1)
proof (induction rule: pipe_reachable.induct)
  case start
  then show ?case using assms(2)
    by (simp add: seq_inv_def pl_start_def pl_new_def no_trace_def capture_frames_def)
next
  case (step h h')
  from step.hyps(2) step.IH show ?case
  proof (induction rule: pipe_step.induct)
    case (worker i p now ts p' out tr)
    have "pl_source p' = pl_source p" "pl_capture p' = pl_capture p"
      using worker(2) by (auto elim: inference_step_cases)
    moreover have "tr_pushed (trace_worker i now ts w w' out tr) = tr_pushed tr" for w w'
      by (simp add: trace_worker_def split: worker_pc.splits)
    ultimately show ?case using worker by (simp add: seq_inv_def)
  next
    case (stop p p' tr)
    then show ?case
      by (elim stop_step_cases) (auto simp: seq_inv_def close_keeps)
  qed (rule seq_inv_capture)
qed

end

subsection \<open>Frames in order\<close>

lemma sorted_wrt_subseq: "subseq xs ys \<Longrightarrow> sorted_wrt P ys \<Longrightarrow> sorted_wrt P xs"
proof (induction rule: list_emb.induct)
  case (list_emb_Cons2 x y xs ys)
  then have "set xs \<subseteq> set ys" by (auto dest: list_emb_set)
  with list_emb_Cons2 show ?case by auto
qed auto

definition earlier :: "'m frame \<Rightarrow> 'm frame \<Rightarrow> bool" where
  "earlier f g = (fr_sequence f < fr_sequence g)"

lemma numbered_earlier:
  assumes "map fr_sequence fs = map of_nat [1..<Suc n]" "n < 2 ^ 64"
  shows "sorted_wrt earlier fs"
proof -
  have len: "length fs = n" using arg_cong [OF assms(1), of length] by simp
  have nth: "fr_sequence (fs ! i) = of_nat (Suc i)" if "i < n" for i
    using arg_cong [OF assms(1), of "\<lambda>xs. xs ! i"] that len
    by (simp add: nth_upt del: upt_Suc)
  show ?thesis
    unfolding sorted_wrt_iff_nth_less
  proof (intro allI impI)
    fix i j assume "i < j" "j < length fs"
    with nth [of i] nth [of j] len show "earlier (fs ! i) (fs ! j)"
      using assms(2) by (simp add: earlier_def word_less_nat_alt unat_of_nat take_bit_nat_eq_self del: of_nat_Suc)
  qed
qed

lemma sorted_earlier_distinct: "sorted_wrt earlier fs \<Longrightarrow> distinct fs"
  by (induction fs) (auto simp: earlier_def)

lemma mset_in_two:
  fixes i j n :: nat
  assumes "i < n" "j < n" "i \<noteq> j" "x \<in># g i" "x \<in># g j"
  shows "1 < count (\<Sum>k<n. g k) x"
proof -
  have "(\<Sum>k<n. g k) = g i + (g j + (\<Sum>k \<in> {..<n} - {i} - {j}. g k))"
    using assms(1-3) sum.remove [of "{..<n}" i g] sum.remove [of "{..<n} - {i}" j g] by auto
  then show ?thesis using assms(4,5) by (simp add: count_greater_zero_iff [symmetric] del: count_greater_zero_iff)
qed

lemma share_disjoint:
  assumes "share_inv (p, tr)" "distinct (tr_popped tr)"
    "i < length (pl_workers p)" "j < length (pl_workers p)" "i \<noteq> j"
  shows "set (worker_share p tr i) \<inter> set (worker_share p tr j) = {}"
proof (rule ccontr)
  assume "\<not> ?thesis"
  then obtain f where "f \<in># mset (worker_share p tr i)" "f \<in># mset (worker_share p tr j)" by auto
  with assms(3-5) have "1 < count (\<Sum>k<length (pl_workers p). mset (worker_share p tr k)) f"
    by (intro mset_in_two)
  moreover have "count (\<Sum>k<length (pl_workers p). mset (worker_share p tr k)) f \<le> count (mset (tr_popped tr)) f"
    using assms(1) by (intro mset_subset_eq_count) (simp add: share_inv_def)
  moreover have "count (mset (tr_popped tr)) f \<le> 1"
    using assms(2) by (simp add: distinct_count_atmost_1)
  ultimately show False by simp
qed

context video_source begin

lemma frames_in_order:
  assumes "pipe_reachable cfg deps ops src (p, tr)" "seq_of src = 0"
    and "0 < pc_frame_queue_capacity cfg" "length (tr_pushed tr) < 2 ^ 64"
  shows "map fr_sequence (tr_pushed tr) = map of_nat [1..<Suc (length (tr_pushed tr))]"
    "i < length (pl_workers p) \<Longrightarrow> sorted_wrt earlier (worker_share p tr i)"
    "i < length (pl_workers p) \<Longrightarrow> j < length (pl_workers p) \<Longrightarrow> i \<noteq> j \<Longrightarrow>
       set (worker_share p tr i) \<inter> set (worker_share p tr j) = {}"
proof -
  let ?n = "length (tr_pushed tr)"
  let ?c = "capture_frames (pl_capture p)"
  have "map fr_sequence (tr_pushed tr @ ?c) = map of_nat [1..<Suc (length (tr_pushed tr @ ?c))]"
    using seq_inv_reachable [OF assms(1,2)] by (simp add: seq_inv_def Let_def)
  from arg_cong [OF this, of "take ?n"]
  show num: "map fr_sequence (tr_pushed tr) = map of_nat [1..<Suc ?n]"
    by (simp add: take_map take_upt del: upt_Suc)
  have sorted: "sorted_wrt earlier (tr_pushed tr)"
    by (rule numbered_earlier [OF num assms(4)])
  have "subseq (tr_popped tr @ cq_items (pl_frames p)) (tr_pushed tr)"
    using queue_inv_reachable [OF assms(1,3)] by (simp add: queue_inv_def history_inv_def)
  then have "subseq (tr_popped tr) (tr_pushed tr)"
    using subseq_order.order_trans subseq_rev_drop_many by blast
  then have popped: "sorted_wrt earlier (tr_popped tr)"
    using sorted sorted_wrt_subseq by blast
  have share: "share_inv (p, tr)" by (rule share_inv_reachable [OF assms(1)])
  show "sorted_wrt earlier (worker_share p tr i)" if "i < length (pl_workers p)"
    using share that popped sorted_wrt_subseq by (auto simp: share_inv_def)
  show "set (worker_share p tr i) \<inter> set (worker_share p tr j) = {}"
    if "i < length (pl_workers p)" "j < length (pl_workers p)" "i \<noteq> j"
    using share_disjoint [OF share sorted_earlier_distinct [OF popped] that] .
qed

end

text \<open>
  C13: Whatever the interleaving of the threads and however often the camera is reopened, the frames
  of an RTSP camera enter the queue numbered from one without a gap, each worker sees its frames in
  increasing order, no frame is given to two workers, and at most \<open>capacity\<close> frames wait.
\<close>

theorem camera_frames_in_order:
  assumes "pipe_reachable cfg deps (rtsp_ops api) (rtsp_new rcfg cap) (p, tr)"
    and "0 < pc_frame_queue_capacity cfg" "length (tr_pushed tr) < 2 ^ 64"
  shows "map fr_sequence (tr_pushed tr) = map of_nat [1..<Suc (length (tr_pushed tr))] \<and>
    (\<forall>i < length (pl_workers p). sorted_wrt earlier (worker_share p tr i)) \<and>
    (\<forall>i < length (pl_workers p). \<forall>j < length (pl_workers p). i \<noteq> j \<longrightarrow>
       set (worker_share p tr i) \<inter> set (worker_share p tr j) = {}) \<and>
    cq_size (pl_frames p) \<le> pc_frame_queue_capacity cfg"
proof -
  have seq: "rs_sequence (rtsp_new rcfg cap) = 0" by (simp add: rtsp_new_def)
  show ?thesis
    using rtsp.frames_in_order [OF assms(1) seq assms(2,3)] queue_inv_reachable [OF assms(1,2)]
    by (auto simp: queue_inv_def history_inv_def cq_size_def)
qed

lemma file_frames_in_order:
  assumes "pipe_reachable cfg deps (file_ops api) (file_new fcfg cap) (p, tr)"
    and "0 < pc_frame_queue_capacity cfg" "length (tr_pushed tr) < 2 ^ 64"
  shows "map fr_sequence (tr_pushed tr) = map of_nat [1..<Suc (length (tr_pushed tr))]"
  using video_file.frames_in_order [OF assms(1) _ assms(2,3)] by (simp add: file_new_def)

text \<open>
  C11: In the running system the cooldown holds for each worker: of the alerts a worker published, two
  of one forklift track are at least the cooldown apart, whatever the threads did.
\<close>

theorem worker_cooldown:
  assumes "pipe_reachable cfg deps ops src (p, tr)" "i < length (pl_workers p)"
    and "0 < pc_alert_cooldown_ms cfg"
  shows "sorted_wrt (apart cfg) (alerts_of (tr_out tr i))"
proof -
  obtain m where "inference_run cfg deps (tr_done tr i) Map.empty = Inr (m, tr_out tr i)"
    using worker_inv_reachable [OF assms(1)] assms(2) by (auto simp: worker_inv_def)
  then show ?thesis
    using inference_run_spaced [OF _ assms(3)] by blast
qed

subsection \<open>Executing a schedule\<close>

datatype move = Move_Capture int | Move_Worker nat time_ns | Move_Stop

fun pipe_move ::
  "pipeline_config \<Rightarrow> 'm pipeline_deps \<Rightarrow> ('s, 'm) source_ops \<Rightarrow> move \<Rightarrow>
   ('s, 'm) pipeline \<times> 'm trace \<Rightarrow> (('s, 'm) pipeline \<times> 'm trace) option"
where
  "pipe_move cfg deps ops (Move_Capture t) (p, tr) =
     map_option (\<lambda>p'. (p', trace_capture p p' tr)) (capture_step ops (t, t) p)"
| "pipe_move cfg deps ops (Move_Worker i ts) (p, tr) =
     (if i < length (pl_workers p)
      then map_option (\<lambda>(p', out). (p', trace_worker i 0 ts (pl_workers p ! i) (pl_workers p' ! i) out tr))
             (inference_step cfg deps 0 ts i p)
      else None)"
| "pipe_move cfg deps ops Move_Stop (p, tr) = map_option (\<lambda>p'. (p', tr)) (stop_step ops p)"

fun pipe_run ::
  "pipeline_config \<Rightarrow> 'm pipeline_deps \<Rightarrow> ('s, 'm) source_ops \<Rightarrow> move list \<Rightarrow>
   ('s, 'm) pipeline \<times> 'm trace \<Rightarrow> (('s, 'm) pipeline \<times> 'm trace) option"
where
  "pipe_run cfg deps ops [] h = Some h"
| "pipe_run cfg deps ops (m # ms) h =
     (case pipe_move cfg deps ops m h of None \<Rightarrow> None | Some h' \<Rightarrow> pipe_run cfg deps ops ms h')"

lemma pipe_move_step: "pipe_move cfg deps ops m h = Some h' \<Longrightarrow> pipe_step cfg deps ops h h'"
  by (induction cfg deps ops m h rule: pipe_move.induct)
    (auto intro: pipe_step.intros split: if_splits)

lemma pipe_run_reachable:
  "pipe_run cfg deps ops ms h = Some h' \<Longrightarrow> pipe_reachable cfg deps ops src h \<Longrightarrow>
   pipe_reachable cfg deps ops src h'"
proof (induction ms arbitrary: h)
  case (Cons m ms)
  from Cons.prems(1) obtain h1
    where h1: "pipe_move cfg deps ops m h = Some h1" "pipe_run cfg deps ops ms h1 = Some h'"
    by (auto split: option.splits)
  show ?case
    by (rule Cons.IH [OF h1(2) pipe_reachable.step [OF Cons.prems(2) pipe_move_step [OF h1(1)]]])
qed simp

text \<open>A camera that always delivers, two workers, and a schedule in which each gets a frame.\<close>

definition demo_api :: "(bool, unit) capture_api" where
  "demo_api =
     \<lparr>vc_open = (\<lambda>_ _. True), vc_open_ffmpeg = (\<lambda>_ _. True), vc_is_opened = (\<lambda>c. c),
      vc_release = (\<lambda>_. False), vc_set = (\<lambda>_ _ c. c), vc_get_fps = (\<lambda>_. Double_NaN),
      vc_read = (\<lambda>c. ((True, ()), c)), vc_mat_empty = (\<lambda>_. False)\<rparr>"

definition demo_config :: pipeline_config where
  "demo_config = default_pipeline_config\<lparr>pc_inference_workers := 2\<rparr>"

definition demo_moves :: "move list" where
  "demo_moves =
     [Move_Capture 0, Move_Capture 1, Move_Capture 2,
      Move_Worker 0 0, Move_Worker 0 0, Move_Worker 0 0,
      Move_Capture 3, Move_Capture 4,
      Move_Worker 1 0, Move_Worker 1 0, Move_Worker 1 0,
      Move_Worker 1 7, Move_Worker 0 5]"

definition demo_start :: "(bool rtsp_source, unit) pipeline \<times> unit trace" where
  "demo_start = (pl_start demo_config (pl_new demo_config (rtsp_new default_rtsp_config False)), no_trace)"

definition demo_state :: "(bool rtsp_source, unit) pipeline \<times> unit trace" where
  "demo_state = the (pipe_run demo_config demo_deps (rtsp_ops demo_api) demo_moves demo_start)"

lemma demo_facts:
  "case pipe_run demo_config demo_deps (rtsp_ops demo_api) demo_moves demo_start of
     None \<Rightarrow> False
   | Some (p, tr) \<Rightarrow>
       length (pl_workers p) = 2 \<and> length (tr_pushed tr) = 2 \<and>
       map fr_sequence (worker_share p tr 0) = [1] \<and> map fr_sequence (worker_share p tr 1) = [2] \<and>
       map al_timestamp (alerts_of (tr_out tr 0)) = [5] \<and> map al_timestamp (alerts_of (tr_out tr 1)) = [7] \<and>
       map al_forklift_track_id (alerts_of (tr_out tr 0)) = map al_forklift_track_id (alerts_of (tr_out tr 1))"
  by code_simp

lemma demo_reachable:
  obtains p tr where
    "pipe_reachable demo_config demo_deps (rtsp_ops demo_api) (rtsp_new default_rtsp_config False) (p, tr)"
    "length (pl_workers p) = 2" "length (tr_pushed tr) = 2"
    "map fr_sequence (worker_share p tr 0) = [1]" "map fr_sequence (worker_share p tr 1) = [2]"
    "map al_timestamp (alerts_of (tr_out tr 0)) = [5]" "map al_timestamp (alerts_of (tr_out tr 1)) = [7]"
    "map al_forklift_track_id (alerts_of (tr_out tr 0)) = map al_forklift_track_id (alerts_of (tr_out tr 1))"
proof -
  obtain p tr where run: "pipe_run demo_config demo_deps (rtsp_ops demo_api) demo_moves demo_start = Some (p, tr)"
    using demo_facts by (auto split: option.splits)
  have "pipe_reachable demo_config demo_deps (rtsp_ops demo_api) (rtsp_new default_rtsp_config False) demo_start"
    unfolding demo_start_def by (rule pipe_reachable.start)
  from pipe_run_reachable [OF run this] demo_facts run that show thesis by simp
qed

lemma demo_config_simps [simp]:
  "pc_frame_queue_capacity demo_config = 4" "pc_alert_cooldown_ms demo_config = 2000"
  "pc_inference_workers demo_config = 2"
  by (simp_all add: demo_config_def default_pipeline_config_def)

theorem camera_frames_in_order_witness:
  "\<exists>p tr. pipe_reachable demo_config demo_deps (rtsp_ops demo_api) (rtsp_new default_rtsp_config False) (p, tr) \<and>
     map fr_sequence (tr_pushed tr) = [1, 2] \<and> set (worker_share p tr 0) \<inter> set (worker_share p tr 1) = {}"
proof -
  obtain p tr where r: "pipe_reachable demo_config demo_deps (rtsp_ops demo_api)
      (rtsp_new default_rtsp_config False) (p, tr)"
    and n: "length (pl_workers p) = 2" "length (tr_pushed tr) = 2" by (rule demo_reachable)
  have len: "length (tr_pushed tr) < 2 ^ 64" using n(2) by simp
  note facts = camera_frames_in_order [OF r _ len]
  have "map fr_sequence (tr_pushed tr) = [1, 2]" using facts n(2) by (simp add: upt_rec)
  moreover have "set (worker_share p tr 0) \<inter> set (worker_share p tr 1) = {}" using facts n(1) by simp
  ultimately show ?thesis using r by (intro exI [of _ p] exI [of _ tr] conjI)
qed

theorem worker_cooldown_witness:
  "\<exists>p tr. pipe_reachable demo_config demo_deps (rtsp_ops demo_api) (rtsp_new default_rtsp_config False) (p, tr) \<and>
     length (alerts_of (tr_out tr 0)) = 1 \<and>
     sorted_wrt (apart demo_config) (alerts_of (tr_out tr 0))"
proof -
  obtain p tr where r: "pipe_reachable demo_config demo_deps (rtsp_ops demo_api)
      (rtsp_new default_rtsp_config False) (p, tr)"
    and n: "length (pl_workers p) = 2" "map al_timestamp (alerts_of (tr_out tr 0)) = [5]"
    by (rule demo_reachable)
  have "length (alerts_of (tr_out tr 0)) = 1" using arg_cong [OF n(2), of length] by simp
  with worker_cooldown [OF r, of 0] n r show ?thesis
    by (intro exI [of _ p] exI [of _ tr]) simp
qed

text \<open>
  The cooldown does not hold for the camera: with two inference workers, which the configuration
  allows, there is a run in which two alerts for one forklift track are published 2 ns apart, one by
  each worker, because each loop has its own map.
\<close>

theorem cooldown_is_per_worker:
  "\<exists>p tr a b. pipe_reachable demo_config demo_deps (rtsp_ops demo_api) (rtsp_new default_rtsp_config False) (p, tr) \<and>
     a \<in> set (alerts_of (tr_out tr 0)) \<and> b \<in> set (alerts_of (tr_out tr 1)) \<and>
     al_forklift_track_id a = al_forklift_track_id b \<and> al_timestamp b - al_timestamp a = 2 \<and>
     2 < pc_alert_cooldown_ms demo_config * 1000000"
proof -
  obtain p tr where r: "pipe_reachable demo_config demo_deps (rtsp_ops demo_api)
      (rtsp_new default_rtsp_config False) (p, tr)"
    and n: "map al_timestamp (alerts_of (tr_out tr 0)) = [5]" "map al_timestamp (alerts_of (tr_out tr 1)) = [7]"
    "map al_forklift_track_id (alerts_of (tr_out tr 0)) = map al_forklift_track_id (alerts_of (tr_out tr 1))"
    by (rule demo_reachable)
  obtain a where a: "alerts_of (tr_out tr 0) = [a]" "al_timestamp a = 5" using n(1) by auto
  obtain b where b: "alerts_of (tr_out tr 1) = [b]" "al_timestamp b = 7" using n(2) by auto
  show ?thesis
    using r a b n(3) by (intro exI [of _ p] exI [of _ tr] exI [of _ a] exI [of _ b]) simp
qed

subsection \<open>Stopping\<close>

definition capture_weight :: "'m capture_pc \<Rightarrow> nat" where
  "capture_weight c = (case c of Cap_Open \<Rightarrow> 2 | Cap_Push _ \<Rightarrow> 2 | Cap_Loop \<Rightarrow> 1 | _ \<Rightarrow> 0)"

definition worker_weight :: "'m worker_pc \<Rightarrow> nat" where
  "worker_weight w =
     (case w of Wk_Queued \<Rightarrow> 4 | Wk_Check _ \<Rightarrow> 3 | Wk_Pop _ \<Rightarrow> 5 | Wk_Frame _ _ \<Rightarrow> 4 | _ \<Rightarrow> 0)"

definition stop_weight :: "stop_pc \<Rightarrow> nat" where
  "stop_weight s = (case s of Stop_Close \<Rightarrow> 4 | Stop_Join \<Rightarrow> 3 | Stop_Shutdown \<Rightarrow> 2 | Stop_Source \<Rightarrow> 1 | _ \<Rightarrow> 0)"

definition stop_measure :: "('s, 'm) pipeline \<times> 'm trace \<Rightarrow> nat" where
  "stop_measure h = (case h of (p, tr) \<Rightarrow>
     capture_weight (pl_capture p) + sum_list (map worker_weight (pl_workers p)) + stop_weight (pl_stop p))"

definition stop_inv :: "pipeline_config \<Rightarrow> ('s, 'm) pipeline \<times> 'm trace \<Rightarrow> bool" where
  "stop_inv cfg h = (case h of (p, tr) \<Rightarrow>
     length (pl_workers p) = pc_inference_workers cfg \<and> pl_capture p \<noteq> Cap_Not_Started \<and>
     (pl_stop p = Stop_Idle \<longleftrightarrow> pl_running p) \<and>
     (pl_stop p \<notin> {Stop_Idle, Stop_Close} \<longrightarrow> cq_closed (pl_frames p)) \<and>
     (pl_stop p \<in> {Stop_Shutdown, Stop_Source, Stop_Returned} \<longrightarrow> pl_capture p = Cap_Exited) \<and>
     (pl_stop p \<in> {Stop_Source, Stop_Returned} \<longrightarrow> (\<forall>w \<in> set (pl_workers p). worker_finished w)))"

lemmas weight_defs = capture_weight_def worker_weight_def stop_weight_def

lemma sum_list_update_less:
  fixes xs :: "nat list"
  shows "i < length xs \<Longrightarrow> v < xs ! i \<Longrightarrow> sum_list (xs[i := v]) < sum_list xs"
  by (induction xs arbitrary: i) (auto split: nat.splits)

lemma worker_measure:
  assumes "i < length ws" "worker_weight w < worker_weight (ws ! i)"
  shows "sum_list (map worker_weight (ws[i := w])) < sum_list (map worker_weight ws)"
  using sum_list_update_less [of i "map worker_weight ws" "worker_weight w"] assms
  by (simp add: map_update)

lemma closed_kept:
  "cq_push f q = Returns b q' \<Longrightarrow> cq_closed q' = cq_closed q"
  "cq_pop_latest q = Returns r q' \<Longrightarrow> cq_closed q' = cq_closed q"
  by (auto simp: cq_push_def cq_pop_latest_eq split: if_splits list.splits)

lemma finished_stays:
  "inference_step cfg deps now ts i p = Some (p', out) \<Longrightarrow> \<not> worker_finished (pl_workers p ! i)"
  by (elim inference_step_cases) (auto simp: worker_finished_def)

lemma stop_inv_worker:
  assumes "stop_inv cfg (p, tr)" "inference_step cfg deps now ts i p = Some (p', out)"
    "i < length (pl_workers p)"
  shows "stop_inv cfg (p', tr')"
proof -
  have "pl_stop p \<notin> {Stop_Source, Stop_Returned}"
    using assms(1,3) finished_stays [OF assms(2)] nth_mem [OF assms(3)] by (auto simp: stop_inv_def)
  with assms(2,1) show ?thesis
    by (elim inference_step_cases) (auto simp: stop_inv_def closed_kept)
qed

lemma stop_inv_step:
  assumes "pipe_step cfg deps ops h h'" "stop_inv cfg h"
  shows "stop_inv cfg h'"
  using assms
proof (induction rule: pipe_step.induct)
  case (capture t p p' tr)
  then show ?case
    by (elim capture_step_cases disjE exE) (simp_all add: stop_inv_def closed_kept)
next
  case (stop p p' tr)
  then show ?case
    by (elim stop_step_cases) (simp_all add: stop_inv_def cq_close_def)
qed (rule stop_inv_worker)

lemma stop_inv_reachable: "pipe_reachable cfg deps ops src h \<Longrightarrow> stop_inv cfg h"
proof (induction rule: pipe_reachable.induct)
  case start
  then show ?case by (simp add: stop_inv_def pl_start_def pl_new_def)
qed (rule stop_inv_step)

definition stopping :: "('s, 'm) pipeline \<times> 'm trace \<Rightarrow> bool" where
  "stopping h = (pl_stop (fst h) \<noteq> Stop_Idle)"

lemma stopping_step:
  assumes "pipe_step cfg deps ops h h'" "stopping h" "stop_inv cfg h"
  shows "stopping h' \<and> stop_measure h' < stop_measure h"
  using assms
proof (induction rule: pipe_step.induct)
  case (capture t p p' tr)
  then show ?case
    by (elim capture_step_cases disjE exE) (simp_all add: stopping_def stop_measure_def weight_defs stop_inv_def)
next
  case (worker i p now ts p' out tr)
  have less: "sum_list (map worker_weight ((pl_workers p)[i := w])) < sum_list (map worker_weight (pl_workers p))"
    if "worker_weight w < worker_weight (pl_workers p ! i)" for w
    using worker_measure [OF worker(1) that] .
  have "\<not> pl_running p" "stopping (p, tr)" using worker(3,4) by (simp_all add: stopping_def stop_inv_def)
  with worker(2) show ?case
    by (elim inference_step_cases) (simp_all add: stopping_def stop_measure_def less worker_weight_def)
next
  case (stop p p' tr)
  then show ?case
    by (elim stop_step_cases) (simp_all add: stopping_def stop_measure_def weight_defs)
qed

text \<open>The capture thread does not fault when opening the source does not.\<close>

definition open_returns :: "('s, 'm) source_ops \<Rightarrow> bool" where
  "open_returns ops = (\<forall>now s. \<exists>r. so_open ops now s = Inr r)"

definition capture_sound :: "('s, 'm) pipeline \<Rightarrow> bool" where
  "capture_sound p = (\<forall>e. pl_capture p \<noteq> Cap_Faulted e)"

lemma cq_push_returns:
  assumes "cq_policy q = kDropOldestWhenFull" "0 < cq_capacity q"
  shows "\<exists>q'. cq_push f q = Returns True q'"
  using cq_push_drop [OF assms, of f] by blast

lemma capture_step_sound:
  assumes "capture_step ops t p = Some p'" "open_returns ops" "capture_sound p"
    "queue_inv cfg (p, tr)" "0 < pc_frame_queue_capacity cfg"
  shows "capture_sound p'"
proof -
  have opn: "so_open ops now s \<noteq> Inl e" for now s e
    using assms(2) unfolding open_returns_def by (metis Inr_not_Inl)
  then have iter: "capture_iter ops t s \<noteq> Inl e" for s e
    by (auto simp: capture_iter_def split: sum.splits option.splits prod.splits)
  have "cq_push f (pl_frames p) \<noteq> Faults e" for f e
    using cq_push_returns [of "pl_frames p" f] assms(4,5) by (auto simp: queue_inv_def history_inv_def)
  with opn iter assms(1,3) show ?thesis
    by (auto simp: capture_step_def capture_sound_def
        split: capture_pc.splits sum.splits if_splits op_result.splits option.splits)
qed

lemma capture_sound_reachable:
  assumes "pipe_reachable cfg deps ops src h" "open_returns ops" "0 < pc_frame_queue_capacity cfg"
  shows "capture_sound (fst h)"
  using assms(1)
proof (induction rule: pipe_reachable.induct)
  case start
  then show ?case by (simp add: capture_sound_def pl_start_def pl_new_def)
next
  case (step h h')
  note q = queue_inv_reachable [OF step.hyps(1) assms(3)]
  from step.hyps(2) step.IH q show ?case
  proof (induction rule: pipe_step.induct)
    case (capture t p p' tr)
    then show ?case using capture_step_sound [OF capture(1) assms(2) _ _ assms(3)] by simp
  next
    case (worker i p now ts p' out tr)
    have "pl_capture p' = pl_capture p" using worker(2) by (auto elim: inference_step_cases)
    with worker show ?case by (simp add: capture_sound_def)
  next
    case (stop p p' tr)
    have "pl_capture p' = pl_capture p" using stop(1) by (auto elim: stop_step_cases)
    with stop show ?case by (simp add: capture_sound_def)
  qed
qed

lemma worker_can_step:
  assumes "\<not> worker_finished (pl_workers p ! i)" "cq_closed (pl_frames p)"
  shows "\<exists>r. inference_step cfg deps now ts i p = Some r"
  using assms
  by (auto simp: inference_step_def worker_finished_def cq_pop_latest_eq split: worker_pc.splits sum.splits)

lemma step_keeps_stop:
  "capture_step ops t p = Some p' \<Longrightarrow> pl_stop p' = pl_stop p"
  "inference_step cfg deps now ts i p = Some (p', out) \<Longrightarrow> pl_stop p' = pl_stop p"
  by (auto elim!: capture_step_cases inference_step_cases)

lemma capture_can_step:
  assumes "pipe_reachable cfg deps ops src (p, tr)" "open_returns ops" "0 < pc_frame_queue_capacity cfg"
    and "\<not> pl_running p" "pl_capture p \<noteq> Cap_Exited"
  shows "capture_step ops (0, 0) p \<noteq> None"
proof -
  have "cq_policy (pl_frames p) = kDropOldestWhenFull" "0 < cq_capacity (pl_frames p)"
    using queue_inv_reachable [OF assms(1,3)] assms(3) by (auto simp: queue_inv_def history_inv_def)
  then have "\<exists>q. cq_push f (pl_frames p) = Returns True q" for f by (rule cq_push_returns)
  then have "cq_push f (pl_frames p) \<noteq> Waits" for f by (metis op_result.distinct(3))
  then show ?thesis
    using assms(4,5) stop_inv_reachable [OF assms(1)] capture_sound_reachable [OF assms(1-3)]
    by (auto simp: capture_step_def stop_inv_def capture_sound_def
        split: capture_pc.splits sum.splits op_result.splits)
qed

lemma stop_can_step:
  assumes r: "pipe_reachable cfg deps ops src (p, tr)" "open_returns ops" "0 < pc_frame_queue_capacity cfg"
    and stop: "pl_stop p \<noteq> Stop_Idle" "pl_stop p \<noteq> Stop_Returned"
  shows "\<exists>h'. pipe_step cfg deps ops (p, tr) h'"
proof -
  note inv = stop_inv_reachable [OF r(1)]
  have capture: "\<exists>h'. pipe_step cfg deps ops (p, tr) h'" if "capture_step ops t p \<noteq> None" for t
    using that pipe_step.capture by blast
  have stopper: "\<exists>h'. pipe_step cfg deps ops (p, tr) h'" if "stop_step ops p \<noteq> None"
    using that pipe_step.stop by blast
  show ?thesis
  proof (cases "pl_stop p")
    case Stop_Join
    have "\<not> pl_running p" using inv stop by (simp add: stop_inv_def)
    with capture_can_step [OF r] show ?thesis
      using capture stopper Stop_Join by (cases "pl_capture p = Cap_Exited") (auto simp: stop_step_def)
  next
    case Stop_Shutdown
    show ?thesis
    proof (cases "\<forall>w \<in> set (pl_workers p). worker_finished w")
      case False
      then obtain i where i: "i < length (pl_workers p)" "\<not> worker_finished (pl_workers p ! i)"
        by (metis in_set_conv_nth)
      have "cq_closed (pl_frames p)" using inv Stop_Shutdown by (simp add: stop_inv_def)
      from worker_can_step [OF i(2) this] obtain p' out where "inference_step cfg deps 0 0 i p = Some (p', out)"
        by fastforce
      with i(1) show ?thesis using pipe_step.worker by blast
    qed (use stopper Stop_Shutdown in \<open>auto simp: stop_step_def\<close>)
  qed (use stopper stop in \<open>auto simp: stop_step_def\<close>)
qed

lemma stop_measure_bound:
  "stop_inv cfg h \<Longrightarrow> stop_measure h \<le> 5 * pc_inference_workers cfg + 6"
proof -
  assume inv: "stop_inv cfg h"
  obtain p tr where h: "h = (p, tr)" by (cases h)
  have "sum_list (map worker_weight ws) \<le> 5 * length ws" for ws :: "'b worker_pc list"
    by (induction ws) (auto simp: worker_weight_def split: worker_pc.splits)
  then have "sum_list (map worker_weight (pl_workers p)) \<le> 5 * pc_inference_workers cfg"
    using inv h by (metis (mono_tags, lifting) case_prod_conv stop_inv_def)
  moreover have "capture_weight (pl_capture p) \<le> 2" "stop_weight (pl_stop p) \<le> 4"
    by (simp_all add: weight_defs split: capture_pc.splits stop_pc.splits)
  ultimately show ?thesis by (simp add: h stop_measure_def)
qed

lemma stop_run:
  assumes "(pipe_step cfg deps ops ^^ n) h h'" "pipe_reachable cfg deps ops src h" "stopping h"
  shows "pipe_reachable cfg deps ops src h' \<and> stopping h' \<and> n + stop_measure h' \<le> stop_measure h"
  using assms(1)
proof (induction n arbitrary: h')
  case 0
  then show ?case using assms(2,3) by simp
next
  case (Suc n)
  then obtain h1 where run: "(pipe_step cfg deps ops ^^ n) h h1" "pipe_step cfg deps ops h1 h'" by auto
  from Suc.IH [OF run(1)] have IH: "pipe_reachable cfg deps ops src h1" "stopping h1"
    "n + stop_measure h1 \<le> stop_measure h" by auto
  with stopping_step [OF run(2) IH(2) stop_inv_reachable [OF IH(1)]] run(2) show ?case
    by (auto intro: pipe_reachable.step)
qed

text \<open>
  Stop terminates, if the thread pool keeps its contract (\<open>Pool_Stop\<close> has the pool as it is): once
  \<open>stop\<close> has been called on the pipeline of an RTSP camera, in whatever state its threads were, at most \<open>5 W + 6\<close> further steps of any threads are possible for \<open>W\<close>
  workers, and when none is left \<open>stop\<close> has returned, the capture thread has exited and every
  worker is finished.
\<close>

theorem stop_terminates:
  assumes "pipe_reachable cfg deps (rtsp_ops api) (rtsp_new rcfg cap) (p, tr)"
    and "0 < pc_frame_queue_capacity cfg" "pl_stop p \<noteq> Stop_Idle"
    and "(pipe_step cfg deps (rtsp_ops api) ^^ n) (p, tr) (p', tr')"
  shows "n \<le> 5 * pc_inference_workers cfg + 6 \<and>
    ((\<nexists>h. pipe_step cfg deps (rtsp_ops api) (p', tr') h) \<longrightarrow>
       pl_stop p' = Stop_Returned \<and> pl_capture p' = Cap_Exited \<and>
       (\<forall>w \<in> set (pl_workers p'). worker_finished w))"
proof -
  have opn: "open_returns (rtsp_ops api)" by (simp add: open_returns_def rtsp_ops_def)
  have run: "pipe_reachable cfg deps (rtsp_ops api) (rtsp_new rcfg cap) (p', tr')"
    "pl_stop p' \<noteq> Stop_Idle" "n \<le> stop_measure (p, tr)"
    using stop_run [OF assms(4,1)] assms(3) by (auto simp: stopping_def)
  have "n \<le> 5 * pc_inference_workers cfg + 6"
    using run(3) stop_measure_bound [OF stop_inv_reachable [OF assms(1)]] by linarith
  moreover have "pl_stop p' = Stop_Returned" if "\<nexists>h. pipe_step cfg deps (rtsp_ops api) (p', tr') h"
    using stop_can_step [OF run(1) opn assms(2) run(2)] that by blast
  ultimately show ?thesis
    using stop_inv_reachable [OF run(1)] by (auto simp: stop_inv_def)
qed

definition demo_stop_moves :: "move list" where
  "demo_stop_moves = demo_moves @ [Move_Stop]"

definition demo_finish_moves :: "move list" where
  "demo_finish_moves =
     [Move_Stop, Move_Capture 0, Move_Worker 0 0, Move_Stop, Move_Worker 1 0, Move_Stop, Move_Stop]"

lemma demo_stop_facts:
  "case pipe_run demo_config demo_deps (rtsp_ops demo_api) demo_stop_moves demo_start of
     None \<Rightarrow> False
   | Some h \<Rightarrow> pl_stop (fst h) = Stop_Close \<and>
       (case pipe_run demo_config demo_deps (rtsp_ops demo_api) demo_finish_moves h of
          None \<Rightarrow> False | Some h' \<Rightarrow> pl_stop (fst h') = Stop_Returned)"
  by code_simp

lemma pipe_run_relpow:
  "pipe_run cfg deps ops ms h = Some h' \<Longrightarrow> (pipe_step cfg deps ops ^^ length ms) h h'"
proof (induction ms arbitrary: h)
  case (Cons m ms)
  from Cons.prems obtain h1
    where "pipe_move cfg deps ops m h = Some h1" "pipe_run cfg deps ops ms h1 = Some h'"
    by (auto split: option.splits)
  then have "(pipe_step cfg deps ops ^^ Suc (length ms)) h h'"
    by (intro relpowp_Suc_I2 [OF pipe_move_step Cons.IH])
  then show ?case by simp
qed simp

lemma demo_finish_length: "length demo_finish_moves = 7"
  by (simp add: demo_finish_moves_def)

theorem stop_terminates_witness:
  "\<exists>h h'. (pipe_step demo_config demo_deps (rtsp_ops demo_api) ^^ 7) h h' \<and> 7 \<le> 5 * (2::nat) + 6 \<and>
     pl_stop (fst h') = Stop_Returned"
proof -
  obtain p tr p' tr' where run: "pipe_run demo_config demo_deps (rtsp_ops demo_api) demo_stop_moves demo_start = Some (p, tr)"
      "pl_stop p = Stop_Close"
      "pipe_run demo_config demo_deps (rtsp_ops demo_api) demo_finish_moves (p, tr) = Some (p', tr')"
      "pl_stop p' = Stop_Returned"
    using demo_stop_facts by (auto split: option.splits)
  have "pipe_reachable demo_config demo_deps (rtsp_ops demo_api) (rtsp_new default_rtsp_config False) demo_start"
    unfolding demo_start_def by (rule pipe_reachable.start)
  note r = pipe_run_reachable [OF run(1) this]
  have steps: "(pipe_step demo_config demo_deps (rtsp_ops demo_api) ^^ 7) (p, tr) (p', tr')"
    using pipe_run_relpow [OF run(3)] unfolding demo_finish_length .
  from stop_terminates [OF r _ _ steps] run(2,4) steps show ?thesis
    by (intro exI [of _ "(p, tr)"] exI [of _ "(p', tr')"]) simp
qed

subsection \<open>Starting again\<close>

lemma closed_step:
  assumes "pipe_step cfg deps ops h h'" "cq_closed (pl_frames (fst h))"
  shows "cq_closed (pl_frames (fst h'))"
  using assms
proof (induction rule: pipe_step.induct)
  case (capture t p p' tr)
  then show ?case by (elim capture_step_cases) (auto simp: closed_kept)
next
  case (worker i p now ts p' out tr)
  from worker(2,3) show ?case by (elim inference_step_cases) (auto simp: closed_kept)
next
  case (stop p p' tr)
  then show ?case by (elim stop_step_cases) (auto simp: cq_close_def)
qed

text \<open>
  A pipeline that is started again after \<open>stop\<close> is not what it was: it runs, but its frame queue
  is closed for good, so that no worker ever waits for a frame and each that finds the queue empty
  ends, while the capture thread goes on.
\<close>

theorem restart_after_stop:
  assumes "pipe_reachable cfg deps ops src (p, tr)" "pl_stop p = Stop_Returned"
    and "(pipe_step cfg deps ops ^^ n) (pl_start cfg p, tr) (p', tr')"
  shows "pl_running (pl_start cfg p) \<and> cq_closed (pl_frames p') \<and>
    (pl_workers p' ! i = Wk_Pop m \<and> cq_items (pl_frames p') = [] \<longrightarrow>
       inference_step cfg deps now ts i p' = Some (set_worker i Wk_Done p', []))"
proof -
  have p: "\<not> pl_running p" "cq_closed (pl_frames p)"
    using stop_inv_reachable [OF assms(1)] assms(2) by (auto simp: stop_inv_def)
  have "(pipe_step cfg deps ops ^^ n) h h' \<Longrightarrow> cq_closed (pl_frames (fst h)) \<Longrightarrow> cq_closed (pl_frames (fst h'))"
    for n h h'
    by (induction n arbitrary: h') (auto dest: closed_step)
  from this [OF assms(3)] p have "cq_closed (pl_frames p')" by (simp add: pl_start_def)
  with p show ?thesis
    by (auto simp: pl_start_def inference_step_def cq_pop_latest_eq)
qed

theorem restart_after_stop_witness:
  "\<exists>p :: (bool rtsp_source, unit) pipeline. pl_stop p = Stop_Returned \<and>
     pl_running (pl_start demo_config p) \<and> cq_closed (pl_frames (pl_start demo_config p))"
proof -
  obtain h where run: "pipe_run demo_config demo_deps (rtsp_ops demo_api) demo_stop_moves demo_start = Some h"
    using demo_stop_facts by (auto split: option.splits)
  with demo_stop_facts obtain p tr
    where run': "pipe_run demo_config demo_deps (rtsp_ops demo_api) demo_finish_moves h = Some (p, tr)"
      "pl_stop p = Stop_Returned"
    by (auto split: option.splits)
  have "pipe_reachable demo_config demo_deps (rtsp_ops demo_api) (rtsp_new default_rtsp_config False) demo_start"
    unfolding demo_start_def by (rule pipe_reachable.start)
  note r = pipe_run_reachable [OF run'(1) pipe_run_reachable [OF run this]]
  have "(pipe_step demo_config demo_deps (rtsp_ops demo_api) ^^ 0) (pl_start demo_config p, tr) (pl_start demo_config p, tr)"
    by simp
  from restart_after_stop [OF r run'(2) this] run'(2) show ?thesis by blast
qed

end
