(* ===== verification/Pipeline_Pool.thy ===== *)
theory Pipeline_Pool
  imports Pipeline_Threads Thread_Pool
begin

text \<open>
  The pipeline on its real thread pool: \<^verbatim>\<open>FrameProcessingPipeline\<close> with the \<^verbatim>\<open>ThreadPool\<close> that runs its
  inference loops.  \<open>start\<close> creates the pool and submits one task per worker, the pool's threads take the
  tasks and run them, and \<open>stop\<close> calls \<^verbatim>\<open>shutdown\<close>, which notifies and joins the threads.
\<close>

subsection \<open>Steps\<close>

text \<open>Task \<open>i\<close> of the pool is the loop of worker \<open>i\<close>.\<close>

type_synonym ('s, 'm) pooled = "(('s, 'm) pipeline \<times> 'm trace) \<times> nat pool"

text \<open>\<open>start\<close> has submitted all tasks.  It returns before \<open>stop\<close> is called.\<close>

definition all_submitted :: "pipeline_config \<Rightarrow> nat pool \<Rightarrow> bool" where
  "all_submitted cfg s = (length (tp_submitted s) = pc_inference_workers cfg \<and> tp_notifies s = 0)"

definition take_task :: "nat \<Rightarrow> ('s, 'm) pipeline \<Rightarrow> ('s, 'm) pipeline" where
  "take_task i p = Pipeline.set_worker i (Wk_Check Map.empty) p"

text \<open>
  \<open>submit\<close>, the pool's own steps (the mutex, sleeping, exiting), a thread that takes a task, runs it and is finished with
  it, and the caller of \<open>stop\<close>, who is inside \<open>shutdown\<close> from \<open>Stop_Shutdown\<close> to the join.  A wake-up
  without a notification is allowed by C++ but cannot be relied on; \<open>spurious\<close> says whether there are any.
\<close>

inductive pool_step ::
  "bool \<Rightarrow> pipeline_config \<Rightarrow> 'm pipeline_deps \<Rightarrow> ('s, 'm) source_ops \<Rightarrow>
   ('s, 'm) pooled \<Rightarrow> ('s, 'm) pooled \<Rightarrow> bool"
  for spurious cfg deps ops
where
  capture: "capture_step ops t p = Some p' \<Longrightarrow>
    pool_step spurious cfg deps ops ((p, tr), s) ((p', trace_capture p p' tr), s)"
| submit: "length (tp_submitted s) < pc_inference_workers cfg \<Longrightarrow> tp_notifies s = 0 \<Longrightarrow> submit_step s s' \<Longrightarrow>
    tp_submitted s' = tp_submitted s @ [length (tp_submitted s)] \<Longrightarrow>
    pool_step spurious cfg deps ops (h, s) (h, s')"
| notify: "0 < tp_notifies s \<Longrightarrow> submit_step s s' \<Longrightarrow> tp_submitted s' = tp_submitted s \<Longrightarrow>
    pool_step spurious cfg deps ops (h, s) (h, s')"
| idle: "Thread_Pool.worker_step j s s' \<Longrightarrow> tp_started s' = tp_started s \<Longrightarrow>
    (\<And>i. tp_workers s j \<noteq> Running i) \<Longrightarrow> pool_step spurious cfg deps ops (h, s) (h, s')"
| take: "Thread_Pool.worker_step j s s' \<Longrightarrow> tp_started s' = tp_started s @ [i] \<Longrightarrow>
    pool_step spurious cfg deps ops ((p, tr), s) ((take_task i p, tr), s')"
| run: "j < tp_count s \<Longrightarrow> tp_workers s j = Running i \<Longrightarrow> i < length (pl_workers p) \<Longrightarrow>
    inference_step cfg deps now ts i p = Some (p', out) \<Longrightarrow>
    pool_step spurious cfg deps ops ((p, tr), s)
      ((p', trace_worker i now ts (pl_workers p ! i) (pl_workers p' ! i) out tr), s)"
| finished: "Thread_Pool.worker_step j s s' \<Longrightarrow> tp_workers s j = Running i \<Longrightarrow> worker_finished (pl_workers p ! i) \<Longrightarrow>
    pool_step spurious cfg deps ops ((p, tr), s) ((p, tr), s')"
| stop: "stop_step ops p = Some p' \<Longrightarrow> pl_stop p \<noteq> Stop_Shutdown \<Longrightarrow> (pl_stop p = Stop_Idle \<Longrightarrow> all_submitted cfg s) \<Longrightarrow>
    pool_step spurious cfg deps ops ((p, tr), s) ((p', tr), s)"
| shutdown: "pl_stop p = Stop_Shutdown \<Longrightarrow> shutdown_step s s' \<Longrightarrow>
    pool_step spurious cfg deps ops ((p, tr), s) ((p, tr), s')"
| joined: "pl_stop p = Stop_Shutdown \<Longrightarrow> tp_owner s = Joined \<Longrightarrow>
    pool_step spurious cfg deps ops ((p, tr), s) ((p\<lparr>pl_stop := Stop_Source\<rparr>, tr), s)"
| wake: "spurious \<Longrightarrow> i < tp_count s \<Longrightarrow> tp_workers s i = Asleep \<Longrightarrow>
    pool_step spurious cfg deps ops (h, s) (h, Thread_Pool.set_worker i Woken s)"

inductive pool_reachable ::
  "bool \<Rightarrow> pipeline_config \<Rightarrow> 'm pipeline_deps \<Rightarrow> ('s, 'm) source_ops \<Rightarrow> 's \<Rightarrow> ('s, 'm) pooled \<Rightarrow> bool"
  for spurious cfg deps ops src
where
  start: "pool_reachable spurious cfg deps ops src
    ((pl_start cfg (pl_new cfg src), no_trace), tp_new (pc_inference_workers cfg))"
| step: "pool_reachable spurious cfg deps ops src h \<Longrightarrow> pool_step spurious cfg deps ops h h' \<Longrightarrow>
    pool_reachable spurious cfg deps ops src h'"

subsection \<open>Refinement of the pipeline's own model\<close>

text \<open>A task that has not been taken is queued; one that has been taken is run by a thread or finished.\<close>

definition run_by :: "nat pool \<Rightarrow> nat \<Rightarrow> bool" where
  "run_by s i = (\<exists>j < tp_count s. tp_workers s j = Running i)"

definition tasks_inv :: "pipeline_config \<Rightarrow> 'm worker_pc list \<Rightarrow> nat pool \<Rightarrow> bool" where
  "tasks_inv cfg ws s =
     (tp_count s = pc_inference_workers cfg \<and> length ws = pc_inference_workers cfg \<and>
      length (tp_submitted s) \<le> pc_inference_workers cfg \<and>
      tp_submitted s = [0..<length (tp_submitted s)] \<and> tp_started s @ tp_tasks s = tp_submitted s \<and>
      (\<forall>i < length ws. i \<notin> set (tp_started s) \<longrightarrow> ws ! i = Wk_Queued) \<and>
      (\<forall>i \<in> set (tp_started s). ws ! i \<noteq> Wk_Queued \<and> (worker_finished (ws ! i) \<or> run_by s i)) \<and>
      (\<forall>i. run_by s i \<longrightarrow> i \<in> set (tp_started s)))"

text \<open>Where \<open>stop\<close> and \<open>shutdown\<close> are.\<close>

definition phase_inv :: "pipeline_config \<Rightarrow> stop_pc \<Rightarrow> nat pool \<Rightarrow> bool" where
  "phase_inv cfg sp s =
     ((sp \<noteq> Stop_Idle \<longrightarrow> all_submitted cfg s) \<and>
      (sp \<in> {Stop_Source, Stop_Returned} \<longrightarrow> tp_owner s = Joined) \<and>
      (sp \<notin> {Stop_Shutdown, Stop_Source, Stop_Returned} \<longrightarrow> tp_owner s = Not_Called) \<and>
      (tp_stop s \<longleftrightarrow> tp_owner s \<noteq> Not_Called) \<and>
      (tp_owner s = Joined \<longrightarrow> (\<forall>j < tp_count s. tp_workers s j = Exited)) \<and>
      (\<forall>j < tp_count s. tp_workers s j = Exited \<longrightarrow> tp_stop s \<and> tp_tasks s = []))"

text \<open>While a task waits a thread will look at the queue, also after the stop flag is set.\<close>

definition alert_inv :: "nat pool \<Rightarrow> bool" where
  "alert_inv s = (tp_tasks s \<noteq> [] \<longrightarrow> 0 < tp_notifies s \<or> (\<exists>j < tp_count s. active (tp_workers s j)))"

definition pooled_inv :: "pipeline_config \<Rightarrow> ('s, 'm) pooled \<Rightarrow> bool" where
  "pooled_inv cfg h = (case h of ((p, tr), s) \<Rightarrow>
     tasks_inv cfg (pl_workers p) s \<and> phase_inv cfg (pl_stop p) s \<and> mutex_inv s \<and> sleep_inv s \<and> alert_inv s)"


lemma run_by_update:
  assumes "tp_workers s' = (tp_workers s)(j := w)" "tp_count s' = tp_count s"
  shows "run_by s' i \<longleftrightarrow> j < tp_count s \<and> w = Running i \<or> (\<exists>k < tp_count s. k \<noteq> j \<and> tp_workers s k = Running i)"
  unfolding run_by_def assms fun_upd_apply by metis

lemma tasks_inv_same:
  assumes "tasks_inv cfg ws s" "tp_count s' = tp_count s" "tp_submitted s' = tp_submitted s"
    "tp_started s' = tp_started s" "tp_tasks s' = tp_tasks s"
    "\<And>j i. tp_workers s' j = Running i \<longleftrightarrow> tp_workers s j = Running i"
  shows "tasks_inv cfg ws s'"
proof -
  have "run_by s' = run_by s" using assms(2,6) by (simp add: run_by_def fun_eq_iff)
  with assms(1-5) show ?thesis by (simp add: tasks_inv_def)
qed

text \<open>Case rules for what the pool's threads do.\<close>

lemma idle_cases:
  assumes "Thread_Pool.worker_step j s s'" "tp_started s' = tp_started s" "\<And>i. tp_workers s j \<noteq> Running i"
  obtains w m where "s' = Thread_Pool.set_worker j w s\<lparr>tp_mutex := m\<rparr>" "j < tp_count s"
    "w \<in> {Testing, Falling_Asleep, Asleep, Exited}" "w = Exited \<longrightarrow> tp_stop s \<and> tp_tasks s = []"
    "tp_workers s j \<noteq> Exited"
  using assms
proof cases
  case sleep
  then show thesis
    by (intro that [where w = Falling_Asleep and m = "tp_mutex s"]) (simp_all add: Thread_Pool.set_worker_def)
qed (auto intro: that)

lemma take_cases:
  assumes "Thread_Pool.worker_step j s s'" "tp_started s' = tp_started s @ [i]"
  obtains ts where "tp_tasks s = i # ts" "j < tp_count s" "tp_workers s j = Testing"
    "s' = Thread_Pool.set_worker j (Running i) s\<lparr>tp_mutex := None, tp_tasks := ts, tp_started := tp_started s @ [i]\<rparr>"
  using assms by cases auto

lemma finished_cases:
  assumes "Thread_Pool.worker_step j s s'" "tp_workers s j = Running i"
  obtains "j < tp_count s" "s' = Thread_Pool.set_worker j Top s"
  using assms by cases auto

lemma notify_cases:
  assumes "submit_step s s'" "tp_submitted s' = tp_submitted s"
  obtains n i where "tp_notifies s = Suc n" "i < tp_count s" "tp_workers s i = Asleep"
      "s' = Thread_Pool.set_worker i Woken s\<lparr>tp_notifies := n\<rparr>"
    | n where "tp_notifies s = Suc n" "\<forall>i < tp_count s. tp_workers s i \<noteq> Asleep" "s' = s\<lparr>tp_notifies := n\<rparr>"
  using assms by cases auto

lemma submit_cases:
  assumes "submit_step s s'" "tp_submitted s' = tp_submitted s @ [t]"
  obtains "tp_mutex s = None" "s' = s\<lparr>tp_tasks := tp_tasks s @ [t], tp_submitted := tp_submitted s @ [t],
      tp_notifies := Suc (tp_notifies s)\<rparr>"
  using assms by cases auto

lemma tasks_inv_take:
  assumes "Thread_Pool.worker_step j s s'" "tp_started s' = tp_started s @ [i]" "tasks_inv cfg ws s"
  shows "tasks_inv cfg (ws[i := Wk_Check Map.empty]) s'" "ws ! i = Wk_Queued" "i < length ws"
proof -
  from assms(1,2) obtain ts where ts: "tp_tasks s = i # ts" "j < tp_count s" "tp_workers s j = Testing"
    "s' = Thread_Pool.set_worker j (Running i) s\<lparr>tp_mutex := None, tp_tasks := ts, tp_started := tp_started s @ [i]\<rparr>"
    by (rule take_cases)
  let ?k = "length (tp_submitted s)"
  have all: "tp_started s @ i # ts = [0..<?k]" "?k \<le> length ws"
    using assms(3) ts(1) by (auto simp: tasks_inv_def)
  then have "distinct (tp_started s @ i # ts)" "i \<in> set [0..<?k]"
    by (metis distinct_upt, metis in_set_conv_decomp)
  then have i: "i \<notin> set (tp_started s)" "i < length ws" using all(2) by auto
  with assms(3) show "ws ! i = Wk_Queued" "i < length ws" by (simp_all add: tasks_inv_def)
  have "run_by s' i' \<longleftrightarrow> i' = i \<or> (\<exists>k < tp_count s. k \<noteq> j \<and> tp_workers s k = Running i')" for i'
    using ts(2) run_by_update [of s' s j "Running i" i'] by (auto simp: ts(4))
  moreover have "(\<exists>k < tp_count s. k \<noteq> j \<and> tp_workers s k = Running i') \<longleftrightarrow> run_by s i'" for i'
    using ts(3) by (auto simp: run_by_def)
  ultimately have "run_by s' i' \<longleftrightarrow> i' = i \<or> run_by s i'" for i' by simp
  with assms(3) i ts(1) show "tasks_inv cfg (ws[i := Wk_Check Map.empty]) s'"
    by (auto simp: tasks_inv_def ts(4) nth_list_update)
qed

lemma tasks_inv_finished:
  assumes "Thread_Pool.worker_step j s s'" "tp_workers s j = Running i" "worker_finished (ws ! i)" "tasks_inv cfg ws s"
  shows "tasks_inv cfg ws s'"
proof -
  from assms(1,2) have s': "j < tp_count s" "s' = Thread_Pool.set_worker j Top s"
    by (auto elim: finished_cases)
  have run: "run_by s' i' \<longleftrightarrow> (\<exists>k < tp_count s. k \<noteq> j \<and> tp_workers s k = Running i')" for i'
    using run_by_update [of s' s j Top i'] by (simp add: s'(2))
  have "run_by s' i' \<Longrightarrow> run_by s i'" for i' unfolding run by (auto simp: run_by_def)
  moreover have "run_by s i' \<Longrightarrow> i' = i \<or> run_by s' i'" for i'
    unfolding run using assms(2) by (auto simp: run_by_def)
  ultimately show ?thesis using assms(3,4) s'(2) unfolding tasks_inv_def by auto
qed

lemma tasks_inv_submit:
  assumes "submit_step s s'" "tp_submitted s' = tp_submitted s @ [length (tp_submitted s)]"
    "length (tp_submitted s) < pc_inference_workers cfg" "tasks_inv cfg ws s"
  shows "tasks_inv cfg ws s'"
proof -
  from assms(1,2) have s': "s' = s\<lparr>tp_tasks := tp_tasks s @ [length (tp_submitted s)],
      tp_submitted := tp_submitted s @ [length (tp_submitted s)], tp_notifies := Suc (tp_notifies s)\<rparr>"
    by (rule submit_cases)
  have "tp_submitted s = [0..<length (tp_submitted s)]" using assms(4) by (simp add: tasks_inv_def)
  then have "[0..<Suc (length (tp_submitted s))] = tp_submitted s @ [length (tp_submitted s)]" by simp
  moreover have "run_by s' = run_by s" by (simp add: run_by_def s' fun_eq_iff)
  ultimately show ?thesis using assms(3,4) by (simp add: tasks_inv_def s' del: upt_Suc)
qed

lemma inference_step_moved:
  assumes "inference_step cfg deps now ts i p = Some (p', out)" "i < length (pl_workers p)"
  shows "pl_workers p' ! i \<noteq> Wk_Queued" "k \<noteq> i \<Longrightarrow> pl_workers p' ! k = pl_workers p ! k"
    "length (pl_workers p') = length (pl_workers p)"
  using assms by (auto elim!: inference_step_cases simp: nth_list_update split: if_splits)

lemma tasks_inv_run:
  assumes "j < tp_count s" "tp_workers s j = Running i" "i < length (pl_workers p)"
    "inference_step cfg deps now ts i p = Some (p', out)" "tasks_inv cfg (pl_workers p) s"
  shows "tasks_inv cfg (pl_workers p') s" "pl_workers p ! i \<noteq> Wk_Queued"
proof -
  have run: "run_by s i" using assms(1,2) by (auto simp: run_by_def)
  with assms(5) have i: "i \<in> set (tp_started s)" by (simp add: tasks_inv_def)
  with assms(5) show "pl_workers p ! i \<noteq> Wk_Queued" by (simp add: tasks_inv_def)
  note moved = inference_step_moved [OF assms(4,3)]
  have "pl_workers p' ! i' \<noteq> Wk_Queued \<and> (worker_finished (pl_workers p' ! i') \<or> run_by s i')"
    if "i' \<in> set (tp_started s)" for i'
    using that assms(5) run moved(1) moved(2) [of i'] by (cases "i' = i") (auto simp: tasks_inv_def)
  moreover have "pl_workers p' ! i' = Wk_Queued" if "i' \<notin> set (tp_started s)" "i' < length (pl_workers p)" for i'
    using that assms(5) i moved(2) [of i'] by (cases "i' = i") (auto simp: tasks_inv_def)
  ultimately show "tasks_inv cfg (pl_workers p') s"
    using assms(5) moved(3) by (simp add: tasks_inv_def)
qed

lemma tasks_inv_step:
  assumes "pool_step spurious cfg deps ops ((p, tr), s) ((p', tr'), s')" "tasks_inv cfg (pl_workers p) s"
  shows "tasks_inv cfg (pl_workers p') s'"
  using assms(1)
proof cases
  case (capture t)
  then have "pl_workers p' = pl_workers p" by (auto elim: capture_step_cases)
  with capture assms(2) show ?thesis by simp
next
  case submit
  with tasks_inv_submit [OF _ _ _ assms(2)] show ?thesis by simp
next
  case notify
  from notify(4,5) show ?thesis
    using notify(1,2) by (elim notify_cases) (auto intro!: tasks_inv_same [OF assms(2)] split: if_splits)
next
  case (idle j)
  from idle(3-5) obtain w m where s': "s' = Thread_Pool.set_worker j w s\<lparr>tp_mutex := m\<rparr>"
    "w \<in> {Testing, Falling_Asleep, Asleep, Exited}" using idle_cases by metis
  have "tp_workers s' j' = Running i \<longleftrightarrow> tp_workers s j' = Running i" for j' i
    using idle(5) [of i] s'(2) by (auto simp: s'(1))
  with s'(1) idle(1) show ?thesis by (simp add: tasks_inv_same [OF assms(2)])
next
  case (take j i)
  with tasks_inv_take(1) [OF _ _ assms(2)] show ?thesis by (simp add: take_task_def)
next
  case (run j i now ts out)
  with tasks_inv_run(1) [OF _ _ _ _ assms(2)] show ?thesis by simp
next
  case (finished j i)
  with tasks_inv_finished [OF _ _ _ assms(2)] show ?thesis by simp
next
  case stop
  then have "pl_workers p' = pl_workers p" by (auto elim: stop_step_cases)
  with stop assms(2) show ?thesis by simp
next
  case shutdown
  from shutdown(4) show ?thesis
    by cases (use shutdown(1,2) assms(2) in \<open>auto intro!: tasks_inv_same [OF assms(2)] split: if_splits\<close>)
next
  case joined
  with assms(2) show ?thesis by simp
next
  case (wake i)
  then show ?thesis by (auto intro!: tasks_inv_same [OF assms(2)] split: if_splits)
qed


lemma mutex_inv_step:
  assumes "pool_step spurious cfg deps ops (h, s) (h', s')" "mutex_inv s"
  shows "mutex_inv s'"
proof -
  have submit: "mutex_inv s'" if "submit_step s s'"
    using that assms(2) by cases (auto simp: mutex_inv_def)
  from assms(1) show ?thesis
  proof cases
    case (shutdown p tr)
    from shutdown(4) assms(2) show ?thesis by cases (auto simp: mutex_inv_def)
  next
    case (wake i)
    with assms(2) show ?thesis by (auto simp: mutex_inv_def)
  qed (use assms(2) submit mutex_inv_worker in auto)
qed

lemma phase_inv_step:
  assumes "pool_step spurious cfg deps ops ((p, tr), s) ((p', tr'), s')" "phase_inv cfg (pl_stop p) s"
  shows "phase_inv cfg (pl_stop p') s'"
  using assms(1)
proof cases
  case (capture t)
  with step_keeps_stop(1) assms(2) show ?thesis by metis
next
  case submit
  then have "pl_stop p = Stop_Idle" using assms(2) by (auto simp: phase_inv_def all_submitted_def)
  moreover have "tp_owner s' = tp_owner s" "tp_workers s' = tp_workers s" "tp_stop s' = tp_stop s" "tp_count s' = tp_count s"
    using submit(5,6) by (auto elim: submit_cases)
  ultimately show ?thesis using submit(1) assms(2) by (auto simp: phase_inv_def)
next
  case notify
  then have "pl_stop p = Stop_Idle" using assms(2) by (auto simp: phase_inv_def all_submitted_def)
  from notify(4,5) this notify(1) assms(2) show ?thesis
    by (elim notify_cases) (auto simp: phase_inv_def split: if_splits)
next
  case (idle j)
  from idle(3-5) obtain w m where s': "s' = Thread_Pool.set_worker j w s\<lparr>tp_mutex := m\<rparr>" "j < tp_count s"
    "w = Exited \<longrightarrow> tp_stop s \<and> tp_tasks s = []" "tp_workers s j \<noteq> Exited" using idle_cases by metis
  with assms(2) idle(1) show ?thesis by (auto simp: phase_inv_def all_submitted_def)
next
  case (take j i)
  from take(3,4) obtain ts where ts: "tp_tasks s = i # ts" "j < tp_count s" "tp_workers s j = Testing"
    "s' = Thread_Pool.set_worker j (Running i) s\<lparr>tp_mutex := None, tp_tasks := ts, tp_started := tp_started s @ [i]\<rparr>"
    by (rule take_cases)
  with assms(2) take(1) show ?thesis
    by (auto simp: phase_inv_def all_submitted_def take_task_def Pipeline.set_worker_def)
next
  case (run j i now ts out)
  with step_keeps_stop(2) assms(2) show ?thesis by metis
next
  case (finished j i)
  then have "s' = Thread_Pool.set_worker j Top s" "j < tp_count s" by (auto elim: finished_cases)
  with assms(2) finished(1,4) show ?thesis by (auto simp: phase_inv_def all_submitted_def)
next
  case stop
  from stop(3) assms(2) stop(1,2,4,5) show ?thesis
    by (elim stop_step_cases) (auto simp: phase_inv_def)
next
  case shutdown
  from shutdown(4) assms(2) shutdown(1,3) show ?thesis
    by cases (auto simp: phase_inv_def all_submitted_def)
next
  case joined
  with assms(2) show ?thesis by (auto simp: phase_inv_def)
next
  case (wake i)
  with assms(2) show ?thesis by (auto simp: phase_inv_def all_submitted_def)
qed

lemma sleep_inv_step:
  assumes "pool_step spurious cfg deps ops (h, s) (h', s')" "mutex_inv s" "sleep_inv s"
  shows "sleep_inv s'"
proof -
  have submit: "sleep_inv s'" if "submit_step s s'"
    using that assms(2,3) by cases (auto simp: sleep_inv_def mutex_inv_def holds_mutex_def)
  from assms(1) show ?thesis
  proof cases
    case (shutdown p tr)
    from shutdown(4) assms(3) show ?thesis by cases (auto simp: sleep_inv_def)
  next
    case (wake i)
    with assms(3) show ?thesis by (auto simp: sleep_inv_def)
  qed (use assms(2,3) submit sleep_inv_worker in auto)
qed

lemma active_update:
  assumes "\<exists>j < n. active (f j)" "active (f k) \<Longrightarrow> active w"
  shows "\<exists>j < n. active ((f(k := w)) j)"
  using assms by (metis fun_upd_apply)

lemma alert_inv_step:
  assumes step: "pool_step spurious cfg deps ops ((p, tr), s) ((p', tr'), s')"
    and inv: "sleep_inv s" "alert_inv s" "tasks_inv cfg (pl_workers p) s" "phase_inv cfg (pl_stop p) s"
  shows "alert_inv s'"
  using step
proof cases
  case submit
  from submit(5,6) show ?thesis by (elim submit_cases) (auto simp: alert_inv_def)
next
  case notify
  from notify(4,5) show ?thesis
  proof (rule notify_cases)
    fix n i assume "tp_notifies s = Suc n" "i < tp_count s" "tp_workers s i = Asleep"
      "s' = Thread_Pool.set_worker i Woken s\<lparr>tp_notifies := n\<rparr>"
    then show ?thesis by (auto simp: alert_inv_def)
  next
    fix n assume n: "\<forall>i < tp_count s. tp_workers s i \<noteq> Asleep" "s' = s\<lparr>tp_notifies := n\<rparr>"
    have "\<exists>j < tp_count s. active (tp_workers s j)" if "tp_tasks s \<noteq> []"
    proof -
      have "0 < length (tp_started s @ tp_tasks s)" using that by simp
      then have "0 < length (tp_submitted s)" using inv(3) unfolding tasks_inv_def by metis
      moreover have "length (tp_submitted s) \<le> tp_count s" using inv(3) by (simp add: tasks_inv_def)
      ultimately have "0 < tp_count s" by linarith
      moreover from this have "tp_workers s 0 \<noteq> Asleep" "tp_workers s 0 \<noteq> Falling_Asleep" "tp_workers s 0 \<noteq> Exited"
        using n(1) that inv(1,4) by (auto simp: sleep_inv_def phase_inv_def)
      then have "active (tp_workers s 0)" by (cases "tp_workers s 0") auto
      ultimately show ?thesis by blast
    qed
    with n(2) show ?thesis by (simp add: alert_inv_def)
  qed
next
  case (idle j)
  show ?thesis using idle(3)
  proof cases
    case (finish t)
    with idle(5) show ?thesis by blast
  next
    case lock
    with inv(2) show ?thesis by (auto simp: alert_inv_def intro!: active_update)
  next
    case block
    with inv(1,2) show ?thesis by (auto simp: alert_inv_def sleep_inv_def)
  qed (auto simp: alert_inv_def)
next
  case (take j i)
  from take(3,4) obtain ts where "j < tp_count s"
    "s' = Thread_Pool.set_worker j (Running i) s\<lparr>tp_mutex := None, tp_tasks := ts, tp_started := tp_started s @ [i]\<rparr>"
    by (rule take_cases)
  then show ?thesis by (auto simp: alert_inv_def)
next
  case (finished j i)
  then have "s' = Thread_Pool.set_worker j Top s" "j < tp_count s" by (auto elim: finished_cases)
  then show ?thesis by (auto simp: alert_inv_def)
next
  case shutdown
  from shutdown(4) inv(2) show ?thesis by cases (auto simp: alert_inv_def)
next
  case (wake i)
  then show ?thesis by (auto simp: alert_inv_def)
qed (use inv(2) in auto)

lemma pooled_inv_reachable: "pool_reachable spurious cfg deps ops src h \<Longrightarrow> pooled_inv cfg h"
proof (induction rule: pool_reachable.induct)
  case start
  show ?case
    by (simp add: pooled_inv_def tasks_inv_def phase_inv_def mutex_inv_def run_by_def tp_new_def pl_start_def pl_new_def
        all_submitted_def sleep_inv_def alert_inv_def)
next
  case (step h h')
  obtain p tr s p' tr' s' where h: "h = ((p, tr), s)" "h' = ((p', tr'), s')" by (metis surj_pair)
  from step(2,3) tasks_inv_step [of spurious cfg deps ops p tr s p' tr' s']
    phase_inv_step [of spurious cfg deps ops p tr s p' tr' s'] mutex_inv_step [of spurious cfg deps ops "(p, tr)" s "(p', tr')" s']
    sleep_inv_step [of spurious cfg deps ops "(p, tr)" s "(p', tr')" s']
    alert_inv_step [of spurious cfg deps ops p tr s p' tr' s']
  show ?case by (simp add: pooled_inv_def h)
qed

text \<open>When the threads have been joined all workers are finished.\<close>

lemma joined_finished:
  assumes "pooled_inv cfg ((p, tr), s)" "pl_stop p = Stop_Shutdown" "tp_owner s = Joined" "w \<in> set (pl_workers p)"
  shows "worker_finished w"
proof -
  have inv: "tasks_inv cfg (pl_workers p) s" "phase_inv cfg (pl_stop p) s" using assms(1) by (simp_all add: pooled_inv_def)
  obtain i where i: "i < length (pl_workers p)" "w = pl_workers p ! i" using assms(4) by (metis in_set_conv_nth)
  have n: "length (pl_workers p) = tp_count s" "length (tp_submitted s) = tp_count s"
    using inv assms(2) by (auto simp: tasks_inv_def phase_inv_def all_submitted_def)
  have exited: "tp_workers s j = Exited" if "j < tp_count s" for j
    using inv(2) assms(3) that by (simp add: phase_inv_def)
  with i(1) n(1) inv(2) have "tp_tasks s = []" by (auto simp: phase_inv_def)
  then have "tp_started s = [0..<tp_count s]" using inv(1) n(2) by (simp add: tasks_inv_def)
  then have "worker_finished (pl_workers p ! i) \<or> run_by s i" using inv(1) i(1) n(1) by (auto simp: tasks_inv_def)
  moreover have "\<not> run_by s i" using exited by (auto simp: run_by_def)
  ultimately show ?thesis using i(2) by simp
qed

text \<open>A step of the pool is a step of the pipeline or none.\<close>

lemma pool_step_simulated:
  assumes "pool_step spurious cfg deps ops (h, s) (h', s')" "pooled_inv cfg (h, s)"
  shows "h' = h \<or> pipe_step cfg deps ops h h'"
  using assms(1)
proof cases
  case (take j i p tr)
  have inv: "tasks_inv cfg (pl_workers p) s" using assms(2) take(1) by (simp add: pooled_inv_def)
  note t = tasks_inv_take(2,3) [OF take(3,4) inv]
  then have "inference_step cfg deps 0 0 i p = Some (take_task i p, [])"
    by (simp add: inference_step_def take_task_def)
  from pipe_step.worker [OF t(2) this, of ops tr] t take(1,2) show ?thesis
    by (simp add: take_task_def trace_worker_def Pipeline.set_worker_def)
next
  case (joined p tr)
  have "stop_step ops p = Some (p\<lparr>pl_stop := Stop_Source\<rparr>)"
    using joined_finished [OF assms(2) [unfolded joined(1)] joined(4,5)] joined(4) by (simp add: stop_step_def)
  with joined(1,2) show ?thesis by (auto intro: pipe_step.stop)
qed (auto intro: pipe_step.intros)

lemma pool_step_pool:
  assumes "pool_step spurious cfg deps ops (h, s) (h', s')"
  shows "s' = s \<or> tp_step s s'"
  using assms by cases (auto intro: tp_step.intros)


lemma pooled_inv_n: "pool_reachable spurious cfg deps ops src (h, s) \<Longrightarrow> tp_count s = pc_inference_workers cfg"
  using pooled_inv_reachable [of spurious cfg deps ops src "(h, s)"]
  by (cases h) (simp add: pooled_inv_def tasks_inv_def)

lemma pool_refines:
  assumes "pool_reachable spurious cfg deps ops src ((p, tr), s)"
  shows "pipe_reachable cfg deps ops src (p, tr) \<and> tp_reachable (pc_inference_workers cfg) s \<and>
    tasks_inv cfg (pl_workers p) s"
proof -
  have "pipe_reachable cfg deps ops src (fst h) \<and> tp_reachable (pc_inference_workers cfg) (snd h)"
    if "pool_reachable spurious cfg deps ops src h" for h
    using that
  proof (induction rule: pool_reachable.induct)
    case start
    show ?case by (simp add: pipe_reachable.start tp_reachable.start)
  next
    case (step h h')
    obtain x s x' s' where h: "h = (x, s)" "h' = (x', s')" by (metis surj_pair)
    from pool_step_simulated [OF step(2) [unfolded h]] pooled_inv_reachable [OF step(1)] h
    have "x' = x \<or> pipe_step cfg deps ops x x'" by simp
    with pool_step_pool [OF step(2) [unfolded h]] step(3) h show ?case
      by (auto intro: pipe_reachable.step tp_reachable.step)
  qed
  from this [OF assms] pooled_inv_reachable [OF assms] show ?thesis by (simp add: pooled_inv_def)
qed

end
