(* ===== verification/Pool_Stop.thy ===== *)
theory Pool_Stop
  imports Pipeline_Pool
begin

text \<open>
  Stopping a pipeline on its thread pool: what \<open>stop\<close> has left to do, the only way in which it does
  not return, and a run that shows it.
\<close>

subsection \<open>Stopping on the pool\<close>

text \<open>
  What is left to do after \<open>stop\<close> has been called: the steps of the pipeline, four for each waiting task, and
  those of the threads and the joiner.  Once all have been notified a sleeping thread has nothing to do.
\<close>

definition notified :: "nat pool \<Rightarrow> bool" where
  "notified s = (tp_owner s \<in> {Joining, Joined})"

definition thread_weight :: "bool \<Rightarrow> nat Thread_Pool.worker \<Rightarrow> nat" where
  "thread_weight b w = (case w of
     Exited \<Rightarrow> 0
   | Asleep \<Rightarrow> if b then 0 else 3
   | Falling_Asleep \<Rightarrow> if b then 1 else 4
   | Testing \<Rightarrow> if b then 2 else 5
   | Top \<Rightarrow> if b then 3 else 6
   | Woken \<Rightarrow> if b then 3 else 6
   | Running i \<Rightarrow> if b then 4 else 7)"

definition owner_weight :: "owner \<Rightarrow> nat" where
  "owner_weight w = (case w of Not_Called \<Rightarrow> 3 | Stop_Set \<Rightarrow> 2 | Joining \<Rightarrow> 1 | Joined \<Rightarrow> 0)"

definition pool_measure :: "('s, 'm) pooled \<Rightarrow> nat" where
  "pool_measure h = (case h of (x, s) \<Rightarrow>
     stop_measure x + 4 * length (tp_tasks s) +
     (\<Sum>j < tp_count s. thread_weight (notified s) (tp_workers s j)) + owner_weight (tp_owner s))"

lemma thread_weight_simps [simp]:
  "thread_weight b Exited = 0" "thread_weight b Asleep = (if b then 0 else 3)"
  "thread_weight b Falling_Asleep = (if b then 1 else 4)" "thread_weight b Testing = (if b then 2 else 5)"
  "thread_weight b Top = (if b then 3 else 6)" "thread_weight b Woken = (if b then 3 else 6)"
  "thread_weight b (Running i) = (if b then 4 else 7)"
  by (simp_all add: thread_weight_def)

lemma sum_update_weight:
  fixes f :: "nat \<Rightarrow> nat Thread_Pool.worker"
  assumes "j < n"
  shows "(\<Sum>k < n. thread_weight b ((f(j := w)) k)) + thread_weight b (f j) =
    (\<Sum>k < n. thread_weight b (f k)) + thread_weight b w"
proof -
  have "(\<Sum>k < n. thread_weight b (g k)) = thread_weight b (g j) + (\<Sum>k \<in> {..<n} - {j}. thread_weight b (g k))" for g
    using assms by (simp add: sum.remove)
  from this [of f] this [of "f(j := w)"] show ?thesis by simp
qed

lemma worker_measure_step:
  assumes "Thread_Pool.worker_step j s s'"
  shows "4 * length (tp_tasks s') + (\<Sum>k < tp_count s'. thread_weight (notified s') (tp_workers s' k)) <
    4 * length (tp_tasks s) + (\<Sum>k < tp_count s. thread_weight (notified s) (tp_workers s k))"
proof -
  have j: "j < tp_count s" using assms by cases auto
  have same: "notified s' = notified s" using assms by cases (auto simp: notified_def)
  note upd = sum_update_weight [OF j, of "notified s" "tp_workers s"]
  from assms show ?thesis
  proof cases
    case lock
    with upd [of Testing] same show ?thesis by (cases "notified s") auto
  next
    case sleep
    with upd [of Falling_Asleep] same show ?thesis by (cases "notified s") auto
  next
    case block
    with upd [of Asleep] same show ?thesis by (cases "notified s") auto
  next
    case exit
    with upd [of Exited] same show ?thesis by (cases "notified s") auto
  next
    case (take t ts)
    with upd [of "Running t"] same show ?thesis by (cases "notified s") auto
  next
    case (finish t)
    with upd [of Top] same show ?thesis by (cases "notified s") auto
  qed
qed

lemma shutdown_measure_step:
  assumes "shutdown_step s s'"
  shows "4 * length (tp_tasks s') + (\<Sum>k < tp_count s'. thread_weight (notified s') (tp_workers s' k)) + owner_weight (tp_owner s') <
    4 * length (tp_tasks s) + (\<Sum>k < tp_count s. thread_weight (notified s) (tp_workers s k)) + owner_weight (tp_owner s)"
  using assms
proof cases
  case notify_all
  have "(\<Sum>k < tp_count s. thread_weight True (if tp_workers s k = Asleep then Woken else tp_workers s k)) \<le>
      (\<Sum>k < tp_count s. thread_weight False (tp_workers s k))"
    by (rule sum_mono) (auto simp: thread_weight_def split: Thread_Pool.worker.splits)
  with notify_all show ?thesis by (simp add: notified_def owner_weight_def)
qed (auto simp: notified_def owner_weight_def)

lemma pool_measure_step:
  assumes step: "pool_step False cfg deps ops ((p, tr), s) ((p', tr'), s')"
    and inv: "pooled_inv cfg ((p, tr), s)" "stop_inv cfg (p, tr)" "pl_stop p \<noteq> Stop_Idle"
  shows "pl_stop p' \<noteq> Stop_Idle \<and> pool_measure ((p', tr'), s') < pool_measure ((p, tr), s)"
proof -
  have sub: "length (tp_submitted s) = pc_inference_workers cfg" "tp_notifies s = 0"
    using inv(1,3) by (simp_all add: pooled_inv_def phase_inv_def all_submitted_def)
  have less: "pl_stop p' \<noteq> Stop_Idle \<and> stop_measure (p', tr') < stop_measure (p, tr)"
    if "pipe_step cfg deps ops (p, tr) (p', tr')"
    using stopping_step [OF that] inv(2,3) by (simp add: stopping_def)
  from step show ?thesis
  proof cases
    case (capture t)
    with less [unfolded capture(1)] pipe_step.capture [OF capture(3)] show ?thesis by (simp add: pool_measure_def)
  next
    case (idle j)
    with worker_measure_step [OF idle(3)] inv(3) show ?thesis
      by (cases rule: Thread_Pool.worker_step.cases [OF idle(3)]) (auto simp: pool_measure_def)
  next
    case (take j i)
    from pool_step_simulated [OF step inv(1)] less have "pl_stop p' \<noteq> Stop_Idle"
      "stop_measure (p', tr') \<le> stop_measure (p, tr)" using inv(3) by auto
    moreover have "tp_owner s' = tp_owner s" using take(3) by cases auto
    ultimately show ?thesis using worker_measure_step [OF take(3)] by (simp add: pool_measure_def)
  next
    case (run j i now ts out)
    with less pipe_step.worker [OF run(5,6)] show ?thesis by (auto simp: pool_measure_def)
  next
    case (finished j i)
    moreover have "tp_owner s' = tp_owner s" using finished(3) by cases auto
    ultimately show ?thesis using worker_measure_step [OF finished(3)] inv(3) by (simp add: pool_measure_def)
  next
    case stop
    with less [unfolded stop(1)] pipe_step.stop [OF stop(3)] show ?thesis by (simp add: pool_measure_def)
  next
    case shutdown
    with shutdown_measure_step [OF shutdown(4)] inv(3) show ?thesis by (simp add: pool_measure_def)
  next
    case joined
    then show ?thesis by (simp add: pool_measure_def stop_measure_def stop_weight_def)
  qed (use sub in auto)
qed


lemma pool_measure_bound:
  assumes "pooled_inv cfg ((p, tr), s)" "stop_inv cfg (p, tr)"
  shows "pool_measure ((p, tr), s) \<le> 16 * pc_inference_workers cfg + 9"
proof -
  have inv: "tasks_inv cfg (pl_workers p) s" using assms(1) by (simp add: pooled_inv_def)
  have "length (tp_started s @ tp_tasks s) = length (tp_submitted s)" using inv by (simp add: tasks_inv_def)
  then have "length (tp_tasks s) \<le> pc_inference_workers cfg" using inv by (simp add: tasks_inv_def)
  moreover have "thread_weight b w \<le> 7" for b w by (simp add: thread_weight_def split: Thread_Pool.worker.splits)
  then have "(\<Sum>j < tp_count s. thread_weight (notified s) (tp_workers s j)) \<le> tp_count s * 7"
    using sum_bounded_above [of "{..<tp_count s}" "\<lambda>j. thread_weight (notified s) (tp_workers s j)" 7] by simp
  moreover have "owner_weight (tp_owner s) \<le> 3" by (simp add: owner_weight_def split: owner.splits)
  ultimately show ?thesis
    using stop_measure_bound [OF assms(2)] inv by (simp add: pool_measure_def tasks_inv_def)
qed

text \<open>The threads that \<open>join\<close> waits for can move unless they all sleep.\<close>

lemma thread_can_step:
  assumes inv: "tasks_inv cfg (pl_workers p) s" "mutex_inv s" "tp_stop s" "cq_closed (pl_frames p)"
    and j: "j < tp_count s" "tp_workers s j \<noteq> Exited" "tp_workers s j \<noteq> Asleep"
  shows "\<exists>h'. pool_step spurious cfg deps ops ((p, tr), s) h'"
proof (cases "tp_mutex s")
  case (Some m)
  then have m: "m < tp_count s" "holds_mutex (tp_workers s m)" using inv(2) by (auto simp: mutex_inv_def)
  show ?thesis
  proof (cases "tp_workers s m = Testing")
    case True
    show ?thesis
    proof (cases "tp_tasks s")
      case Nil
      have "pool_step spurious cfg deps ops ((p, tr), s) ((p, tr), Thread_Pool.set_worker m Exited s\<lparr>tp_mutex := None\<rparr>)"
        by (rule pool_step.idle [OF Thread_Pool.worker_step.exit [OF m(1) True inv(3) Nil]]) (simp_all add: True)
      then show ?thesis by blast
    next
      case (Cons i ts)
      have "pool_step spurious cfg deps ops ((p, tr), s) ((take_task i p, tr), Thread_Pool.set_worker m (Running i) s
          \<lparr>tp_mutex := None, tp_tasks := ts, tp_started := tp_started s @ [i]\<rparr>)"
        by (rule pool_step.take [OF Thread_Pool.worker_step.take [OF m(1) True Cons]]) simp
      then show ?thesis by blast
    qed
  next
    case False
    then have falling: "tp_workers s m = Falling_Asleep" using m(2) by (simp add: holds_mutex_def)
    have "pool_step spurious cfg deps ops ((p, tr), s) ((p, tr), Thread_Pool.set_worker m Asleep s\<lparr>tp_mutex := None\<rparr>)"
      by (rule pool_step.idle [OF Thread_Pool.worker_step.block [OF m(1) falling]]) (simp_all add: falling)
    then show ?thesis by blast
  qed
next
  case None
  then have "\<not> holds_mutex (tp_workers s j)" using inv(2) j(1) by (auto simp: mutex_inv_def)
  then consider "tp_workers s j = Top \<or> tp_workers s j = Woken" | i where "tp_workers s j = Running i"
    using j(2,3) by (cases "tp_workers s j") auto
  then show ?thesis
  proof cases
    case 1
    have "pool_step spurious cfg deps ops ((p, tr), s) ((p, tr), Thread_Pool.set_worker j Testing s\<lparr>tp_mutex := Some j\<rparr>)"
      by (rule pool_step.idle [OF Thread_Pool.worker_step.lock [OF j(1) 1 None]]) (use 1 in auto)
    then show ?thesis by blast
  next
    case (2 i)
    then have "run_by s i" using j(1) by (auto simp: run_by_def)
    then have i: "i \<in> set (tp_started s)" using inv(1) by (simp add: tasks_inv_def)
    have "set (tp_started s) \<subseteq> set (tp_submitted s)" "set (tp_submitted s) \<subseteq> {..<length (pl_workers p)}"
      using inv(1) by (auto simp: tasks_inv_def) (metis Un_iff set_append, metis atLeastLessThan_iff less_le_trans set_upt)
    with i have len: "i < length (pl_workers p)" by auto
    show ?thesis
    proof (cases "worker_finished (pl_workers p ! i)")
      case True
      from pool_step.finished [OF Thread_Pool.worker_step.finish [OF j(1) 2] 2 True] show ?thesis by blast
    next
      case False
      from worker_can_step [OF this inv(4)] obtain p' out where "inference_step cfg deps 0 0 i p = Some (p', out)"
        by fastforce
      from pool_step.run [OF j(1) 2 len this] show ?thesis by blast
    qed
  qed
qed

text \<open>The threads all sleep or have exited, and the joiner has notified.\<close>

definition wakeup_lost :: "nat pool \<Rightarrow> bool" where
  "wakeup_lost s = (tp_owner s = Joining \<and> tp_mutex s = None \<and>
     (\<forall>j < tp_count s. tp_workers s j \<in> {Asleep, Exited}) \<and> (\<exists>j < tp_count s. tp_workers s j = Asleep))"


lemma pool_stop_inv: "pool_reachable spurious cfg deps ops src ((p, tr), s) \<Longrightarrow> stop_inv cfg (p, tr)"
  by (drule pool_refines) (blast intro: stop_inv_reachable)

lemma pool_run:
  assumes "(pool_step False cfg deps ops ^^ n) ((p, tr), s) ((p', tr'), s')"
    and "pool_reachable spurious cfg deps ops src ((p, tr), s)" "pl_stop p \<noteq> Stop_Idle"
  shows "pool_reachable spurious cfg deps ops src ((p', tr'), s') \<and> pl_stop p' \<noteq> Stop_Idle \<and>
    n + pool_measure ((p', tr'), s') \<le> pool_measure ((p, tr), s)"
  using assms(1)
proof (induction n arbitrary: p' tr' s')
  case 0
  then show ?case using assms(2,3) by simp
next
  case (Suc n)
  then obtain h where run: "(pool_step False cfg deps ops ^^ n) ((p, tr), s) h" "pool_step False cfg deps ops h ((p', tr'), s')"
    by auto
  obtain p1 tr1 s1 where h: "h = ((p1, tr1), s1)" by (metis surj_pair)
  from Suc.IH run(1) h have IH: "pool_reachable spurious cfg deps ops src ((p1, tr1), s1)" "pl_stop p1 \<noteq> Stop_Idle"
    "n + pool_measure ((p1, tr1), s1) \<le> pool_measure ((p, tr), s)" by auto
  have "pool_step spurious cfg deps ops ((p1, tr1), s1) ((p', tr'), s')"
    using run(2) unfolding h by cases (auto intro: pool_step.intros)
  with IH(1) have "pool_reachable spurious cfg deps ops src ((p', tr'), s')" by (rule pool_reachable.step)
  moreover from pool_measure_step [OF run(2) [unfolded h] pooled_inv_reachable [OF IH(1)] pool_stop_inv [OF IH(1)] IH(2)] IH(3)
  have "pl_stop p' \<noteq> Stop_Idle" "Suc n + pool_measure ((p', tr'), s') \<le> pool_measure ((p, tr), s)" by auto
  ultimately show ?case by simp
qed

text \<open>When no step is left, \<open>stop\<close> has returned or a wake-up has been lost.\<close>

lemma pool_stuck:
  assumes r: "pool_reachable spurious cfg deps ops src ((p, tr), s)" "open_returns ops" "0 < pc_frame_queue_capacity cfg"
    and stop: "pl_stop p \<noteq> Stop_Idle" "\<nexists>h. pool_step False cfg deps ops ((p, tr), s) h"
  shows "pl_stop p = Stop_Returned \<or> pl_stop p = Stop_Shutdown \<and> wakeup_lost s"
proof -
  have inv: "tasks_inv cfg (pl_workers p) s" "phase_inv cfg (pl_stop p) s" "mutex_inv s"
    using pooled_inv_reachable [OF r(1)] by (simp_all add: pooled_inv_def)
  have pipe: "pipe_reachable cfg deps ops src (p, tr)" using pool_refines [OF r(1)] by simp
  note si = stop_inv_reachable [OF pipe]
  have stopper: "stop_step ops p = None" if "pl_stop p \<noteq> Stop_Shutdown"
    using pool_step.stop [of ops p _ cfg s False deps tr] stop that by (cases "stop_step ops p") auto
  have capture: "capture_step ops (0, 0) p = None"
    using pool_step.capture [of ops "(0, 0)" p _ False cfg deps tr s] stop(2) by (cases "capture_step ops (0, 0) p") auto
  show ?thesis
  proof (cases "pl_stop p")
    case Stop_Join
    have "\<not> pl_running p" using si stop(1) by (simp add: stop_inv_def)
    with capture capture_can_step [OF pipe r(2,3)] have "pl_capture p = Cap_Exited" by blast
    with stopper Stop_Join show ?thesis by (simp add: stop_step_def)
  next
    case Stop_Shutdown
    have closed: "cq_closed (pl_frames p)" using si Stop_Shutdown by (simp add: stop_inv_def)
    have "\<not> shutdown_step s s'" for s'
      using pool_step.shutdown [OF Stop_Shutdown, of s s'] stop(2) by blast
    then have owner: "tp_owner s \<noteq> Not_Called" "tp_owner s \<noteq> Stop_Set"
      "tp_owner s = Joining \<Longrightarrow> \<not> (\<forall>j < tp_count s. tp_workers s j = Exited)"
      by (auto intro: shutdown_step.intros)
    moreover have "tp_owner s \<noteq> Joined" using pool_step.joined [OF Stop_Shutdown] stop(2) by blast
    ultimately have joining: "tp_owner s = Joining" "\<exists>j < tp_count s. tp_workers s j \<noteq> Exited"
      by (cases "tp_owner s", auto)+
    then have "tp_stop s" using inv(2) by (simp add: phase_inv_def)
    have asleep: "tp_workers s j \<in> {Asleep, Exited}" if "j < tp_count s" for j
      using thread_can_step [OF inv(1,3) \<open>tp_stop s\<close> closed that] stop(2) by blast
    have "tp_mutex s = None"
    proof (rule ccontr)
      assume "tp_mutex s \<noteq> None"
      then obtain m where "m < tp_count s" "holds_mutex (tp_workers s m)" using inv(3) by (auto simp: mutex_inv_def)
      with asleep [of m] show False by auto
    qed
    with joining asleep Stop_Shutdown show ?thesis unfolding wakeup_lost_def by blast
  qed (use stop(1) stopper in \<open>auto simp: stop_step_def\<close>)
qed

lemma lost_finished:
  assumes "pooled_inv cfg ((p, tr), s)" "wakeup_lost s" "pl_stop p \<noteq> Stop_Idle" "w \<in> set (pl_workers p)"
  shows "worker_finished w"
proof -
  have inv: "tasks_inv cfg (pl_workers p) s" "phase_inv cfg (pl_stop p) s" "alert_inv s"
    using assms(1) by (simp_all add: pooled_inv_def)
  have idle: "tp_workers s j \<in> {Asleep, Exited}" if "j < tp_count s" for j
    using assms(2) that by (simp add: wakeup_lost_def)
  have sub: "length (tp_submitted s) = length (pl_workers p)" "tp_notifies s = 0"
    using inv(1,2) assms(3) by (simp_all add: phase_inv_def all_submitted_def tasks_inv_def)
  have "\<not> active (tp_workers s j)" if "j < tp_count s" for j using idle [OF that] by auto
  then have "tp_tasks s = []" using inv(3) sub(2) by (auto simp: alert_inv_def)
  then have "tp_started s = [0..<length (pl_workers p)]" using inv(1) sub(1) by (simp add: tasks_inv_def)
  moreover obtain i where i: "i < length (pl_workers p)" "w = pl_workers p ! i" using assms(4) by (metis in_set_conv_nth)
  ultimately have "worker_finished (pl_workers p ! i) \<or> run_by s i" using inv(1) by (auto simp: tasks_inv_def)
  moreover have "\<not> run_by s i"
  proof
    assume "run_by s i"
    then obtain j where "j < tp_count s" "tp_workers s j = Running i" by (auto simp: run_by_def)
    with idle [of j] show False by simp
  qed
  ultimately show ?thesis using i(2) by simp
qed

text \<open>
  C14: Stop either returns or has lost a wake-up: once \<open>stop\<close> has been called on the pipeline of an RTSP camera, in
  whatever state its threads are, at most \<open>16 W + 9\<close> further steps of any thread are possible for \<open>W\<close>
  workers, not counting spurious wake-ups; when none is left the capture thread has exited, every inference
  loop is finished, and \<open>stop\<close> has returned, unless the joiner has notified while a thread of the pool was
  between its test and its wait: then it waits for that thread for ever.
\<close>

theorem stop_returns_or_sleeps:
  assumes "pool_reachable spurious cfg deps (rtsp_ops api) (rtsp_new rcfg cap) ((p, tr), s)"
    and "0 < pc_frame_queue_capacity cfg" "pl_stop p \<noteq> Stop_Idle"
    and "(pool_step False cfg deps (rtsp_ops api) ^^ n) ((p, tr), s) ((p', tr'), s')"
  shows "n \<le> 16 * pc_inference_workers cfg + 9 \<and>
    ((\<nexists>h. pool_step False cfg deps (rtsp_ops api) ((p', tr'), s') h) \<longrightarrow>
       (if wakeup_lost s' then pl_stop p' = Stop_Shutdown else pl_stop p' = Stop_Returned) \<and>
       pl_capture p' = Cap_Exited \<and> (\<forall>w \<in> set (pl_workers p'). worker_finished w))"
proof -
  have opn: "open_returns (rtsp_ops api)" by (simp add: open_returns_def rtsp_ops_def)
  note stop = pool_stop_inv [OF assms(1)]
  have run: "pool_reachable spurious cfg deps (rtsp_ops api) (rtsp_new rcfg cap) ((p', tr'), s')"
    "pl_stop p' \<noteq> Stop_Idle" "n \<le> pool_measure ((p, tr), s)"
    using pool_run [OF assms(4,1,3)] by auto
  note inv = pooled_inv_reachable [OF run(1)]
  note stop' = pool_stop_inv [OF run(1)]
  have "n \<le> 16 * pc_inference_workers cfg + 9"
    using run(3) pool_measure_bound [OF pooled_inv_reachable [OF assms(1)] stop] by linarith
  moreover have "(if wakeup_lost s' then pl_stop p' = Stop_Shutdown else pl_stop p' = Stop_Returned) \<and>
      pl_capture p' = Cap_Exited \<and> (\<forall>w \<in> set (pl_workers p'). worker_finished w)"
    if stuck: "\<nexists>h. pool_step False cfg deps (rtsp_ops api) ((p', tr'), s') h"
  proof -
    from pool_stuck [OF run(1) opn assms(2) run(2) stuck] have
      final: "pl_stop p' = Stop_Returned \<or> pl_stop p' = Stop_Shutdown \<and> wakeup_lost s'" .
    have "\<not> wakeup_lost s'" if "pl_stop p' = Stop_Returned"
      using that inv by (auto simp: pooled_inv_def phase_inv_def wakeup_lost_def)
    with final stop' lost_finished [OF inv _ run(2)] show ?thesis by (auto simp: stop_inv_def)
  qed
  ultimately show ?thesis by blast
qed

text \<open>
  The pipeline on the thread pool refines the pipeline's own model and the pool's: whatever happens in
  one step of the pool, the pipeline makes one of its steps or none, so that every property of the
  reachable states of \<open>Pipeline_Threads\<close> holds on the real pool; the tasks a thread has not taken are the workers that have
  not started, and a task that has been taken is run by exactly the thread that took it until the worker is finished.
\<close>

theorem pool_refines_pipeline:
  assumes "pool_reachable spurious cfg deps ops src ((p, tr), s)"
  shows "pipe_reachable cfg deps ops src (p, tr) \<and> tp_reachable (pc_inference_workers cfg) s \<and>
    tasks_inv cfg (pl_workers p) s"
  by (rule pool_refines [OF assms])

subsection \<open>The lost wake-up\<close>

lemma lost_stuck:
  assumes "pooled_inv cfg ((p, tr), s)" "pl_stop p = Stop_Shutdown" "pl_capture p = Cap_Exited" "wakeup_lost s"
  shows "\<not> pool_step False cfg deps ops ((p, tr), s) h"
proof
  have sub: "length (tp_submitted s) = pc_inference_workers cfg" "tp_notifies s = 0"
    using assms(1,2) by (simp_all add: pooled_inv_def phase_inv_def all_submitted_def)
  have idle: "tp_workers s j = Asleep \<or> tp_workers s j = Exited" if "j < tp_count s" for j
    using assms(4) that by (simp add: wakeup_lost_def)
  have thread: "\<not> Thread_Pool.worker_step j s s'" for j s'
  proof
    assume step: "Thread_Pool.worker_step j s s'"
    then have "j < tp_count s" by cases auto
    from step idle [OF this] show False by cases auto
  qed
  assume "pool_step False cfg deps ops ((p, tr), s) h"
  then show False
  proof cases
    case (run j i)
    with idle [of j] show False by auto
  next
    case (shutdown s')
    from shutdown(3) assms(4) show False by cases (auto simp: wakeup_lost_def)
  qed (use assms(2-4) sub thread in \<open>auto simp: capture_step_def wakeup_lost_def\<close>)
qed

text \<open>Schedules: a capture step, a step of \<open>submit\<close>, of a thread or of the caller of \<open>stop\<close>.\<close>

datatype pool_action = Act_Capture | Act_Submit | Act_Thread nat | Act_Stop

definition submit_act :: "pipeline_config \<Rightarrow> nat pool \<Rightarrow> nat pool option" where
  "submit_act cfg s =
     (if 0 < tp_notifies s
      then case find (\<lambda>i. tp_workers s i = Asleep) [0..<tp_count s] of
          None \<Rightarrow> Some (s\<lparr>tp_notifies := tp_notifies s - 1\<rparr>)
        | Some i \<Rightarrow> Some (Thread_Pool.set_worker i Woken s\<lparr>tp_notifies := tp_notifies s - 1\<rparr>)
      else if length (tp_submitted s) < pc_inference_workers cfg \<and> tp_mutex s = None
      then Some (s\<lparr>tp_tasks := tp_tasks s @ [length (tp_submitted s)],
                   tp_submitted := tp_submitted s @ [length (tp_submitted s)], tp_notifies := Suc (tp_notifies s)\<rparr>)
      else None)"

definition thread_act ::
  "pipeline_config \<Rightarrow> 'm pipeline_deps \<Rightarrow> nat \<Rightarrow> ('s, 'm) pooled \<Rightarrow> ('s, 'm) pooled option"
where
  "thread_act cfg deps j h = (case h of ((p, tr), s) \<Rightarrow>
     if tp_count s \<le> j then None
     else case tp_workers s j of
         Testing \<Rightarrow>
           (case tp_tasks s of
              i # ts \<Rightarrow> Some ((take_task i p, tr), Thread_Pool.set_worker j (Running i) s
                 \<lparr>tp_mutex := None, tp_tasks := ts, tp_started := tp_started s @ [i]\<rparr>)
            | [] \<Rightarrow>
                if tp_stop s then Some ((p, tr), Thread_Pool.set_worker j Exited s\<lparr>tp_mutex := None\<rparr>)
                else Some ((p, tr), Thread_Pool.set_worker j Falling_Asleep s))
       | Falling_Asleep \<Rightarrow> Some ((p, tr), Thread_Pool.set_worker j Asleep s\<lparr>tp_mutex := None\<rparr>)
       | Running i \<Rightarrow>
           if length (pl_workers p) \<le> i then None
           else if worker_finished (pl_workers p ! i) then Some ((p, tr), Thread_Pool.set_worker j Top s)
           else map_option (\<lambda>(p', out). ((p', trace_worker i 0 0 (pl_workers p ! i) (pl_workers p' ! i) out tr), s))
                  (inference_step cfg deps 0 0 i p)
       | Asleep \<Rightarrow> None
       | Exited \<Rightarrow> None
       | _ \<Rightarrow> if tp_mutex s = None then Some ((p, tr), Thread_Pool.set_worker j Testing s\<lparr>tp_mutex := Some j\<rparr>) else None)"

definition stop_act ::
  "pipeline_config \<Rightarrow> ('s, 'm) source_ops \<Rightarrow> ('s, 'm) pooled \<Rightarrow> ('s, 'm) pooled option"
where
  "stop_act cfg ops h = (case h of ((p, tr), s) \<Rightarrow>
     if pl_stop p = Stop_Shutdown
     then case tp_owner s of
         Not_Called \<Rightarrow> Some ((p, tr), s\<lparr>tp_stop := True, tp_owner := Stop_Set\<rparr>)
       | Stop_Set \<Rightarrow> Some ((p, tr), s\<lparr>tp_workers := (\<lambda>i. if tp_workers s i = Asleep then Woken else tp_workers s i),
                                  tp_owner := Joining\<rparr>)
       | Joining \<Rightarrow> if list_all (\<lambda>j. tp_workers s j = Exited) [0..<tp_count s]
                     then Some ((p, tr), s\<lparr>tp_owner := Joined\<rparr>) else None
       | Joined \<Rightarrow> Some ((p\<lparr>pl_stop := Stop_Source\<rparr>, tr), s)
     else if pl_stop p = Stop_Idle \<and> \<not> all_submitted cfg s then None
     else map_option (\<lambda>p'. ((p', tr), s)) (stop_step ops p))"

fun pool_act ::
  "pipeline_config \<Rightarrow> 'm pipeline_deps \<Rightarrow> ('s, 'm) source_ops \<Rightarrow> pool_action \<Rightarrow>
   ('s, 'm) pooled \<Rightarrow> ('s, 'm) pooled option"
where
  "pool_act cfg deps ops Act_Capture ((p, tr), s) =
     map_option (\<lambda>p'. ((p', trace_capture p p' tr), s)) (capture_step ops (0, 0) p)"
| "pool_act cfg deps ops Act_Submit (h, s) = map_option (\<lambda>s'. (h, s')) (submit_act cfg s)"
| "pool_act cfg deps ops (Act_Thread j) h = thread_act cfg deps j h"
| "pool_act cfg deps ops Act_Stop h = stop_act cfg ops h"

fun pool_acts ::
  "pipeline_config \<Rightarrow> 'm pipeline_deps \<Rightarrow> ('s, 'm) source_ops \<Rightarrow> pool_action list \<Rightarrow>
   ('s, 'm) pooled \<Rightarrow> ('s, 'm) pooled option"
where
  "pool_acts cfg deps ops [] h = Some h"
| "pool_acts cfg deps ops (a # as) h =
     (case pool_act cfg deps ops a h of None \<Rightarrow> None | Some h' \<Rightarrow> pool_acts cfg deps ops as h')"

lemma submit_act_step:
  assumes "submit_act cfg s = Some s'"
  shows "pool_step spurious cfg deps ops (h, s) (h, s')"
proof (cases "0 < tp_notifies s")
  case True
  then have n: "tp_notifies s = Suc (tp_notifies s - 1)" by simp
  show ?thesis
  proof (cases "find (\<lambda>i. tp_workers s i = Asleep) [0..<tp_count s]")
    case None
    then have "\<forall>i < tp_count s. tp_workers s i \<noteq> Asleep" by (auto simp: find_None_iff)
    from submit_step.notify_none [OF n this] None True assms show ?thesis
      by (intro pool_step.notify) (auto simp: submit_act_def)
  next
    case (Some i)
    then have "i < tp_count s" "tp_workers s i = Asleep" by (auto simp: find_Some_iff)
    from submit_step.notify_some [OF n this] Some True assms show ?thesis
      by (intro pool_step.notify) (auto simp: submit_act_def)
  qed
next
  case False
  with assms submit_step.enqueue [of s "length (tp_submitted s)"] show ?thesis
    by (intro pool_step.submit) (auto simp: submit_act_def split: if_splits)
qed


lemma thread_act_step:
  assumes "thread_act cfg deps j h = Some h'"
  shows "pool_step spurious cfg deps ops h h'"
proof -
  obtain p tr s where h: "h = ((p, tr), s)" by (metis surj_pair)
  have j: "j < tp_count s" using assms by (auto simp: thread_act_def h split: if_splits)
  have idle: "pool_step spurious cfg deps ops ((p, tr), s) ((p, tr), s')"
    if "Thread_Pool.worker_step j s s'" "tp_started s' = tp_started s" "\<And>i. tp_workers s j \<noteq> Running i" for s'
    using that by (rule pool_step.idle)
  show ?thesis
  proof (cases "tp_workers s j")
    case Top
    with assms j show ?thesis
      by (auto simp: thread_act_def h split: if_splits intro!: idle Thread_Pool.worker_step.lock)
  next
    case Woken
    with assms j show ?thesis
      by (auto simp: thread_act_def h split: if_splits intro!: idle Thread_Pool.worker_step.lock)
  next
    case Testing
    show ?thesis
    proof (cases "tp_tasks s")
      case Nil
      with Testing assms j show ?thesis
        by (auto simp: thread_act_def h split: if_splits
            intro!: idle Thread_Pool.worker_step.exit Thread_Pool.worker_step.sleep)
    next
      case (Cons i ts)
      from Cons Testing assms j show ?thesis
        by (auto simp: thread_act_def h intro!: pool_step.take [OF Thread_Pool.worker_step.take [OF j Testing Cons]])
    qed
  next
    case Falling_Asleep
    with assms j show ?thesis
      by (auto simp: thread_act_def h intro!: idle Thread_Pool.worker_step.block)
  next
    case (Running i)
    show ?thesis
    proof (cases "worker_finished (pl_workers p ! i)")
      case True
      with pool_step.finished [OF Thread_Pool.worker_step.finish [OF j Running] Running True] Running assms j show ?thesis
        by (auto simp: thread_act_def h split: if_splits)
    next
      case False
      with Running assms j show ?thesis
        by (auto simp: thread_act_def h split: if_splits intro!: pool_step.run)
    qed
  qed (use assms j in \<open>auto simp: thread_act_def h\<close>)
qed

lemma stop_act_step:
  assumes "stop_act cfg ops h = Some h'"
  shows "pool_step spurious cfg deps ops h h'"
proof -
  obtain p tr s where h: "h = ((p, tr), s)" by (metis surj_pair)
  show ?thesis
  proof (cases "pl_stop p = Stop_Shutdown")
    case True
    note shut = pool_step.shutdown [OF True]
    show ?thesis
    proof (cases "tp_owner s")
      case Not_Called
      with assms True shut [OF shutdown_step.set_stop [OF Not_Called]] show ?thesis by (auto simp: stop_act_def h)
    next
      case Stop_Set
      with assms True shut [OF shutdown_step.notify_all [OF Stop_Set]] show ?thesis by (auto simp: stop_act_def h)
    next
      case Joining
      with assms True shut [OF shutdown_step.join [OF Joining]] show ?thesis
        by (auto simp: stop_act_def h list_all_length split: if_splits)
    next
      case Joined
      with assms True pool_step.joined [OF True Joined] show ?thesis by (auto simp: stop_act_def h)
    qed
  next
    case False
    with assms show ?thesis by (auto simp: stop_act_def h split: if_splits intro!: pool_step.stop)
  qed
qed

lemma pool_act_step: "pool_act cfg deps ops a h = Some h' \<Longrightarrow> pool_step spurious cfg deps ops h h'"
  by (induction cfg deps ops a h rule: pool_act.induct)
    (auto intro: pool_step.capture submit_act_step thread_act_step stop_act_step)

lemma pool_acts_run: "pool_acts cfg deps ops as h = Some h' \<Longrightarrow> (pool_step spurious cfg deps ops ^^ length as) h h'"
proof (induction as arbitrary: h)
  case (Cons a as)
  then obtain h1 where "pool_act cfg deps ops a h = Some h1" "pool_acts cfg deps ops as h1 = Some h'"
    by (auto split: option.splits)
  from relpowp_Suc_I2 [OF pool_act_step [OF this(1)] Cons.IH [OF this(2)]] show ?case by simp
qed simp

lemma pool_run_reachable:
  "(pool_step spurious cfg deps ops ^^ n) h h' \<Longrightarrow> pool_reachable spurious cfg deps ops src h \<Longrightarrow>
   pool_reachable spurious cfg deps ops src h'"
  by (induction n arbitrary: h') (auto intro: pool_reachable.step)

text \<open>One worker: the task is taken, \<open>stop\<close> is called, and the thread tests for a task just before the flag is set.\<close>

definition work_acts :: "pool_action list" where
  "work_acts = [Act_Submit, Act_Submit, Act_Thread 0, Act_Thread 0, Act_Stop]"

definition hang_acts :: "pool_action list" where
  "hang_acts =
     [Act_Stop, Act_Capture, Act_Capture, Act_Thread 0, Act_Thread 0, Act_Thread 0, Act_Thread 0,
      Act_Stop, Act_Stop, Act_Stop, Act_Thread 0]"

definition pool_start :: "(bool rtsp_source, unit) pooled" where
  "pool_start =
     ((pl_start default_pipeline_config (pl_new default_pipeline_config (rtsp_new default_rtsp_config False)), no_trace),
      tp_new (pc_inference_workers default_pipeline_config))"

lemma hang_facts:
  "case pool_acts default_pipeline_config demo_deps (rtsp_ops demo_api) work_acts pool_start of
     None \<Rightarrow> False
   | Some h \<Rightarrow> pl_stop (fst (fst h)) = Stop_Close \<and>
       (case pool_acts default_pipeline_config demo_deps (rtsp_ops demo_api) hang_acts h of
          None \<Rightarrow> False
        | Some ((p, tr), s) \<Rightarrow> pl_stop p = Stop_Shutdown \<and> tp_count s = 1 \<and>
            tp_owner s = Joining \<and> tp_mutex s = None \<and> tp_workers s 0 = Asleep)"
  by code_simp

lemma hang_reachable:
  obtains h p tr s where "pool_reachable False default_pipeline_config demo_deps (rtsp_ops demo_api)
      (rtsp_new default_rtsp_config False) h" "pl_stop (fst (fst h)) = Stop_Close"
    "(pool_step False default_pipeline_config demo_deps (rtsp_ops demo_api) ^^ 11) h ((p, tr), s)"
    "pl_stop p = Stop_Shutdown" "wakeup_lost s"
proof -
  obtain h where h: "pool_acts default_pipeline_config demo_deps (rtsp_ops demo_api) work_acts pool_start = Some h"
    using hang_facts by (cases "pool_acts default_pipeline_config demo_deps (rtsp_ops demo_api) work_acts pool_start") auto
  note facts = hang_facts [unfolded h option.case]
  obtain p tr s where run: "pool_acts default_pipeline_config demo_deps (rtsp_ops demo_api) hang_acts h = Some ((p, tr), s)"
    using facts by (auto split: option.splits)
  have "pool_reachable False default_pipeline_config demo_deps (rtsp_ops demo_api) (rtsp_new default_rtsp_config False) pool_start"
    unfolding pool_start_def by (rule pool_reachable.start)
  note r = pool_run_reachable [OF pool_acts_run [OF h] this]
  have "wakeup_lost s" "pl_stop p = Stop_Shutdown" "pl_stop (fst (fst h)) = Stop_Close"
    using facts run by (simp_all add: wakeup_lost_def)
  moreover have eleven: "length hang_acts = 11" by (simp add: hang_acts_def)
  ultimately show thesis using that [OF r _ pool_acts_run [OF run, unfolded eleven]] by blast
qed

text \<open>
  The program can hang when it is asked to stop: there is a run of a pipeline with one worker,
  started and stopped once, that ends with \<open>stop\<close> waiting in \<^verbatim>\<open>join\<close>, the capture thread gone, the inference loop
  finished, the only thread of the pool asleep, and no step possible any more.
\<close>

theorem stop_can_hang:
  "\<exists>p tr s. pool_reachable False default_pipeline_config demo_deps (rtsp_ops demo_api)
       (rtsp_new default_rtsp_config False) ((p, tr), s) \<and>
     pl_stop p = Stop_Shutdown \<and> pl_capture p = Cap_Exited \<and> list_all worker_finished (pl_workers p) \<and> wakeup_lost s \<and>
     \<not> (\<exists>h. pool_step False default_pipeline_config demo_deps (rtsp_ops demo_api) ((p, tr), s) h)"
proof -
  obtain h p tr s where h: "pool_reachable False default_pipeline_config demo_deps (rtsp_ops demo_api)
      (rtsp_new default_rtsp_config False) h"
    "(pool_step False default_pipeline_config demo_deps (rtsp_ops demo_api) ^^ 11) h ((p, tr), s)"
    "pl_stop p = Stop_Shutdown" "wakeup_lost s" by (rule hang_reachable)
  note r = pool_run_reachable [OF h(2,1)]
  note inv = pooled_inv_reachable [OF r]
  have "pl_capture p = Cap_Exited" using pool_stop_inv [OF r] h(3) by (simp add: stop_inv_def)
  moreover have "list_all worker_finished (pl_workers p)"
    using lost_finished [OF inv h(4)] h(3) by (simp add: list_all_iff)
  ultimately show ?thesis using r h(3,4) lost_stuck [OF inv h(3)] by blast
qed

theorem pool_refines_pipeline_witness:
  "\<exists>p tr s. pl_stop p = Stop_Shutdown \<and>
     pipe_reachable default_pipeline_config demo_deps (rtsp_ops demo_api) (rtsp_new default_rtsp_config False) (p, tr) \<and>
     tp_reachable 1 (s :: nat pool)"
proof -
  obtain h p tr s where h: "pool_reachable False default_pipeline_config demo_deps (rtsp_ops demo_api)
      (rtsp_new default_rtsp_config False) h"
    "(pool_step False default_pipeline_config demo_deps (rtsp_ops demo_api) ^^ 11) h ((p, tr), s)"
    "pl_stop p = Stop_Shutdown" by (rule hang_reachable)
  have "pc_inference_workers default_pipeline_config = 1" by (simp add: default_pipeline_config_def)
  with pool_refines_pipeline [OF pool_run_reachable [OF h(2,1)]]
  have "pipe_reachable default_pipeline_config demo_deps (rtsp_ops demo_api) (rtsp_new default_rtsp_config False) (p, tr)"
    "tp_reachable 1 s" by (simp_all only:)
  with h(3) show ?thesis by blast
qed

theorem stop_returns_or_sleeps_witness:
  "\<exists>p' tr' s'. 11 \<le> 16 * pc_inference_workers default_pipeline_config + 9 \<and> pl_stop p' = Stop_Shutdown \<and>
     wakeup_lost (s' :: nat pool) \<and> pl_capture (p' :: (bool rtsp_source, unit) pipeline) = Cap_Exited \<and>
     pipe_reachable default_pipeline_config demo_deps (rtsp_ops demo_api) (rtsp_new default_rtsp_config False) (p', tr')"
proof -
  obtain h p' tr' s' where h: "pool_reachable False default_pipeline_config demo_deps (rtsp_ops demo_api)
      (rtsp_new default_rtsp_config False) h" "pl_stop (fst (fst h)) = Stop_Close"
    "(pool_step False default_pipeline_config demo_deps (rtsp_ops demo_api) ^^ 11) h ((p', tr'), s')"
    "pl_stop p' = Stop_Shutdown" "wakeup_lost s'" by (rule hang_reachable)
  obtain p tr s where hp: "h = ((p, tr), s)" by (metis surj_pair)
  note r = pool_run_reachable [OF h(3,1)]
  have "pl_capture p' = Cap_Exited" using pool_stop_inv [OF r] h(4) by (simp add: stop_inv_def)
  then have stuck: "\<nexists>h. pool_step False default_pipeline_config demo_deps (rtsp_ops demo_api) ((p', tr'), s') h"
    using lost_stuck [OF pooled_inv_reachable [OF r] h(4) _ h(5)] by blast
  have "0 < pc_frame_queue_capacity default_pipeline_config" "pl_stop p \<noteq> Stop_Idle"
    using h(2) by (simp_all add: default_pipeline_config_def hp)
  from stop_returns_or_sleeps [OF h(1) [unfolded hp] this h(3) [unfolded hp]] stuck h(5) pool_refines [OF r]
  show ?thesis by auto
qed

end
