(* ===== verification/Yolo.thy ===== *)
theory Yolo
  imports Risk
begin

text \<open>
  \<^verbatim>\<open>postprocess_yolov8\<close> (\<^verbatim>\<open>src/infrastructure/ai/YoloV8Postprocessor.cpp\<close>): the score filter, the
  decoding of boxes and the cut to \<open>max_detections\<close>.  The tensor is a function from flat indices to
  floats; \<^verbatim>\<open>cv::dnn::NMSBoxes\<close> is a parameter, and what its documentation promises (indices of the
  boxes it was given, each at most once) is the predicate \<open>nms_selects\<close>.
\<close>

subsection \<open>Decoding\<close>

record postprocess_params =
  pp_model_input_width :: int
  pp_model_input_height :: int
  pp_source_width :: int
  pp_source_height :: int
  pp_conf_threshold :: f32
  pp_nms_threshold :: f32
  pp_max_detections :: int
  pp_class_map :: "int \<rightharpoonup> object_class"

definition default_postprocess_params :: postprocess_params where
  "default_postprocess_params =
     \<lparr>pp_model_input_width = 640, pp_model_input_height = 640, pp_source_width = 0,
      pp_source_height = 0, pp_conf_threshold = f32_lit 35 100, pp_nms_threshold = f32_lit 45 100,
      pp_max_detections = 300, pp_class_map = Map.empty\<rparr>"

record cv_rect =
  rect_x :: int
  rect_y :: int
  rect_width :: int
  rect_height :: int

text \<open>\<^verbatim>\<open>scale_x\<close> and \<^verbatim>\<open>scale_y\<close>.\<close>

definition axis_scale :: "int \<Rightarrow> int \<Rightarrow> f32" where
  "axis_scale source model = (if 0 < source then f32_of_int source / f32_of_int model else f_one)"

text \<open>The inner loop: the class with the greatest score, starting from no class with score zero.\<close>

fun best_class :: "(nat \<Rightarrow> f32) \<Rightarrow> nat list \<Rightarrow> int \<Rightarrow> f32 \<Rightarrow> int \<times> f32" where
  "best_class score [] best_cls best_score = (best_cls, best_score)"
| "best_class score (c # cs) best_cls best_score =
     (if best_score < score c then best_class score cs (int c) (score c)
      else best_class score cs best_cls best_score)"

text \<open>The rectangle of an anchor: four casts from \<^verbatim>\<open>float\<close> to \<^verbatim>\<open>int\<close>.\<close>

definition decode_rect :: "f32 \<Rightarrow> f32 \<Rightarrow> f32 \<Rightarrow> f32 \<Rightarrow> f32 \<Rightarrow> f32 \<Rightarrow> cv_rect run" where
  "decode_rect scale_x scale_y cx cy w h =
     (case f32_to_int ((cx - w * f_half) * scale_x) of Inl e \<Rightarrow> Inl e | Inr x \<Rightarrow>
      case f32_to_int ((cy - h * f_half) * scale_y) of Inl e \<Rightarrow> Inl e | Inr y \<Rightarrow>
      case f32_to_int (w * scale_x) of Inl e \<Rightarrow> Inl e | Inr rw \<Rightarrow>
      case f32_to_int (h * scale_y) of Inl e \<Rightarrow> Inl e | Inr rh \<Rightarrow>
        Inr \<lparr>rect_x = x, rect_y = y, rect_width = rw, rect_height = rh\<rparr>)"

text \<open>One candidate: its rectangle, score and class index.\<close>

type_synonym candidate = "cv_rect \<times> f32 \<times> int"

definition decode_anchor ::
  "(nat \<Rightarrow> f32) \<Rightarrow> nat \<Rightarrow> nat \<Rightarrow> postprocess_params \<Rightarrow> nat \<Rightarrow> candidate option run"
where
  "decode_anchor raw stride num_classes params i =
     (case best_class (\<lambda>c. raw ((4 + c) * stride + i)) [0..<num_classes] (-1) f_zero of
        (best_cls, best_score) \<Rightarrow>
          if best_score < pp_conf_threshold params \<or> best_cls < 0 then Inr None
          else case decode_rect
                      (axis_scale (pp_source_width params) (pp_model_input_width params))
                      (axis_scale (pp_source_height params) (pp_model_input_height params))
                      (raw (0 * stride + i)) (raw (1 * stride + i))
                      (raw (2 * stride + i)) (raw (3 * stride + i)) of
              Inl e \<Rightarrow> Inl e
            | Inr r \<Rightarrow> Inr (Some (r, best_score, best_cls)))"

text \<open>The loop over the anchors; the three parallel vectors are one list of triples.\<close>

fun anchors_loop ::
  "(nat \<Rightarrow> f32) \<Rightarrow> nat \<Rightarrow> nat \<Rightarrow> postprocess_params \<Rightarrow> nat list \<Rightarrow> candidate list \<Rightarrow> candidate list run"
where
  "anchors_loop raw stride num_classes params [] out = Inr out"
| "anchors_loop raw stride num_classes params (i # is) out =
     (case decode_anchor raw stride num_classes params i of
        Inl e \<Rightarrow> Inl e
      | Inr None \<Rightarrow> anchors_loop raw stride num_classes params is out
      | Inr (Some c) \<Rightarrow> anchors_loop raw stride num_classes params is (out @ [c]))"

subsection \<open>Selection\<close>

type_synonym nms_boxes = "cv_rect list \<Rightarrow> f32 list \<Rightarrow> f32 \<Rightarrow> f32 \<Rightarrow> int list"

definition rect_box :: "cv_rect \<Rightarrow> bounding_box" where
  "rect_box r =
     \<lparr>bb_x = f32_of_int (rect_x r), bb_y = f32_of_int (rect_y r),
      bb_width = f32_of_int (rect_width r), bb_height = f32_of_int (rect_height r)\<rparr>"

definition make_detection :: "postprocess_params \<Rightarrow> candidate \<Rightarrow> detection" where
  "make_detection params c =
     (case c of (r, score, cls) \<Rightarrow>
        default_detection\<lparr>det_box := rect_box r, det_confidence := score,
          det_cls := (case pp_class_map params cls of None \<Rightarrow> kUnknown | Some k \<Rightarrow> k)\<rparr>)"

fun keep_loop :: "postprocess_params \<Rightarrow> candidate list \<Rightarrow> int list \<Rightarrow> detection list \<Rightarrow> detection list run"
where
  "keep_loop params cands [] out = Inr out"
| "keep_loop params cands (idx # ks) out =
     (if 0 \<le> idx \<and> idx < int (length cands)
      then keep_loop params cands ks (out @ [make_detection params (cands ! nat idx)])
      else Inl (Undefined_Behaviour ''vector index out of range''))"

text \<open>\<^verbatim>\<open>reserve\<close> of a negative number, converted to \<^verbatim>\<open>size_t\<close>, throws \<^verbatim>\<open>std::length_error\<close>.\<close>

definition select_kept ::
  "nms_boxes \<Rightarrow> postprocess_params \<Rightarrow> candidate list \<Rightarrow> detection list run"
where
  "select_kept nms params cands =
     (let keep = nms (map fst cands) (map (fst \<circ> snd) cands)
                   (pp_conf_threshold params) (pp_nms_threshold params);
          max_keep = min (int (length keep)) (pp_max_detections params)
      in if max_keep < 0 then Inl (Exception ''std::length_error'')
         else keep_loop params cands (take (nat max_keep) keep) [])"

definition postprocess_yolov8 ::
  "nms_boxes \<Rightarrow> (nat \<Rightarrow> f32) \<Rightarrow> nat \<Rightarrow> nat \<Rightarrow> postprocess_params \<Rightarrow> detection list run"
where
  "postprocess_yolov8 nms raw num_anchors num_classes params =
     (case anchors_loop raw num_anchors num_classes params [0..<num_anchors] [] of
        Inl e \<Rightarrow> Inl e
      | Inr cands \<Rightarrow> select_kept nms params cands)"

subsection \<open>The best class\<close>

text \<open>What the loop computes: the first class whose score is greatest among the positive ones.\<close>

lemma best_class_spec:
  "b \<noteq> NaN \<Longrightarrow> best_class score cs k b = (k', b') \<Longrightarrow>
   b' \<noteq> NaN \<and> b \<le> b' \<and> (\<forall>c \<in> set cs. score c \<noteq> NaN \<longrightarrow> score c \<le> b') \<and>
   (k' = k \<and> b' = b \<or> (\<exists>c \<in> set cs. k' = int c \<and> b' = score c \<and> b < b'))"
proof (induction cs arbitrary: k b)
  case (Cons c cs)
  show ?case
  proof (cases "b < score c")
    case True
    then have "score c \<noteq> NaN" by auto
    with Cons.IH [of "score c" "int c"] Cons.prems True show ?thesis
      by (auto simp: f32_order_defs)
  next
    case False
    with Cons.IH [of b k] Cons.prems show ?thesis
      by (auto simp: f32_order_defs)
  qed
qed simp

subsection \<open>Candidates\<close>

definition anchor_scores :: "(nat \<Rightarrow> f32) \<Rightarrow> nat \<Rightarrow> nat \<Rightarrow> nat \<Rightarrow> f32 list" where
  "anchor_scores raw num_anchors num_classes i =
     map (\<lambda>c. raw ((4 + c) * num_anchors + i)) [0..<num_classes]"

text \<open>
  What the source promises about a candidate of anchor \<open>i\<close>: its score is the greatest of the
  anchor's scores, positive, that of its class, and passes the threshold; its rectangle is the decoded one.
\<close>

definition anchor_candidate ::
  "(nat \<Rightarrow> f32) \<Rightarrow> nat \<Rightarrow> nat \<Rightarrow> postprocess_params \<Rightarrow> nat \<Rightarrow> candidate \<Rightarrow> bool"
where
  "anchor_candidate raw A C params i c =
     (case c of (r, score, cls) \<Rightarrow>
        0 \<le> cls \<and> cls < int C \<and> score = anchor_scores raw A C i ! nat cls \<and>
        f_zero < score \<and> \<not> score < pp_conf_threshold params \<and>
        (\<forall>s \<in> set (anchor_scores raw A C i). s \<noteq> NaN \<longrightarrow> s \<le> score) \<and>
        decode_rect (axis_scale (pp_source_width params) (pp_model_input_width params))
          (axis_scale (pp_source_height params) (pp_model_input_height params))
          (raw i) (raw (A + i)) (raw (2 * A + i)) (raw (3 * A + i)) = Inr r)"

lemma decode_anchor_Some:
  assumes "decode_anchor raw A C params i = Inr (Some c)"
  shows "anchor_candidate raw A C params i c"
proof -
  obtain k b where bc: "best_class (\<lambda>c. raw ((4 + c) * A + i)) [0..<C] (-1) f_zero = (k, b)"
    by fastforce
  have spec: "\<forall>c \<in> set [0..<C]. raw ((4 + c) * A + i) \<noteq> NaN \<longrightarrow> raw ((4 + c) * A + i) \<le> b"
    "k = -1 \<and> b = f_zero \<or> (\<exists>c \<in> set [0..<C]. k = int c \<and> b = raw ((4 + c) * A + i) \<and> f_zero < b)"
    using best_class_spec [OF _ bc] by (auto simp: f_zero_px)
  from assms bc obtain r where r: "c = (r, b, k)" "\<not> b < pp_conf_threshold params" "0 \<le> k"
      "decode_rect (axis_scale (pp_source_width params) (pp_model_input_width params))
         (axis_scale (pp_source_height params) (pp_model_input_height params))
         (raw i) (raw (A + i)) (raw (2 * A + i)) (raw (3 * A + i)) = Inr r"
    by (auto simp: decode_anchor_def split: if_splits sum.splits)
  with spec show ?thesis
    by (auto simp: anchor_candidate_def anchor_scores_def)
qed

lemma anchors_loop_candidates:
  "anchors_loop raw A C params is out = Inr cands \<Longrightarrow>
   \<exists>new. cands = out @ new \<and> length new \<le> length is \<and>
     (\<forall>c \<in> set new. \<exists>i \<in> set is. anchor_candidate raw A C params i c)"
proof (induction "is" arbitrary: out)
  case (Cons i "is")
  from Cons.prems consider
      "decode_anchor raw A C params i = Inr None" "anchors_loop raw A C params is out = Inr cands"
    | c where "decode_anchor raw A C params i = Inr (Some c)"
        "anchors_loop raw A C params is (out @ [c]) = Inr cands"
    by (auto split: sum.splits option.splits)
  then show ?case
  proof cases
    case 1
    from Cons.IH [OF 1(2)] show ?thesis by fastforce
  next
    case 2
    from Cons.IH [OF 2(2)] obtain new where "cands = out @ c # new" "length new \<le> length is"
      "\<forall>c \<in> set new. \<exists>i \<in> set is. anchor_candidate raw A C params i c" by auto
    with decode_anchor_Some [OF 2(1)] show ?thesis by (intro exI [of _ "c # new"]) auto
  qed
qed simp

lemma decode_anchor_passes:
  assumes "decode_anchor raw A C params i = Inr r" "c < C"
    and "f_zero < raw ((4 + c) * A + i)" "\<not> raw ((4 + c) * A + i) < pp_conf_threshold params"
  shows "r \<noteq> None"
proof -
  obtain k b where bc: "best_class (\<lambda>c. raw ((4 + c) * A + i)) [0..<C] (-1) f_zero = (k, b)"
    by fastforce
  have "raw ((4 + c) * A + i) \<noteq> NaN" using assms(3) by auto
  then have "raw ((4 + c) * A + i) \<le> b" "k = -1 \<and> b = f_zero \<or> 0 \<le> k"
    using best_class_spec [OF _ bc] assms(2) by (auto simp: f_zero_px)
  with assms(3,4) have "0 \<le> k" "\<not> b < pp_conf_threshold params"
    by (auto simp: f32_order_defs)
  with assms(1) bc show ?thesis by (auto simp: decode_anchor_def split: sum.splits)
qed

text \<open>
  C18: No object is lost before the suppression: every anchor with a positive score that reaches the
  threshold, for any class, has a candidate of that anchor among those given to \<^verbatim>\<open>NMSBoxes\<close>.
\<close>

theorem no_anchor_lost:
  assumes "anchors_loop raw A C params [0..<A] [] = Inr cands" "i < A" "c < C"
    and "f_zero < raw ((4 + c) * A + i)" "\<not> raw ((4 + c) * A + i) < pp_conf_threshold params"
  shows "\<exists>x \<in> set cands. anchor_candidate raw A C params i x"
proof -
  have "anchors_loop raw A C params is out = Inr cands \<Longrightarrow> i \<in> set is \<Longrightarrow>
      set out \<subseteq> set cands \<and> (\<exists>x \<in> set cands. anchor_candidate raw A C params i x)" for "is" out
  proof (induction "is" arbitrary: out)
    case (Cons j js)
    obtain r where r: "decode_anchor raw A C params j = Inr r"
      using Cons.prems(1) by (auto split: sum.splits)
    have rest: "anchors_loop raw A C params js (out @ (case r of None \<Rightarrow> [] | Some x \<Rightarrow> [x])) = Inr cands"
      using Cons.prems(1) r by (auto split: option.splits)
    have sub: "set (out @ (case r of None \<Rightarrow> [] | Some x \<Rightarrow> [x])) \<subseteq> set cands"
      using anchors_loop_candidates [OF rest] by auto
    show ?case
    proof (cases "j = i")
      case True
      then obtain x where "r = Some x"
        using decode_anchor_passes [of raw A C params i r c] assms(3-5) r by (cases r) auto
      with r True have "anchor_candidate raw A C params i x" by (auto intro: decode_anchor_Some)
      with sub \<open>r = Some x\<close> show ?thesis by auto
    next
      case False
      with Cons.IH [OF rest] Cons.prems(2) sub show ?thesis by auto
    qed
  qed simp
  with assms(1,2) show ?thesis by simp
qed

subsection \<open>Selection under the contract of NMSBoxes\<close>

definition nms_selects :: "nms_boxes \<Rightarrow> bool" where
  "nms_selects nms =
     (\<forall>boxes scores ct nt. distinct (nms boxes scores ct nt) \<and>
        (\<forall>k \<in> set (nms boxes scores ct nt). 0 \<le> k \<and> k < int (length boxes)))"

lemma keep_loop_eq:
  "\<forall>k \<in> set ks. 0 \<le> k \<and> k < int (length cands) \<Longrightarrow>
   keep_loop params cands ks out = Inr (out @ map (\<lambda>k. make_detection params (cands ! nat k)) ks)"
  by (induction ks arbitrary: out) auto

text \<open>Whole-pixel boxes: what the casts to \<^verbatim>\<open>int\<close> and back give for a frame of any usual size.\<close>

definition rect_in_frame :: "cv_rect \<Rightarrow> bool" where
  "rect_in_frame r = (\<bar>rect_x r\<bar> \<le> 2 ^ 24 \<and> \<bar>rect_y r\<bar> \<le> 2 ^ 24 \<and>
     \<bar>rect_width r\<bar> \<le> 2 ^ 24 \<and> \<bar>rect_height r\<bar> \<le> 2 ^ 24)"

lemma rect_box_pixel:
  "rect_in_frame r \<Longrightarrow> rect_box r = pixel_box (rect_x r) (rect_y r) (rect_width r) (rect_height r)"
  by (simp add: rect_box_def pixel_box_def rect_in_frame_def f32_of_int_px)

text \<open>A detection that stands for an anchor of the tensor.\<close>

definition sound_detection ::
  "(nat \<Rightarrow> f32) \<Rightarrow> nat \<Rightarrow> nat \<Rightarrow> postprocess_params \<Rightarrow> detection \<Rightarrow> bool"
where
  "sound_detection raw A C params d =
     (\<exists>i < A. \<exists>r cls. anchor_candidate raw A C params i (r, det_confidence d, cls) \<and>
        det_box d = rect_box r \<and> det_track_id d = -1 \<and>
        det_cls d = (case pp_class_map params cls of None \<Rightarrow> kUnknown | Some k \<Rightarrow> k))"

lemma make_detection_sound:
  assumes "anchor_candidate raw A C params i c" "i < A"
  shows "sound_detection raw A C params (make_detection params c)"
proof -
  obtain r score cls where c: "c = (r, score, cls)" by (cases c) auto
  have "anchor_candidate raw A C params i (r, det_confidence (make_detection params c), cls) \<and>
      det_box (make_detection params c) = rect_box r \<and> det_track_id (make_detection params c) = -1 \<and>
      det_cls (make_detection params c) = (case pp_class_map params cls of None \<Rightarrow> kUnknown | Some k \<Rightarrow> k)"
    using assms(1) by (simp add: c make_detection_def default_detection_def)
  with assms(2) show ?thesis unfolding sound_detection_def by blast
qed

lemma select_kept_eq:
  assumes "nms_selects nms" "0 \<le> pp_max_detections params"
  shows "select_kept nms params cands =
    Inr (map (\<lambda>k. make_detection params (cands ! nat k))
      (take (nat (pp_max_detections params))
        (nms (map fst cands) (map (fst \<circ> snd) cands) (pp_conf_threshold params) (pp_nms_threshold params))))"
proof -
  let ?keep = "nms (map fst cands) (map (fst \<circ> snd) cands) (pp_conf_threshold params) (pp_nms_threshold params)"
  have ks: "\<forall>k \<in> set (take n ?keep). 0 \<le> k \<and> k < int (length cands)" for n
    using assms(1) set_take_subset [of n ?keep] by (fastforce simp: nms_selects_def)
  have "take (nat (min (int (length ?keep)) (pp_max_detections params))) ?keep =
      take (nat (pp_max_detections params)) ?keep"
    using assms(2) by (simp add: min_def nat_le_iff)
  moreover have "\<not> min (int (length ?keep)) (pp_max_detections params) < 0" using assms(2) by simp
  ultimately show ?thesis
    using keep_loop_eq [OF ks] by (simp add: select_kept_def Let_def)
qed

lemma postprocess_bound:
  assumes "postprocess_yolov8 nms raw A C params = Inr ds"
    and "nms_selects nms" "0 \<le> pp_max_detections params"
  shows "(\<forall>d \<in> set ds. sound_detection raw A C params d) \<and>
    length ds \<le> nat (pp_max_detections params) \<and> length ds \<le> A"
proof -
  obtain cands where loop: "anchors_loop raw A C params [0..<A] [] = Inr cands"
    and sel: "select_kept nms params cands = Inr ds"
    using assms(1) by (auto simp: postprocess_yolov8_def split: sum.splits)
  let ?keep = "nms (map fst cands) (map (fst \<circ> snd) cands) (pp_conf_threshold params) (pp_nms_threshold params)"
  have cands: "length cands \<le> A" "\<forall>c \<in> set cands. \<exists>i < A. anchor_candidate raw A C params i c"
    using anchors_loop_candidates [OF loop] by fastforce+
  have nms: "distinct ?keep" "\<forall>k \<in> set ?keep. 0 \<le> k \<and> k < int (length cands)"
    using assms(2) length_map [of fst cands] unfolding nms_selects_def by metis+
  have ds: "ds = map (\<lambda>k. make_detection params (cands ! nat k)) (take (nat (pp_max_detections params)) ?keep)"
    using sel select_kept_eq [OF assms(2,3)] by simp
  have "sound_detection raw A C params d" if "d \<in> set ds" for d
  proof -
    from that obtain k where "k \<in> set (take (nat (pp_max_detections params)) ?keep)"
      and d: "d = make_detection params (cands ! nat k)" unfolding ds by auto
    then have k: "k \<in> set ?keep" "d = make_detection params (cands ! nat k)"
      using in_set_takeD d by fast+
    have "0 \<le> k" "k < int (length cands)" using nms(2) k(1) by blast+
    then have "cands ! nat k \<in> set cands" by (intro nth_mem) linarith
    with cands(2) k(2) show ?thesis using make_detection_sound by blast
  qed
  moreover have "length ?keep \<le> length cands"
  proof -
    have "set ?keep \<subseteq> {0..<int (length cands)}" using nms(2) by auto
    then have "card (set ?keep) \<le> length cands"
      using card_mono [of "{0..<int (length cands)}" "set ?keep"] by simp
    then show ?thesis using distinct_card [OF nms(1)] by simp
  qed
  ultimately show ?thesis using ds cands(1) by auto
qed

text \<open>
  C17: Nothing is invented: every detection stands for an anchor of the tensor, its class is the one
  with the greatest score, that score is its confidence, is positive and not below the threshold,
  its box is the decoded rectangle, it has no track; and there are at most \<open>max_detections\<close> and at
  most one per anchor.
\<close>

theorem postprocess_sound:
  assumes "postprocess_yolov8 nms raw A C params = Inr ds"
    and "nms_selects nms" "0 \<le> pp_max_detections params"
  shows "(\<forall>d \<in> set ds. sound_detection raw A C params d) \<and>
    length ds \<le> nat (pp_max_detections params) \<and> length ds \<le> A"
  by (rule postprocess_bound [OF assms])



subsection \<open>A concrete tensor\<close>

text \<open>
  One anchor in a 640 by 640 image: a box of 100 by 50 around (100, 100), score 1/2 for class 1, and
  a second anchor whose scores are all zero.
\<close>

definition demo_raw :: "nat \<Rightarrow> f32" where
  "demo_raw k = (if k = 0 \<or> k = 2 then px 100 else if k = 4 then px 100 else if k = 6 then px 50
                 else if k = 10 then f_half else f_zero)"

definition demo_params :: postprocess_params where
  "demo_params = default_postprocess_params\<lparr>pp_class_map := [0 \<mapsto> kPerson, 1 \<mapsto> kForklift]\<rparr>"

definition demo_nms :: nms_boxes where
  "demo_nms boxes scores ct nt = map int [0..<length boxes]"

lemma demo_nms_selects: "nms_selects demo_nms"
  by (auto simp: nms_selects_def demo_nms_def distinct_map)

definition demo_detections :: "detection list" where
  "demo_detections =
     [default_detection\<lparr>det_box := pixel_box 50 75 100 50, det_cls := kForklift, det_confidence := f_half\<rparr>]"

lemma demo_postprocess: "postprocess_yolov8 demo_nms demo_raw 2 2 demo_params = Inr demo_detections"
  by code_simp

theorem postprocess_sound_witness:
  "postprocess_yolov8 demo_nms demo_raw 2 2 demo_params = Inr demo_detections \<and>
   list_all (sound_detection demo_raw 2 2 demo_params) demo_detections"
  using postprocess_sound [OF demo_postprocess demo_nms_selects] demo_postprocess
  by (simp add: demo_params_def default_postprocess_params_def list_all_iff)

definition demo_decode :: "nat \<Rightarrow> cv_rect run" where
  "demo_decode i =
     decode_rect (axis_scale (pp_source_width demo_params) (pp_model_input_width demo_params))
       (axis_scale (pp_source_height demo_params) (pp_model_input_height demo_params))
       (demo_raw i) (demo_raw (2 + i)) (demo_raw (2 * 2 + i)) (demo_raw (3 * 2 + i))"

lemma demo_rects:
  assumes "anchor_candidate demo_raw 2 2 demo_params i c" "i < 2"
  shows "rect_in_frame (fst c)"
proof -
  have D: "demo_decode i = Inr (fst c)"
    using assms(1) by (auto simp: anchor_candidate_def demo_decode_def split: prod.splits)
  have D0: "demo_decode 0 = Inr \<lparr>rect_x = 50, rect_y = 75, rect_width = 100, rect_height = 50\<rparr>"
    by code_simp
  have D1: "demo_decode 1 = Inr \<lparr>rect_x = 0, rect_y = 0, rect_width = 0, rect_height = 0\<rparr>"
    by code_simp
  have "i = 0 \<or> i = 1" using assms(2) by auto
  then have "fst c = \<lparr>rect_x = 50, rect_y = 75, rect_width = 100, rect_height = 50\<rparr> \<or>
      fst c = \<lparr>rect_x = 0, rect_y = 0, rect_width = 0, rect_height = 0\<rparr>"
    using D D0 D1 by (metis sum.inject(2))
  then show ?thesis by (auto simp: rect_in_frame_def)
qed



theorem no_anchor_lost_witness:
  "case anchors_loop demo_raw 2 2 demo_params [0..<2] [] of
     Inl _ \<Rightarrow> False | Inr cands \<Rightarrow> \<exists>x \<in> set cands. anchor_candidate demo_raw 2 2 demo_params 0 x"
proof -
  have "case anchors_loop demo_raw 2 2 demo_params [0..<2] [] of Inl _ \<Rightarrow> False | Inr _ \<Rightarrow> True"
    by code_simp
  then obtain cands where cands: "anchors_loop demo_raw 2 2 demo_params [0..<2] [] = Inr cands"
    by (auto split: sum.splits)
  have "f_zero < demo_raw ((4 + 1) * 2 + 0)" "\<not> demo_raw ((4 + 1) * 2 + 0) < pp_conf_threshold demo_params"
    by code_simp+
  from no_anchor_lost [OF cands _ _ this] cands show ?thesis by simp
qed

end
