(* ===== verification/Onnx_Engine.thy ===== *)
theory Onnx_Engine
  imports Yolo Video_Source
begin

text \<open>
  The inference port, its configuration, the ONNX Runtime engine
  (\<^verbatim>\<open>src/infrastructure/ai/OnnxInferenceEngine.cpp\<close>) and the factory that chooses a backend.
  ONNX Runtime and OpenCV's image operations are parameters.
\<close>

subsection \<open>Configuration\<close>

datatype inference_device = kCpu | kCuda

definition device_to_string :: "inference_device \<Rightarrow> string" where
  "device_to_string d = (if d = kCuda then ''cuda'' else ''cpu'')"

text \<open>The \<^verbatim>\<open>unordered_map\<close> of class indices is a list of pairs with distinct keys.\<close>

record inference_config =
  ic_model_path :: string
  ic_input_width :: int
  ic_input_height :: int
  ic_conf_threshold :: f32
  ic_nms_threshold :: f32
  ic_max_detections :: int
  ic_device :: inference_device
  ic_class_map :: "(int \<times> object_class) list"

definition default_inference_config :: inference_config where
  "default_inference_config =
     \<lparr>ic_model_path = [], ic_input_width = 640, ic_input_height = 640,
      ic_conf_threshold = f32_lit 35 100, ic_nms_threshold = f32_lit 45 100,
      ic_max_detections = 300, ic_device = kCpu, ic_class_map = []\<rparr>"

subsection \<open>The port\<close>

text \<open>
  \<^verbatim>\<open>InferenceEngine\<close> as a pipeline relies on it: an engine is ready after a successful \<open>initialize\<close>, and one that
  is not reports it, as a value.
\<close>

locale inference_engine =
  fixes fresh :: 'e
    and initialize :: "inference_config \<Rightarrow> 'e \<Rightarrow> void_result \<times> 'e"
    and infer :: "'e \<Rightarrow> 'm frame \<Rightarrow> detection list result run"
    and ready :: "'e \<Rightarrow> bool"
  assumes fresh_unready: "\<not> ready fresh"
    and ready_after: "ready (snd (initialize cfg e)) \<longleftrightarrow> vr_ok (fst (initialize cfg e)) \<or> ready e"
    and unready_reports: "\<not> ready e \<Longrightarrow> \<exists>err. infer e f = Inr (Inl err)"
begin

lemma failed_unready: "\<not> vr_ok (fst (initialize cfg fresh)) \<Longrightarrow> \<not> ready (snd (initialize cfg fresh))"
  by (simp add: ready_after fresh_unready)

end

subsection \<open>The ONNX Runtime engine\<close>

text \<open>
  The parameters: opening a session (an \<^verbatim>\<open>Ort::Exception\<close> is its text), the names of its inputs and
  outputs, a run (the shape and the data of each output), the preprocessing of an image to a
  float image of a given size, as rows of interleaved channels, and the image's size.
\<close>

record 'm engine_api =
  ea_open :: "inference_device \<Rightarrow> string \<Rightarrow> string + (string list \<times> string list)"
  ea_run :: "string list \<Rightarrow> string list \<Rightarrow> f32 list \<Rightarrow> int list \<Rightarrow> string + (int list \<times> (nat \<Rightarrow> f32)) list"
  ea_resize_rgb :: "'m \<Rightarrow> int \<Rightarrow> int \<Rightarrow> (nat \<Rightarrow> nat \<Rightarrow> f32) run"
  ea_cols :: "'m \<Rightarrow> int"
  ea_rows :: "'m \<Rightarrow> int"
  ea_nms :: nms_boxes

record onnx_engine =
  oe_cfg :: inference_config
  oe_session :: bool
  oe_input_names_storage :: "string list"
  oe_output_names_storage :: "string list"
  oe_input_names :: "string list"
  oe_output_names :: "string list"
  oe_pp :: postprocess_params

definition onnx_new :: onnx_engine where
  "onnx_new =
     \<lparr>oe_cfg = default_inference_config, oe_session = False, oe_input_names_storage = [],
      oe_output_names_storage = [], oe_input_names = [], oe_output_names = [],
      oe_pp = default_postprocess_params\<rparr>"

definition engine_class_map :: "(int \<times> object_class) list \<Rightarrow> (int \<rightharpoonup> object_class) \<Rightarrow> int \<rightharpoonup> object_class" where
  "engine_class_map cfg_map old =
     (if cfg_map \<noteq> [] then map_of cfg_map else old(0 \<mapsto> kPerson, 1 \<mapsto> kForklift))"

definition onnx_initialize ::
  "'m engine_api \<Rightarrow> inference_config \<Rightarrow> onnx_engine \<Rightarrow> void_result \<times> onnx_engine"
where
  "onnx_initialize api cfg s =
     (let s1 = s\<lparr>oe_cfg := cfg\<rparr>
      in case ea_open api (ic_device cfg) (ic_model_path cfg) of
          Inl what \<Rightarrow> (vr_failure (mk_error 2 (''ORT init failed: '' @ what)), s1)
        | Inr (ins, outs) \<Rightarrow>
            (let ins' = oe_input_names_storage s1 @ ins; outs' = oe_output_names_storage s1 @ outs
             in (vr_success,
                 s1\<lparr>oe_session := True,
                    oe_input_names_storage := ins', oe_output_names_storage := outs',
                    oe_input_names := oe_input_names s1 @ ins',
                    oe_output_names := oe_output_names s1 @ outs',
                    oe_pp := (oe_pp s1)\<lparr>
                      pp_model_input_width := ic_input_width cfg,
                      pp_model_input_height := ic_input_height cfg,
                      pp_conf_threshold := ic_conf_threshold cfg,
                      pp_nms_threshold := ic_nms_threshold cfg,
                      pp_max_detections := ic_max_detections cfg,
                      pp_class_map := engine_class_map (ic_class_map cfg) (pp_class_map (oe_pp s1))\<rparr>\<rparr>)))"

text \<open>The copy of the interleaved rows into three planes.\<close>

definition fill_cell :: "(nat \<Rightarrow> f32) \<Rightarrow> nat \<Rightarrow> nat \<Rightarrow> nat \<Rightarrow> nat \<Rightarrow> f32 list \<Rightarrow> f32 list" where
  "fill_cell row H W r c blob =
     blob[0 * H * W + r * W + c := row (c * 3 + 0),
          1 * H * W + r * W + c := row (c * 3 + 1),
          2 * H * W + r * W + c := row (c * 3 + 2)]"

definition fill_row :: "(nat \<Rightarrow> nat \<Rightarrow> f32) \<Rightarrow> nat \<Rightarrow> nat \<Rightarrow> nat \<Rightarrow> f32 list \<Rightarrow> f32 list" where
  "fill_row rgb H W r blob = fold (fill_cell (rgb r) H W r) [0..<W] blob"

definition fill_blob :: "(nat \<Rightarrow> nat \<Rightarrow> f32) \<Rightarrow> nat \<Rightarrow> nat \<Rightarrow> f32 list" where
  "fill_blob rgb H W = fold (fill_row rgb H W) [0..<H] (replicate (3 * H * W) f_zero)"

text \<open>\<^verbatim>\<open>std::vector<float>(3 * H * W)\<close>: signed overflow is undefined, a negative size throws.\<close>

definition blob_alloc :: "int \<Rightarrow> int \<Rightarrow> unit run" where
  "blob_alloc H W =
     (if \<not> (- (2 ^ 31) \<le> 3 * H \<and> 3 * H < 2 ^ 31 \<and> - (2 ^ 31) \<le> 3 * H * W \<and> 3 * H * W < 2 ^ 31)
      then Inl (Undefined_Behaviour ''int overflow'')
      else if 3 * H * W < 0 then Inl (Exception ''std::length_error'')
      else Inr ())"

text \<open>The outputs of a run: rank, channels, and the call of the post-processing.\<close>

definition read_output ::
  "'m engine_api \<Rightarrow> onnx_engine \<Rightarrow> 'm \<Rightarrow> (int list \<times> (nat \<Rightarrow> f32)) list \<Rightarrow> detection list result run"
where
  "read_output api s img outs =
     (case outs of
        [] \<Rightarrow> Inr (Inl (mk_error 4 ''ORT returned no outputs''))
      | (shape, raw) # _ \<Rightarrow>
          if length shape \<noteq> 3 then Inr (Inl (mk_error 5 ''unexpected output rank''))
          else let channels = nat (shape ! 1 mod 2 ^ 64); num_anchors = nat (shape ! 2 mod 2 ^ 64)
               in if channels < 5 then Inr (Inl (mk_error 6 ''model has no class channels''))
                  else let params = (oe_pp s)\<lparr>pp_source_width := ea_cols api img,
                                              pp_source_height := ea_rows api img\<rparr>
                       in case postprocess_yolov8 (ea_nms api) raw num_anchors (channels - 4) params of
                            Inl fault \<Rightarrow> Inl fault
                          | Inr ds \<Rightarrow> Inr (Inr ds))"

definition onnx_infer ::
  "'m engine_api \<Rightarrow> onnx_engine \<Rightarrow> 'm frame \<Rightarrow> detection list result run"
where
  "onnx_infer api s frame =
     (if \<not> oe_session s then Inr (Inl (mk_error 3 ''engine not initialized''))
      else let H = ic_input_height (oe_cfg s); W = ic_input_width (oe_cfg s)
           in case ea_resize_rgb api (fr_image frame) W H of
               Inl fault \<Rightarrow> Inl fault
             | Inr rgb \<Rightarrow>
                 (case blob_alloc H W of
                    Inl fault \<Rightarrow> Inl fault
                  | Inr _ \<Rightarrow>
                      (case ea_run api (take 1 (oe_input_names s)) (oe_output_names s)
                              (fill_blob rgb (nat H) (nat W)) [1, 3, H, W] of
                         Inl what \<Rightarrow> Inr (Inl (mk_error 7 (''ORT infer failed: '' @ what)))
                       | Inr outs \<Rightarrow> read_output api s (fr_image frame) outs)))"

subsection \<open>The factory\<close>

datatype backend = kOnnxRuntime | kTensorRT

definition parse_backend :: "string \<Rightarrow> backend" where
  "parse_backend name = (if name = ''tensorrt'' \<or> name = ''trt'' then kTensorRT else kOnnxRuntime)"

definition backend_to_string :: "backend \<Rightarrow> string" where
  "backend_to_string b = (case b of kTensorRT \<Rightarrow> ''tensorrt'' | kOnnxRuntime \<Rightarrow> ''onnxruntime'')"

text \<open>The build flag \<^verbatim>\<open>FSS_WITH_ONNXRUNTIME\<close> is an argument.\<close>

definition available_backends :: "bool \<Rightarrow> string list" where
  "available_backends with_onnx = (if with_onnx then [''onnxruntime''] else [])"

definition make_inference_engine :: "bool \<Rightarrow> backend \<Rightarrow> onnx_engine result" where
  "make_inference_engine with_onnx b =
     (case b of
        kOnnxRuntime \<Rightarrow>
          if with_onnx then Inr onnx_new
          else Inl (mk_error 20 ''onnxruntime backend requested but binary built without FSS_WITH_ONNXRUNTIME'')
      | kTensorRT \<Rightarrow>
          Inl (mk_error 21 ''tensorrt backend is not yet implemented (see docs/adr/0002-inference-backends.md)''))"

subsection \<open>The planar blob\<close>

text \<open>The index of channel \<open>ch\<close>, row \<open>r\<close> and column \<open>c\<close>; different cells have different indices.\<close>

definition blob_index :: "nat \<Rightarrow> nat \<Rightarrow> nat \<Rightarrow> nat \<Rightarrow> nat \<Rightarrow> nat" where
  "blob_index H W ch r c = (ch * H + r) * W + c"

lemma mult_add_inject:
  fixes a b c d n :: nat
  assumes "c < n" "d < n"
  shows "a * n + c = b * n + d \<longleftrightarrow> a = b \<and> c = d"
proof
  assume eq: "a * n + c = b * n + d"
  have "(a * n + c) div n = a" "(b * n + d) div n = b" "(a * n + c) mod n = c" "(b * n + d) mod n = d"
    using assms by simp_all
  with eq show "a = b \<and> c = d" by metis
qed auto

lemma blob_index_inject:
  "r < H \<Longrightarrow> r' < H \<Longrightarrow> c < W \<Longrightarrow> c' < W \<Longrightarrow>
   blob_index H W ch r c = blob_index H W ch' r' c' \<longleftrightarrow> ch = ch' \<and> r = r' \<and> c = c'"
  by (auto simp: blob_index_def mult_add_inject)

lemma blob_index_bound:
  assumes "ch < 3" "r < H" "c < W"
  shows "blob_index H W ch r c < 3 * H * W"
proof -
  have "ch * H + r < (ch + 1) * H" using assms(2) by simp
  also have "\<dots> \<le> 3 * H" using assms(1) by (intro mult_right_mono) auto
  finally have "ch * H + r + 1 \<le> 3 * H" by simp
  then have "(ch * H + r + 1) * W \<le> 3 * H * W" by (rule mult_right_mono) simp
  then show ?thesis using assms(3) by (simp add: blob_index_def algebra_simps)
qed

lemma fill_cell_index:
  "fill_cell row H W r c blob =
     blob[blob_index H W 0 r c := row (c * 3), blob_index H W 1 r c := row (c * 3 + 1),
          blob_index H W 2 r c := row (c * 3 + 2)]"
  by (simp add: fill_cell_def blob_index_def algebra_simps)

lemma length_fill [simp]:
  "length (fill_cell row H W r c blob) = length blob"
  "length (fold (fill_cell row H W r) cs blob) = length blob"
  "length (fill_row rgb H W r blob) = length blob"
  "length (fold (fill_row rgb H W) rs blob) = length blob"
proof -
  show cell: "length (fill_cell row H W r c blob) = length blob" for c blob
    by (simp add: fill_cell_def)
  show cells: "length (fold (fill_cell row H W r) cs blob) = length blob" for row r cs blob
    by (induction cs arbitrary: blob) (simp_all add: fill_cell_def)
  show "length (fill_row rgb H W r blob) = length blob" by (simp add: fill_row_def cells)
  show "length (fold (fill_row rgb H W) rs blob) = length blob"
    by (induction rs arbitrary: blob) (simp_all add: fill_row_def cells)
qed

text \<open>The cells of a list of writes: the last write to a cell counts, and all write the same.\<close>

lemma fill_cells_nth:
  assumes "r < H" "r' < H" "c' < W" "\<forall>c \<in> set cs. c < W" "ch < 3" "length blob = 3 * H * W"
  shows "fold (fill_cell row H W r) cs blob ! blob_index H W ch r' c' =
    (if r' = r \<and> c' \<in> set cs then row (c' * 3 + ch) else blob ! blob_index H W ch r' c')"
  using assms(4,6)
proof (induction cs arbitrary: blob)
  case (Cons c cs)
  have ch: "ch = 0 \<or> ch = 1 \<or> ch = 2" using assms(5) by auto
  have cell: "fill_cell row H W r c blob ! blob_index H W ch r' c' =
      (if r' = r \<and> c' = c then row (c' * 3 + ch) else blob ! blob_index H W ch r' c')"
    using assms(1-3,5) Cons.prems ch
    by (auto simp: fill_cell_index nth_list_update blob_index_inject blob_index_bound)
  show ?case using Cons.IH [of "fill_cell row H W r c blob"] Cons.prems cell by auto
qed simp

lemma fill_rows_nth:
  assumes "r' < H" "c < W" "ch < 3" "\<forall>r \<in> set rs. r < H" "length blob = 3 * H * W"
  shows "fold (fill_row rgb H W) rs blob ! blob_index H W ch r' c =
    (if r' \<in> set rs then rgb r' (c * 3 + ch) else blob ! blob_index H W ch r' c)"
  using assms(4,5)
proof (induction rs arbitrary: blob)
  case (Cons r rs)
  have "fill_row rgb H W r blob ! blob_index H W ch r' c =
      (if r' = r then rgb r (c * 3 + ch) else blob ! blob_index H W ch r' c)"
    using assms(1-3) Cons.prems fill_cells_nth [of r H r' c W "[0..<W]" ch blob "rgb r"]
    by (auto simp: fill_row_def)
  with Cons.IH [of "fill_row rgb H W r blob"] Cons.prems show ?case by auto
qed simp

text \<open>
  C32: The input tensor is the image in planes: of the \<open>3 * H * W\<close> floats, the one of channel \<open>ch\<close>, row
  \<open>r\<close> and column \<open>c\<close> is channel \<open>ch\<close> of that pixel of the interleaved image, for every cell.
\<close>

theorem blob_is_planar:
  "length (fill_blob rgb H W) = 3 * H * W \<and>
   (\<forall>ch < 3. \<forall>r < H. \<forall>c < W. fill_blob rgb H W ! ((ch * H + r) * W + c) = rgb r (c * 3 + ch))"
  using fill_rows_nth [of _ H _ W _ "[0..<H]" "replicate (3 * H * W) f_zero" rgb]
  by (auto simp: fill_blob_def blob_index_def)

theorem blob_is_planar_witness:
  "fill_blob (\<lambda>r k. px (int (10 * r + k))) 2 2 ! ((1 * 2 + 1) * 2 + 0) = px 11"
  using conjunct2 [OF blob_is_planar [where rgb = "\<lambda>r k. px (int (10 * r + k))" and H = 2 and W = 2], rule_format, of 1 1 0]
  by simp

subsection \<open>Engine results\<close>

interpretation onnx: inference_engine onnx_new "onnx_initialize api" "onnx_infer api" oe_session
  by unfold_locales
    (auto simp: onnx_new_def onnx_initialize_def onnx_infer_def Let_def vr_ok_def vr_success_def vr_failure_def split: sum.splits)

text \<open>An engine as \<open>initialize\<close> leaves it after success.\<close>

definition engine_ready :: "inference_config \<Rightarrow> onnx_engine \<Rightarrow> bool" where
  "engine_ready cfg s =
     (oe_session s \<and> oe_cfg s = cfg \<and>
      pp_model_input_width (oe_pp s) = ic_input_width cfg \<and>
      pp_model_input_height (oe_pp s) = ic_input_height cfg \<and>
      pp_conf_threshold (oe_pp s) = ic_conf_threshold cfg \<and>
      pp_nms_threshold (oe_pp s) = ic_nms_threshold cfg \<and>
      pp_max_detections (oe_pp s) = ic_max_detections cfg \<and>
      pp_class_map (oe_pp s) =
        (if ic_class_map cfg = [] then [0 \<mapsto> kPerson, 1 \<mapsto> kForklift] else map_of (ic_class_map cfg)))"

lemma initialize_ready:
  "onnx_initialize api cfg onnx_new = (r, s) \<Longrightarrow> vr_ok r \<Longrightarrow> engine_ready cfg s"
  by (auto simp: onnx_initialize_def onnx_new_def engine_ready_def engine_class_map_def
      default_postprocess_params_def Let_def split: sum.splits)

lemma initialize_failed:
  "onnx_initialize api cfg onnx_new = (r, s) \<Longrightarrow> \<not> vr_ok r \<Longrightarrow>
   err_code (vr_err r) = 2 \<and> \<not> oe_session s"
  by (auto simp: onnx_initialize_def onnx_new_def Let_def vr_failure_def mk_error_def split: sum.splits)

lemma infer_Ok:
  assumes "onnx_infer api s frame = Inr (Inr ds)"
  obtains outs where "read_output api s (fr_image frame) outs = Inr (Inr ds)"
proof (cases "oe_session s")
  case True
  obtain rgb where rgb: "ea_resize_rgb api (fr_image frame) (ic_input_width (oe_cfg s))
      (ic_input_height (oe_cfg s)) = Inr rgb"
    using assms True by (auto simp: onnx_infer_def Let_def split: sum.splits)
  obtain u where alloc: "blob_alloc (ic_input_height (oe_cfg s)) (ic_input_width (oe_cfg s)) = Inr u"
    using assms True rgb by (auto simp: onnx_infer_def Let_def split: sum.splits)
  show thesis
    using assms True rgb alloc that by (auto simp: onnx_infer_def Let_def split: sum.splits)
qed (use assms in \<open>simp add: onnx_infer_def\<close>)

lemma read_output_Ok:
  assumes "read_output api s img outs = Inr (Inr ds)"
  obtains shape raw where "length shape = 3" "\<not> nat (shape ! 1 mod 2 ^ 64) < 5"
    "postprocess_yolov8 (ea_nms api) raw (nat (shape ! 2 mod 2 ^ 64)) (nat (shape ! 1 mod 2 ^ 64) - 4)
      ((oe_pp s)\<lparr>pp_source_width := ea_cols api img, pp_source_height := ea_rows api img\<rparr>) = Inr ds"
proof (cases outs)
  case (Cons o1 more)
  obtain shape raw where o1: "o1 = (shape, raw)" by (cases o1)
  let ?call = "postprocess_yolov8 (ea_nms api) raw (nat (shape ! 2 mod 2 ^ 64)) (nat (shape ! 1 mod 2 ^ 64) - 4)
      ((oe_pp s)\<lparr>pp_source_width := ea_cols api img, pp_source_height := ea_rows api img\<rparr>)"
  have "length shape = 3" "\<not> nat (shape ! 1 mod 2 ^ 64) < 5"
    using assms by (auto simp: Cons o1 read_output_def Let_def split: if_splits)
  moreover have "?call = Inr ds"
    using assms calculation by (cases ?call) (simp_all add: Cons o1 read_output_def Let_def)
  ultimately show thesis by (rule that)
qed (use assms in \<open>simp add: read_output_def\<close>)


text \<open>
  The factory: a backend's printed name parses back to it, an unknown name means ONNX Runtime,
  and a backend can be made exactly when its name is among those advertised, with code 20 for a
  build without ONNX Runtime and 21 for TensorRT.
\<close>

theorem factory_contract:
  "parse_backend (backend_to_string b) = b \<and>
   (name \<notin> {''tensorrt'', ''trt''} \<longrightarrow> parse_backend name = kOnnxRuntime) \<and>
   (result_ok (make_inference_engine with_onnx b) \<longleftrightarrow> backend_to_string b \<in> set (available_backends with_onnx)) \<and>
   (\<forall>e. make_inference_engine with_onnx b = Inl e \<longrightarrow> err_code e = (if b = kTensorRT then 21 else 20))"
  by (cases b) (auto simp: parse_backend_def backend_to_string_def available_backends_def
      make_inference_engine_def mk_error_def)

subsection \<open>A concrete engine\<close>

definition demo_engine_api :: "unit engine_api" where
  "demo_engine_api =
     \<lparr>ea_open = (\<lambda>_ path. if path = [] then Inl ''no model'' else Inr ([''images''], [''output0''])),
      ea_run = (\<lambda>ins outs blob shape. Inr [([1, 6, 2], demo_raw)]),
      ea_resize_rgb = (\<lambda>_ w h. Inr (\<lambda>r k. f_zero)), ea_cols = (\<lambda>_. 0), ea_rows = (\<lambda>_. 0),
      ea_nms = demo_nms\<rparr>"

definition demo_inference_config :: inference_config where
  "demo_inference_config =
     default_inference_config\<lparr>ic_model_path := ''m.onnx'', ic_input_width := 1, ic_input_height := 1\<rparr>"

definition demo_engine :: onnx_engine where
  "demo_engine = snd (onnx_initialize demo_engine_api demo_inference_config onnx_new)"

definition blank_frame :: "unit frame" where
  "blank_frame = \<lparr>fr_camera_id = [], fr_sequence = 1, fr_captured_at = 0, fr_image = ()\<rparr>"

lemma demo_initialize:
  "onnx_initialize demo_engine_api demo_inference_config onnx_new = (vr_success, demo_engine)"
  by (simp add: demo_engine_def onnx_initialize_def demo_engine_api_def demo_inference_config_def Let_def)

lemma demo_infer: "onnx_infer demo_engine_api demo_engine blank_frame = Inr (Inr demo_detections)"
  by code_simp


theorem factory_contract_witness:
  "parse_backend ''cuda'' = kOnnxRuntime \<and> parse_backend (backend_to_string kTensorRT) = kTensorRT \<and>
   \<not> result_ok (make_inference_engine True kTensorRT) \<and> result_ok (make_inference_engine True kOnnxRuntime)"
  using factory_contract [of kTensorRT "''cuda''" True] factory_contract [of kOnnxRuntime "''cuda''" True]
  by (simp add: backend_to_string_def available_backends_def)

end
