(* ===== verification/Worker_Failures.thy ===== *)
theory Worker_Failures
  imports Pipeline_Threads Onnx_Engine
begin

text \<open>
  What becomes of a pipeline whose engine throws.  The inference loop is a task of the pool: an
  exception that leaves it is stored in the future that \<^verbatim>\<open>FrameProcessingPipeline::start\<close> discards
  (\<^verbatim>\<open>src/application/FrameProcessingPipeline.cpp\<close>), so that the task is over and nothing reports it.
\<close>

definition faulted :: "'m worker_pc \<Rightarrow> bool" where
  "faulted w = (case w of Wk_Faulted _ \<Rightarrow> True | _ \<Rightarrow> False)"

lemma faulted_finished: "faulted w \<Longrightarrow> worker_finished w"
  by (simp add: faulted_def worker_finished_def split: worker_pc.splits)

text \<open>A state in which every worker has failed, with what has been reported so far.\<close>

definition silent :: "(nat \<Rightarrow> 'm effect list) \<Rightarrow> ('s, 'm) pipeline \<times> 'm trace \<Rightarrow> bool" where
  "silent out h = (case h of (p, tr) \<Rightarrow> list_all faulted (pl_workers p) \<and> tr_out tr = out)"

lemma silent_step:
  assumes "pipe_step cfg deps ops h h'" "silent out h"
  shows "silent out h'"
  using assms
proof (induction rule: pipe_step.induct)
  case (capture t p p' tr)
  from capture(1) have "pl_workers p' = pl_workers p" by (auto elim: capture_step_cases)
  with capture(2) show ?case by (simp add: silent_def trace_capture_def)
next
  case (worker i p now ts p' out' tr)
  then have "worker_finished (pl_workers p ! i)"
    by (auto simp: silent_def list_all_length intro: faulted_finished)
  with worker(2) show ?case by (auto elim!: inference_step_cases simp: worker_finished_def)
next
  case (stop p p' tr)
  from stop(1) have "pl_workers p' = pl_workers p" by (auto elim: stop_step_cases)
  with stop(2) show ?case by (simp add: silent_def)
qed


subsection \<open>How it comes about\<close>

text \<open>
  Exceptions leave \<open>infer\<close> from the preparation of the image, which is before the \<^verbatim>\<open>try\<close>, and from the
  post-processing, because only ONNX Runtime's own exceptions are caught: a configuration with a
  negative \<^verbatim>\<open>max_detections\<close> makes the first frame that shows anything the last one.
\<close>

lemma infer_exception_ends_worker:
  assumes "pl_workers p ! i = Wk_Frame seen f" "\<not> frame_empty (pd_mat_empty deps) f" "pd_infer deps f = Inl e"
  shows "inference_step cfg deps now ts i p = Some (set_worker i (Wk_Faulted e) p, [])"
  using assms by (simp add: inference_step_def process_frame_def)

text \<open>An error of the engine is only logged: a worker whose engine never became ready goes on, without an alert.\<close>

context inference_engine begin

lemma unready_run:
  assumes "\<not> ready e" "pd_infer deps = infer e"
  shows "\<exists>out. inference_run cfg deps xs seen = Inr (seen, out) \<and> alerts_of out = []"
proof (induction xs)
  case (Cons x xs)
  obtain now ts f where x: "x = (now, ts, f)" by (metis surj_pair)
  obtain err where "infer e f = Inr (Inl err)" using unready_reports [OF assms(1)] by blast
  then have "process_frame cfg deps now ts f seen = Inr (seen,
      if frame_empty (pd_mat_empty deps) f then [] else stale_effects cfg deps now f @ [Log_Infer_Failed (err_message err)])"
    by (simp add: process_frame_def assms(2) Let_def)
  with Cons show ?case by (auto simp: x)
qed simp

lemma failed_engine_run:
  assumes "\<not> vr_ok (fst (initialize icfg fresh))" "pd_infer deps = infer (snd (initialize icfg fresh))"
  shows "\<exists>out. inference_run cfg deps xs seen = Inr (seen, out) \<and> alerts_of out = []"
  using unready_run [OF failed_unready [OF assms(1)] assms(2)] .

end

lemma failed_onnx_run:
  assumes "\<not> vr_ok (fst (onnx_initialize api icfg onnx_new))"
    and "pd_infer deps = onnx_infer api (snd (onnx_initialize api icfg onnx_new))"
  shows "\<exists>out. inference_run cfg deps xs seen = Inr (seen, out) \<and> alerts_of out = []"
  using assms by (rule onnx.failed_engine_run)

definition limit_engine :: onnx_engine where
  "limit_engine = snd (onnx_initialize demo_engine_api (demo_inference_config\<lparr>ic_max_detections := -1\<rparr>) onnx_new)"

definition limit_deps :: "unit pipeline_deps" where
  "limit_deps = demo_deps\<lparr>pd_infer := onnx_infer demo_engine_api limit_engine\<rparr>"

definition limit_moves :: "move list" where
  "limit_moves =
     [Move_Capture 0, Move_Capture 1, Move_Capture 2, Move_Worker 0 0, Move_Worker 0 0, Move_Worker 0 0,
      Move_Worker 0 0]"

definition limit_start :: "(bool rtsp_source, unit) pipeline \<times> unit trace" where
  "limit_start =
     (pl_start default_pipeline_config (pl_new default_pipeline_config (rtsp_new default_rtsp_config False)), no_trace)"

lemma limit_facts:
  "case pipe_run default_pipeline_config limit_deps (rtsp_ops demo_api) limit_moves limit_start of
     None \<Rightarrow> False
   | Some (p, tr) \<Rightarrow>
       length (pl_workers p) = 1 \<and> list_all faulted (pl_workers p) \<and> tr_out tr 0 = [] \<and>
       length (tr_pushed tr) = 1 \<and>
       (case pipe_run default_pipeline_config limit_deps (rtsp_ops demo_api)
               [Move_Capture 3, Move_Capture 4, Move_Capture 5, Move_Capture 6] (p, tr) of
          None \<Rightarrow> False
        | Some (p', tr') \<Rightarrow> length (tr_pushed tr') = 3 \<and> pl_capture p' = Cap_Loop)"
  by code_simp

lemma pipe_run_steps: "pipe_run cfg deps ops ms h = Some h' \<Longrightarrow> (pipe_step cfg deps ops)\<^sup>*\<^sup>* h h'"
proof (induction ms arbitrary: h)
  case (Cons m ms)
  from Cons.prems obtain h1 where h1: "pipe_move cfg deps ops m h = Some h1" "pipe_run cfg deps ops ms h1 = Some h'"
    by (auto split: option.splits)
  from pipe_move_step [OF h1(1)] Cons.IH [OF h1(2)] show ?case by (rule converse_rtranclp_into_rtranclp)
qed simp


end
