(* ===== verification/Number_Text.thy ===== *)
theory Number_Text
  imports Float32
begin

text \<open>
  The text of floats: \<^verbatim>\<open>std::ostream << float\<close> with its default precision of six (\<^verbatim>\<open>%g\<close>) and
  \<^verbatim>\<open>snprintf\<close> with \<^verbatim>\<open>%.2f\<close> into a buffer of 32 bytes, in the C locale.  Both round the exact value
  to nearest, ties to even.  The transports print boxes and confidences with them.
\<close>

subsection \<open>Default stream format\<close>

text \<open>The decimal exponent of \<open>a / d\<close>: the \<open>e\<close> with \<open>10^e \<le> a / d < 10^(e+1)\<close> (\<open>0 < a\<close>, \<open>0 < d\<close>).\<close>

function dec_exp_up :: "int \<Rightarrow> int \<Rightarrow> int" where
  "dec_exp_up a d = (if 0 < d \<and> 10 * d \<le> a then 1 + dec_exp_up a (10 * d) else 0)"
  by pat_completeness auto
termination
  by (relation "measure (\<lambda>(a, d). nat (a - d))") auto

function dec_exp_down :: "int \<Rightarrow> int \<Rightarrow> int" where
  "dec_exp_down a d = (if 0 < a \<and> a < d then dec_exp_down (10 * a) d - 1 else 0)"
  by pat_completeness auto
termination
  by (relation "measure (\<lambda>(a, d). nat (d - a))") auto

declare dec_exp_up.simps [simp del] dec_exp_down.simps [simp del]

definition dec_exp :: "int \<Rightarrow> int \<Rightarrow> int" where
  "dec_exp a d = (if a < d then dec_exp_down a d else dec_exp_up a d)"

text \<open>\<open>a / d * 10 ^ k\<close> rounded to an integer, for a \<open>k\<close> of either sign.\<close>

definition scaled_round :: "int \<Rightarrow> int \<Rightarrow> int \<Rightarrow> int" where
  "scaled_round a d k =
     (if 0 \<le> k then rne_div (a * 10 ^ nat k) d else rne_div a (d * 10 ^ nat (- k)))"

text \<open>Six significant digits and the exponent, as \<^verbatim>\<open>%e\<close> rounds them.\<close>

definition six_digits :: "int \<Rightarrow> int \<Rightarrow> int \<times> int" where
  "six_digits a d =
     (let e = dec_exp a d; m = scaled_round a d (5 - e)
      in if m = 1000000 then (100000, e + 1) else (m, e))"

text \<open>The last \<open>n\<close> decimal digits of a number, with leading zeros.\<close>

fun fixed_digits :: "nat \<Rightarrow> int \<Rightarrow> string" where
  "fixed_digits 0 m = []"
| "fixed_digits (Suc n) m = fixed_digits n (m div 10) @ [digit_char (m mod 10)]"

definition strip_zeros :: "string \<Rightarrow> string" where
  "strip_zeros s = rev (dropWhile (\<lambda>c. c = CHR ''0'') (rev s))"

definition with_fraction :: "string \<Rightarrow> string \<Rightarrow> string" where
  "with_fraction whole frac = (if strip_zeros frac = [] then whole else whole @ ''.'' @ strip_zeros frac)"

definition exponent_text :: "int \<Rightarrow> string" where
  "exponent_text e = (if e < 0 then ''e-'' else ''e+'') @
     (if \<bar>e\<bar> < 10 then ''0'' else []) @ dec_nonneg \<bar>e\<bar>"

definition format_g_pos :: "int \<Rightarrow> int \<Rightarrow> string" where
  "format_g_pos a d =
     (case six_digits a d of (m, e) \<Rightarrow>
        if - 4 \<le> e \<and> e < 6
        then (let k = nat (5 - e)
              in with_fraction (dec_nonneg (m div 10 ^ k)) (fixed_digits k (m mod 10 ^ k)))
        else with_fraction (dec_nonneg (m div 100000)) (fixed_digits 5 (m mod 100000)) @ exponent_text e)"

definition format_g :: "f32 \<Rightarrow> string" where
  "format_g x =
     (case x of
        NaN \<Rightarrow> ''nan'' | PInf \<Rightarrow> ''inf'' | NInf \<Rightarrow> ''-inf'' | NZero \<Rightarrow> ''-0''
      | Fin k \<Rightarrow>
          if k = 0 then ''0''
          else if k < 0 then CHR ''-'' # format_g_pos (- k) (2 ^ 149)
          else format_g_pos k (2 ^ 149))"

subsection \<open>Two decimals\<close>

definition format_2f :: "f32 \<Rightarrow> string" where
  "format_2f x =
     take 31 (case x of
        NaN \<Rightarrow> ''nan'' | PInf \<Rightarrow> ''inf'' | NInf \<Rightarrow> ''-inf'' | NZero \<Rightarrow> ''-0.00''
      | Fin k \<Rightarrow>
          (let r = rne_div (\<bar>k\<bar> * 100) (2 ^ 149)
           in (if k < 0 then ''-'' else []) @ dec_nonneg (r div 100) @ ''.'' @ fixed_digits 2 (r mod 100)))"

subsection \<open>Whole numbers\<close>

lemma dec_exp_up_spec:
  "0 < d \<Longrightarrow> d \<le> a \<Longrightarrow>
   0 \<le> dec_exp_up a d \<and> d * 10 ^ nat (dec_exp_up a d) \<le> a \<and> a < d * 10 ^ (nat (dec_exp_up a d) + 1)"
proof (induction a d rule: dec_exp_up.induct)
  case (1 a d)
  show ?case
  proof (cases "10 * d \<le> a")
    case True
    with 1 have IH: "0 \<le> dec_exp_up a (10 * d)" "10 * d * 10 ^ nat (dec_exp_up a (10 * d)) \<le> a"
      "a < 10 * d * 10 ^ (nat (dec_exp_up a (10 * d)) + 1)" by auto
    have "nat (dec_exp_up a d) = Suc (nat (dec_exp_up a (10 * d)))" "dec_exp_up a d = 1 + dec_exp_up a (10 * d)"
      using True 1(2) IH(1) by (simp_all add: dec_exp_up.simps [of a d])
    with IH show ?thesis by (simp add: mult.assoc)
  next
    case False
    with 1 show ?thesis by (simp add: dec_exp_up.simps [of a d])
  qed
qed

lemma fixed_digits_zero: "fixed_digits n 0 = replicate n (CHR ''0'')"
  by (induction n) (simp_all add: digit_char_def replicate_append_same)

lemma strip_zeros_replicate [simp]: "strip_zeros (replicate n (CHR ''0'')) = []"
  by (simp add: strip_zeros_def)

lemma format_g_pos_whole:
  assumes "0 < n" "n < 1000000" "0 < d"
  shows "format_g_pos (n * d) d = dec_nonneg n"
proof -
  define e where "e = dec_exp_up (n * d) d"
  have "d \<le> n * d" using assms by simp
  from dec_exp_up_spec [OF assms(3) this] have spec: "0 \<le> e" "d * 10 ^ nat e \<le> n * d" "n * d < d * 10 ^ (nat e + 1)"
    by (auto simp: e_def)
  have low: "10 ^ nat e \<le> n" and high: "n < 10 ^ (nat e + 1)"
    using spec(2,3) assms(3) by (simp_all add: mult.commute)
  have "(10::int) ^ nat e < 1000000" using low assms(2) by (rule le_less_trans)
  also have "(1000000::int) = 10 ^ 6" by simp
  finally have e6: "nat e < 6" by (rule power_less_imp_less_exp [rotated]) simp
  define k where "k = nat (5 - e)"
  have k: "nat e + k = 5" using e6 spec(1) by (simp add: k_def)
  have "n * 10 ^ k < 10 ^ (nat e + 1) * 10 ^ k" using high by simp
  also have "\<dots> = 10 ^ (nat e + k + 1)" by (simp add: power_add)
  finally have m: "n * 10 ^ k < 1000000" unfolding k by simp
  have "scaled_round (n * d) d (5 - e) = n * 10 ^ k"
  proof -
    have "n * d * 10 ^ k = (n * 10 ^ k) * d" by simp
    then have "rne_div (n * d * 10 ^ k) d = n * 10 ^ k" by (simp only: rne_div_exact [OF assms(3)])
    then show ?thesis using e6 spec(1) by (simp add: scaled_round_def k_def)
  qed
  then have "six_digits (n * d) d = (n * 10 ^ k, e)"
    using m assms by (simp add: six_digits_def dec_exp_def e_def Let_def)
  moreover have "5 - e = int k" "- 4 \<le> e" "e < 6" using k spec(1) by (simp_all add: k_def)
  ultimately show ?thesis
    by (simp add: format_g_pos_def with_fraction_def fixed_digits_zero)
qed

lemma format_g_px:
  assumes "\<bar>n\<bar> < 1000000"
  shows "format_g (px n) = dec_int n"
proof -
  consider "n = 0" | "0 < n" | "n < 0" by linarith
  then show ?thesis
  proof cases
    case 1
    then show ?thesis
      by (simp add: format_g_def px_def dec_int_def dec_nonneg.simps [of 0] digit_char_def)
  next
    case 2
    with assms show ?thesis
      using format_g_pos_whole [of n "2 ^ 149"] by (simp add: format_g_def px_def dec_int_def)
  next
    case 3
    with assms show ?thesis
      using format_g_pos_whole [of "- n" "2 ^ 149"] by (simp add: format_g_def px_def dec_int_def)
  qed
qed

lemma format_examples:
  "format_g (f32_lit 1005 10) = ''100.5''" "format_g (f32_lit 1 10) = ''0.1''"
  "format_g (f32_lit 12345678 1) = ''1.23457e+07''" "format_g (f32_lit 12345 100000000) = ''0.00012345''"
  "format_2f (f32_lit 9 10) = ''0.90''" "format_2f (- f32_lit 1 3) = ''-0.33''"
  by code_simp+

subsection \<open>Integer fields of a text\<close>

lemma dec_int_no_sep:
  "CHR '','' \<notin> set (dec_int n)" "CHR ''}'' \<notin> set (dec_int n)"
proof -
  have "\<not> is_digit (CHR '','') \<and> \<not> is_digit (CHR ''}'')" by (simp add: is_digit_def)
  then show "CHR '','' \<notin> set (dec_int n)" "CHR ''}'' \<notin> set (dec_int n)"
    using dec_int_chars [of n] unfolding int_chars_def by fastforce+
qed

lemma dec_int_field:
  "dec_int m @ CHR '','' # t = dec_int n @ CHR '','' # t' \<longleftrightarrow> m = n \<and> t = t'"
  "dec_int m @ CHR ''}'' # t = dec_int n @ CHR ''}'' # t' \<longleftrightarrow> m = n \<and> t = t'"
  by (simp_all only: append_sep_left [OF dec_int_no_sep(1) dec_int_no_sep(1)]
      append_sep_left [OF dec_int_no_sep(2) dec_int_no_sep(2)] dec_int_inject)

end
