(* ===== verification/Ws_Publisher.thy ===== *)
theory Ws_Publisher
  imports Pipeline Number_Text
begin

text \<open>
  \<^verbatim>\<open>WebSocketAlertPublisher\<close> (\<^verbatim>\<open>src/infrastructure/transport\<close>): the JSON text of an alert, the
  bounded queue that publishers fill and the I/O thread drains, the client sessions with their
  single write in flight, start and stop, and the log-only stub.  The completion handlers of
  Boost.Asio are the steps of a relation; the network decides only which of them runs and with
  which error code.
\<close>

subsection \<open>Serialisation\<close>

definition box_json :: "bounding_box \<Rightarrow> string" where
  "box_json b =
     ''{\"x\":'' @ format_g (bb_x b) @ '',\"y\":'' @ format_g (bb_y b) @
     '',\"w\":'' @ format_g (bb_width b) @ '',\"h\":'' @ format_g (bb_height b) @ ''}''"

definition serialize :: "alert \<Rightarrow> string" where
  "serialize a =
     ''{'' @
     ''\"schema_version\":1,'' @
     ''\"alert_id\":\"'' @ al_alert_id a @ ''\",'' @
     ''\"type\":\"'' @ alert_type_to_string (al_type a) @ ''\",'' @
     ''\"severity\":\"'' @ alert_severity_to_string (al_severity a) @ ''\",'' @
     ''\"camera_id\":\"'' @ al_camera_id a @ ''\",'' @
     ''\"timestamp_ms\":'' @ dec_int (cast_ms (al_timestamp a)) @ '','' @
     ''\"person_track_id\":'' @ dec_int (al_person_track_id a) @ '','' @
     ''\"forklift_track_id\":'' @ dec_int (al_forklift_track_id a) @ '','' @
     ''\"person_box\":'' @ box_json (al_person_box a) @ '','' @
     ''\"forklift_box\":'' @ box_json (al_forklift_box a) @ '','' @
     ''\"safety_zone_box\":'' @ box_json (al_safety_zone_box a) @ '','' @
     ''\"distance_px\":'' @ format_g (al_distance_px a) @
     ''}''"

subsection \<open>Sessions\<close>

text \<open>
  A session: its members, the payload the outstanding \<^verbatim>\<open>async_write\<close> holds, and, for the
  statements below, what the client has received.
\<close>

record ws_session =
  ss_ready :: bool
  ss_writing :: bool
  ss_pending :: "string list"
  ss_in_flight :: "string option"
  ss_received :: "string list"

definition session_new :: ws_session where
  "session_new =
     \<lparr>ss_ready = False, ss_writing = False, ss_pending = [], ss_in_flight = None, ss_received = []\<rparr>"

definition do_write :: "ws_session \<Rightarrow> ws_session" where
  "do_write ss =
     (case ss_pending ss of
        [] \<Rightarrow> ss\<lparr>ss_writing := False\<rparr>
      | msg # rest \<Rightarrow> ss\<lparr>ss_writing := True, ss_pending := rest, ss_in_flight := Some msg\<rparr>)"

definition session_send :: "string \<Rightarrow> ws_session \<Rightarrow> ws_session" where
  "session_send payload ss =
     (if \<not> ss_ready ss then ss
      else let ss' = ss\<lparr>ss_pending := ss_pending ss @ [payload]\<rparr>
           in if \<not> ss_writing ss' then do_write ss' else ss')"

text \<open>The handler of a write that succeeded.\<close>

definition write_done :: "ws_session \<Rightarrow> ws_session" where
  "write_done ss =
     (case ss_in_flight ss of
        None \<Rightarrow> ss
      | Some msg \<Rightarrow> do_write (ss\<lparr>ss_in_flight := None, ss_received := ss_received ss @ [msg]\<rparr>))"

subsection \<open>The publisher\<close>

record ws_config =
  wc_host :: string
  wc_port :: int
  wc_path :: string

definition default_ws_config :: ws_config where
  "default_ws_config = \<lparr>wc_host = ''0.0.0.0'', wc_port = 8765, wc_path = ''/ws/alerts''\<rparr>"

text \<open>The set of sessions is a list of pairs with distinct identities.\<close>

record ws_publisher =
  wp_cfg :: ws_config
  wp_queue :: "string list"
  wp_last_drop_warn :: int
  wp_sessions :: "(nat \<times> ws_session) list"
  wp_running :: bool
  wp_posted :: nat
  wp_stopped :: bool

definition kMaxQueue :: nat where
  "kMaxQueue = 256"

definition ws_new :: "ws_config \<Rightarrow> int \<Rightarrow> ws_publisher" where
  "ws_new cfg now =
     \<lparr>wp_cfg = cfg, wp_queue = [], wp_last_drop_warn = now - 10 * 1000000000, wp_sessions = [],
      wp_running = False, wp_posted = 0, wp_stopped = False\<rparr>"

text \<open>\<open>publish\<close>, with the clock reading of its warning; the flag says whether it warned.\<close>

definition enqueue :: "string \<Rightarrow> string list \<Rightarrow> string list" where
  "enqueue payload queue =
     (if kMaxQueue \<le> length queue then tl queue @ [payload] else queue @ [payload])"

definition drop_warns :: "int \<Rightarrow> int \<Rightarrow> bool" where
  "drop_warns now last_drop_warn = (1000000000 \<le> now - last_drop_warn)"

definition ws_publish :: "int \<Rightarrow> alert \<Rightarrow> ws_publisher \<Rightarrow> void_result \<times> bool \<times> ws_publisher" where
  "ws_publish now a s =
     (let payload = serialize a;
          warn = (kMaxQueue \<le> length (wp_queue s) \<and> drop_warns now (wp_last_drop_warn s))
      in (vr_success, warn,
          s\<lparr>wp_queue := enqueue payload (wp_queue s),
            wp_last_drop_warn := (if warn then now else wp_last_drop_warn s),
            wp_posted := wp_posted s + 1\<rparr>))"

definition broadcast :: "string \<Rightarrow> (nat \<times> ws_session) list \<Rightarrow> (nat \<times> ws_session) list" where
  "broadcast payload sessions = map (map_prod id (session_send payload)) sessions"

definition do_drain :: "ws_publisher \<Rightarrow> ws_publisher" where
  "do_drain s = s\<lparr>wp_queue := [], wp_sessions := fold broadcast (wp_queue s) (wp_sessions s)\<rparr>"

definition remove_session :: "nat \<Rightarrow> ws_publisher \<Rightarrow> ws_publisher" where
  "remove_session i s = s\<lparr>wp_sessions := filter (\<lambda>(k, _). k \<noteq> i) (wp_sessions s)\<rparr>"

definition update_session :: "nat \<Rightarrow> (ws_session \<Rightarrow> ws_session) \<Rightarrow> ws_publisher \<Rightarrow> ws_publisher" where
  "update_session i f s =
     s\<lparr>wp_sessions := map (\<lambda>(k, ss). (k, if k = i then f ss else ss)) (wp_sessions s)\<rparr>"

text \<open>The handler of \<open>async_accept\<close> on the listening socket.\<close>

definition accept_done :: "bool \<Rightarrow> nat \<Rightarrow> ws_publisher \<Rightarrow> ws_publisher" where
  "accept_done ec i s =
     (if \<not> wp_running s then s
      else if \<not> ec then s\<lparr>wp_sessions := wp_sessions s @ [(i, session_new)]\<rparr> else s)"

text \<open>The handlers of the handshake and of a write, with their error flag.\<close>

definition handshake_done :: "bool \<Rightarrow> nat \<Rightarrow> ws_publisher \<Rightarrow> ws_publisher" where
  "handshake_done ec i s =
     (if ec then remove_session i s else update_session i (\<lambda>ss. ss\<lparr>ss_ready := True\<rparr>) s)"

definition write_completed :: "bool \<Rightarrow> nat \<Rightarrow> ws_publisher \<Rightarrow> ws_publisher" where
  "write_completed ec i s =
     (if ec then remove_session i s else update_session i write_done s)"

text \<open>
  \<open>start\<close>: \<open>bind\<close> stands for opening, binding and listening; an exception is its text.  \<open>stop\<close>: the
  flag, a last drain posted, then the I/O context stopped, after which no handler runs.
\<close>

definition ws_start :: "(string \<Rightarrow> int \<Rightarrow> string + unit) \<Rightarrow> ws_publisher \<Rightarrow> void_result \<times> ws_publisher" where
  "ws_start bind s =
     (if wp_running s then (vr_success, s)
      else case bind (wc_host (wp_cfg s)) (wc_port (wp_cfg s)) of
          Inl what \<Rightarrow> (vr_failure (mk_error 10 (''ws bind failed: '' @ what)), s)
        | Inr _ \<Rightarrow> (vr_success, s\<lparr>wp_running := True\<rparr>))"

definition ws_stop_begin :: "ws_publisher \<Rightarrow> ws_publisher" where
  "ws_stop_begin s =
     (if \<not> wp_running s then s else s\<lparr>wp_running := False, wp_posted := wp_posted s + 1\<rparr>)"

definition ws_stop_end :: "ws_publisher \<Rightarrow> ws_publisher" where
  "ws_stop_end s = s\<lparr>wp_stopped := True\<rparr>"

subsection \<open>The stub\<close>

text \<open>Without Boost.Beast: only a flag, and an alert is a line of the log.\<close>

record ws_stub =
  wst_cfg :: ws_config
  wst_started :: bool

definition stub_new :: "ws_config \<Rightarrow> ws_stub" where
  "stub_new cfg = \<lparr>wst_cfg = cfg, wst_started = False\<rparr>"

definition stub_start :: "ws_stub \<Rightarrow> void_result \<times> ws_stub" where
  "stub_start s = (if wst_started s then (vr_success, s) else (vr_success, s\<lparr>wst_started := True\<rparr>))"

definition stub_stop :: "ws_stub \<Rightarrow> ws_stub" where
  "stub_stop s = (if \<not> wst_started s then s else s\<lparr>wst_started := False\<rparr>)"

text \<open>The stub has a copy of the serializer; the two builds write the same text.\<close>

definition stub_box_json :: "bounding_box \<Rightarrow> string" where
  "stub_box_json b =
     concat [''{\"x\":'', format_g (bb_x b), '',\"y\":'', format_g (bb_y b),
       '',\"w\":'', format_g (bb_width b), '',\"h\":'', format_g (bb_height b), ''}'']"

definition stub_serialize :: "alert \<Rightarrow> string" where
  "stub_serialize a =
     concat [''{'',
       ''\"schema_version\":1,'',
       ''\"alert_id\":\"'', al_alert_id a, ''\",'',
       ''\"type\":\"'', alert_type_to_string (al_type a), ''\",'',
       ''\"severity\":\"'', alert_severity_to_string (al_severity a), ''\",'',
       ''\"camera_id\":\"'', al_camera_id a, ''\",'',
       ''\"timestamp_ms\":'', dec_int (cast_ms (al_timestamp a)), '','',
       ''\"person_track_id\":'', dec_int (al_person_track_id a), '','',
       ''\"forklift_track_id\":'', dec_int (al_forklift_track_id a), '','',
       ''\"person_box\":'', stub_box_json (al_person_box a), '','',
       ''\"forklift_box\":'', stub_box_json (al_forklift_box a), '','',
       ''\"safety_zone_box\":'', stub_box_json (al_safety_zone_box a), '','',
       ''\"distance_px\":'', format_g (al_distance_px a),
       ''}'']"

lemma stub_serialize_eq: "stub_serialize = serialize"
proof
  fix a
  have "stub_box_json b = box_json b" for b by (simp add: stub_box_json_def box_json_def)
  then show "stub_serialize a = serialize a" by (simp add: stub_serialize_def serialize_def)
qed

definition stub_publish :: "alert \<Rightarrow> ws_stub \<Rightarrow> void_result \<times> string" where
  "stub_publish a s = (vr_success, ''ALERT '' @ stub_serialize a)"

subsection \<open>The contracts it shares\<close>

text \<open>The alert queue is a drop-oldest queue, its warning a rate limiter with one key.\<close>

interpretation wsq: sliding_window enqueue "\<lambda>q. q" "\<lambda>_. kMaxQueue" "\<lambda>q. length q \<le> kMaxQueue"
  by unfold_locales (auto simp: enqueue_def kMaxQueue_def)

interpretation wsw: rate_limit drop_warns "\<lambda>now _. now" "\<lambda>s (_ :: unit). Some s" "\<lambda>now. now"
  "\<lambda>_. ()" 1000000000
  by unfold_locales (auto simp: drop_warns_def fun_eq_iff)

text \<open>Both builds of the publisher keep the contract of the port.\<close>

interpretation ws_port: alert_publisher "\<lambda>a s. (fst (ws_publish now a s), snd (snd (ws_publish now a s)))"
  by unfold_locales (simp add: ws_publish_def Let_def)

interpretation stub_port: alert_publisher "\<lambda>a s. (fst (stub_publish a s), s)"
  by unfold_locales (simp add: stub_publish_def)

subsection \<open>The publisher in operation\<close>

text \<open>
  A history: the payloads published, the payloads drained to the sessions, and the state.  A new
  client has an identity that no session has; handlers run while the I/O context is not stopped.
\<close>

type_synonym ws_history = "string list \<times> string list \<times> ws_publisher"

inductive ws_step :: "ws_history \<Rightarrow> ws_history \<Rightarrow> bool" where
  publish: "ws_step (pub, dr, s) (pub @ [serialize a], dr, snd (snd (ws_publish now a s)))"
| drain: "\<not> wp_stopped s \<Longrightarrow> 0 < wp_posted s \<Longrightarrow>
    ws_step (pub, dr, s) (pub, dr @ wp_queue s, (do_drain s)\<lparr>wp_posted := wp_posted s - 1\<rparr>)"
| accept: "\<not> wp_stopped s \<Longrightarrow> i \<notin> fst ` set (wp_sessions s) \<Longrightarrow>
    ws_step (pub, dr, s) (pub, dr, accept_done ec i s)"
| handshake: "\<not> wp_stopped s \<Longrightarrow> (i, ss) \<in> set (wp_sessions s) \<Longrightarrow> \<not> ss_ready ss \<Longrightarrow>
    ws_step (pub, dr, s) (pub, dr, handshake_done ec i s)"
| written: "\<not> wp_stopped s \<Longrightarrow> (i, ss) \<in> set (wp_sessions s) \<Longrightarrow> ss_in_flight ss \<noteq> None \<Longrightarrow>
    ws_step (pub, dr, s) (pub, dr, write_completed ec i s)"
| start: "ws_step (pub, dr, s) (pub, dr, snd (ws_start bind s))"
| stop_begin: "ws_step (pub, dr, s) (pub, dr, ws_stop_begin s)"
| stop_end: "ws_step (pub, dr, s) (pub, dr, ws_stop_end s)"

inductive ws_reachable :: "ws_config \<Rightarrow> int \<Rightarrow> ws_history \<Rightarrow> bool" for cfg now0 where
  init: "ws_reachable cfg now0 ([], [], ws_new cfg now0)"
| step: "ws_reachable cfg now0 h \<Longrightarrow> ws_step h h' \<Longrightarrow> ws_reachable cfg now0 h'"

text \<open>Everything a session has taken over: received, in flight, pending.\<close>

definition session_stream :: "ws_session \<Rightarrow> string list" where
  "session_stream ss =
     ss_received ss @ (case ss_in_flight ss of None \<Rightarrow> [] | Some m \<Rightarrow> [m]) @ ss_pending ss"

definition session_inv :: "string list \<Rightarrow> ws_session \<Rightarrow> bool" where
  "session_inv dr ss =
     ((ss_writing ss \<longleftrightarrow> ss_in_flight ss \<noteq> None) \<and>
      (\<not> ss_writing ss \<longrightarrow> ss_pending ss = []) \<and>
      (\<not> ss_ready ss \<longrightarrow> session_stream ss = []) \<and>
      suffix (session_stream ss) dr)"

definition ws_inv :: "ws_history \<Rightarrow> bool" where
  "ws_inv h = (case h of (pub, dr, s) \<Rightarrow>
     length (wp_queue s) \<le> kMaxQueue \<and> subseq (dr @ wp_queue s) pub \<and>
     (wp_queue s \<noteq> [] \<longrightarrow> 0 < wp_posted s) \<and>
     (\<forall>(i, ss) \<in> set (wp_sessions s). session_inv dr ss))"

lemma session_new_inv [simp]: "session_inv dr session_new"
  by (simp add: session_inv_def session_new_def session_stream_def)

lemma session_send_inv:
  "session_inv dr ss \<Longrightarrow> session_inv (dr @ [m]) (session_send m ss)"
  by (auto simp: session_inv_def session_send_def session_stream_def do_write_def Let_def suffix_def
      split: list.splits option.splits)

lemma session_send_stream:
  "session_inv dr ss \<Longrightarrow>
   session_stream (session_send m ss) = session_stream ss @ (if ss_ready ss then [m] else []) \<and>
   ss_ready (session_send m ss) = ss_ready ss"
  by (auto simp: session_inv_def session_send_def session_stream_def do_write_def Let_def
      split: list.splits option.splits)

lemma write_done_inv: "session_inv dr ss \<Longrightarrow> session_inv dr (write_done ss)"
  by (auto simp: session_inv_def write_done_def session_stream_def do_write_def
      split: list.splits option.splits)

lemma ready_inv: "session_inv dr ss \<Longrightarrow> session_inv dr (ss\<lparr>ss_ready := True\<rparr>)"
  by (auto simp: session_inv_def session_stream_def)

lemma fold_broadcast_inv:
  "\<forall>(i, ss) \<in> set sessions. session_inv dr ss \<Longrightarrow>
   \<forall>(i, ss) \<in> set (fold broadcast ms sessions). session_inv (dr @ ms) ss"
proof (induction ms arbitrary: dr sessions)
  case (Cons m ms)
  have "\<forall>(i, ss) \<in> set (broadcast m sessions). session_inv (dr @ [m]) ss"
    using Cons.prems by (auto simp: broadcast_def session_send_inv)
  from Cons.IH [OF this] show ?case by simp
qed simp

lemma enqueue_subseq:
  assumes "subseq (dr @ q) pub"
  shows "subseq (dr @ enqueue m q) (pub @ [m])"
proof -
  have "subseq (dr @ tl q) pub"
    using assms by (cases q) (auto dest: subseq_drop_mid)
  with assms show ?thesis
    by (auto simp: enqueue_def subseq_snoc simp flip: append_assoc)
qed

lemma ws_inv_step:
  assumes "ws_step h h'" "ws_inv h"
  shows "ws_inv h'"
  using assms
proof (induction rule: ws_step.induct)
  case (publish pub dr s a now)
  then show ?case
    using wsq.invar_push [of "wp_queue s"]
    by (auto simp: ws_inv_def ws_publish_def Let_def enqueue_subseq)
next
  case (drain s pub dr)
  then show ?case
    using fold_broadcast_inv [of "wp_sessions s" dr "wp_queue s"]
    by (auto simp: ws_inv_def do_drain_def kMaxQueue_def)
next
  case (accept s i pub dr ec)
  then show ?case by (auto simp: ws_inv_def accept_done_def)
next
  case (handshake s i ss pub dr ec)
  then show ?case
    by (auto simp: ws_inv_def handshake_done_def remove_session_def update_session_def ready_inv
        split: if_splits)
next
  case (written s i ss pub dr ec)
  then show ?case
    by (auto simp: ws_inv_def write_completed_def remove_session_def update_session_def write_done_inv
        split: if_splits)
next
  case (start pub dr s bind)
  then show ?case by (auto simp: ws_inv_def ws_start_def split: sum.splits)
qed (auto simp: ws_inv_def ws_stop_begin_def ws_stop_end_def)

lemma ws_inv_reachable: "ws_reachable cfg now0 h \<Longrightarrow> ws_inv h"
  by (induction rule: ws_reachable.induct) (auto simp: ws_inv_step, simp add: ws_inv_def ws_new_def)

lemma fold_broadcast_streams:
  assumes "\<forall>(i, ss) \<in> set sessions. session_inv dr ss"
  shows "map (\<lambda>(i, ss). (i, session_stream ss)) (fold broadcast ms sessions) =
    map (\<lambda>(i, ss). (i, session_stream ss @ (if ss_ready ss then ms else []))) sessions"
  using assms
proof (induction ms arbitrary: dr sessions)
  case (Cons m ms)
  have inv: "\<forall>(i, ss) \<in> set (broadcast m sessions). session_inv (dr @ [m]) ss"
    using Cons.prems by (auto simp: broadcast_def session_send_inv)
  have "session_stream (session_send m ss) @ (if ss_ready (session_send m ss) then ms else []) =
      session_stream ss @ (if ss_ready ss then m # ms else [])"
    if "(i, ss) \<in> set sessions" for i ss
    using session_send_stream [of dr ss m] Cons.prems that by auto
  then show ?case
    using Cons.IH [OF inv] by (auto simp: broadcast_def)
qed simp

subsection \<open>Properties\<close>


text \<open>
  C22: The alert queue: at most 256 alerts wait, what was drained and what waits is a subsequence of
  what was published, and as long as an alert waits a drain is posted, so none is stuck.
\<close>

theorem ws_queue_contract:
  assumes "ws_reachable cfg now0 (pub, dr, s)"
  shows "length (wp_queue s) \<le> 256 \<and> subseq (dr @ wp_queue s) pub \<and>
    (wp_queue s \<noteq> [] \<longrightarrow> 0 < wp_posted s)"
  using ws_inv_reachable [OF assms] by (simp add: ws_inv_def kMaxQueue_def)

text \<open>
  A drain hands every waiting alert, in order, to every session whose handshake is complete and to
  no other, and leaves the queue empty; a burst of alerts without a drain keeps the newest 256.
\<close>

theorem ws_drain_broadcasts:
  assumes "ws_reachable cfg now0 (pub, dr, s)"
  shows "wp_queue (do_drain s) = [] \<and>
    map (\<lambda>(i, ss). (i, session_stream ss)) (wp_sessions (do_drain s)) =
      map (\<lambda>(i, ss). (i, session_stream ss @ (if ss_ready ss then wp_queue s else []))) (wp_sessions s) \<and>
    wp_queue (fold (\<lambda>a s. snd (snd (ws_publish now a s))) as (do_drain s)) =
      drop (length as - 256) (map serialize as)"
proof -
  have "wp_queue (fold (\<lambda>a s. snd (snd (ws_publish now a s))) as s') = fold enqueue (map serialize as) (wp_queue s')"
    for s'
    by (induction as arbitrary: s') (auto simp: ws_publish_def Let_def)
  then have "wp_queue (fold (\<lambda>a s. snd (snd (ws_publish now a s))) as (do_drain s)) =
      drop (length as - 256) (map serialize as)"
    using wsq.fold_push [of "[]" "map serialize as"] by (simp add: do_drain_def kMaxQueue_def)
  moreover have "\<forall>(i, ss) \<in> set (wp_sessions s). session_inv dr ss"
    using ws_inv_reachable [OF assms] by (simp add: ws_inv_def)
  ultimately show ?thesis
    using fold_broadcast_streams [of "wp_sessions s" dr "wp_queue s"] by (simp add: do_drain_def)
qed

text \<open>The warnings of a full queue are a second apart.\<close>

lemma drop_warnings_spaced:
  "sorted_wrt (\<lambda>t u. 1000000000 \<le> u - t) (snd (rate_run drop_warns (\<lambda>now _. now) stamps last_warn))"
  using wsw.run_spaced [of stamps last_warn] by simp

subsection \<open>Serialisation is faithful\<close>

definition whole_box :: "bounding_box \<Rightarrow> bool" where
  "whole_box b = (\<exists>x y w h. b = pixel_box x y w h \<and>
     \<bar>x\<bar> < 1000000 \<and> \<bar>y\<bar> < 1000000 \<and> \<bar>w\<bar> < 1000000 \<and> \<bar>h\<bar> < 1000000)"

definition int_box_json :: "int \<Rightarrow> int \<Rightarrow> int \<Rightarrow> int \<Rightarrow> string" where
  "int_box_json x y w h =
     ''{\"x\":'' @ dec_int x @ '',\"y\":'' @ dec_int y @ '',\"w\":'' @ dec_int w @ '',\"h\":'' @ dec_int h @ ''}''"

lemma int_box_json_cancel:
  "int_box_json x y w h @ t = int_box_json x' y' w' h' @ t' \<longleftrightarrow>
     x = x' \<and> y = y' \<and> w = w' \<and> h = h' \<and> t = t'"
  by (simp add: int_box_json_def dec_int_field)

lemma whole_boxE:
  assumes "whole_box b"
  obtains x y w h where "b = pixel_box x y w h" "box_json b = int_box_json x y w h"
  using assms by (auto simp: whole_box_def box_json_def int_box_json_def pixel_box_def format_g_px)

lemma box_json_cancel:
  assumes "whole_box b" "whole_box b'"
  shows "box_json b @ t = box_json b' @ t' \<longleftrightarrow> b = b' \<and> t = t'"
proof -
  obtain x y w h where b: "b = pixel_box x y w h" "box_json b = int_box_json x y w h"
    by (rule whole_boxE [OF assms(1)])
  obtain x' y' w' h' where b': "b' = pixel_box x' y' w' h'" "box_json b' = int_box_json x' y' w' h'"
    by (rule whole_boxE [OF assms(2)])
  have "box_json b @ t = box_json b' @ t' \<longleftrightarrow> x = x' \<and> y = y' \<and> w = w' \<and> h = h' \<and> t = t'"
    by (simp only: b(2) b'(2) int_box_json_cancel)
  then show ?thesis by (auto simp: b(1) b'(1) pixel_box_def)
qed

definition plain_alert :: "alert \<Rightarrow> bool" where
  "plain_alert a =
     (CHR 0x22 \<notin> set (al_alert_id a) \<and> CHR 0x22 \<notin> set (al_camera_id a) \<and>
      whole_box (al_person_box a) \<and> whole_box (al_forklift_box a) \<and> whole_box (al_safety_zone_box a) \<and>
      (\<exists>n. al_distance_px a = px n \<and> \<bar>n\<bar> < 1000000))"

lemma severity_field:
  "alert_severity_to_string v @ CHR 0x22 # t = alert_severity_to_string v' @ CHR 0x22 # t' \<longleftrightarrow>
     v = v' \<and> t = t'"
  by (cases v; cases v') (simp_all add: alert_severity_to_string_def)

lemma alert_type_unique: "(x :: alert_type) = y"
  by (cases x; cases y) simp


subsection \<open>A concrete history\<close>

definition demo_alert :: alert where
  "demo_alert =
     \<lparr>al_alert_id = ''cam:F-1:P-1:7'', al_camera_id = ''cam'', al_type = kPersonNearForklift,
      al_severity = kWarning, al_timestamp = 7, al_person_track_id = -1, al_forklift_track_id = -1,
      al_person_box = pixel_box 90 90 20 20, al_forklift_box = pixel_box 100 100 100 100,
      al_safety_zone_box = pixel_box 50 50 200 200, al_distance_px = px 0\<rparr>"

lemma demo_plain: "plain_alert demo_alert" "plain_alert (demo_alert\<lparr>al_timestamp := 8\<rparr>)"
proof -
  have "whole_box (pixel_box x y w h)"
    if "\<bar>x\<bar> < 1000000" "\<bar>y\<bar> < 1000000" "\<bar>w\<bar> < 1000000" "\<bar>h\<bar> < 1000000" for x y w h
    using that unfolding whole_box_def by blast
  moreover have "\<exists>n. px 0 = px n \<and> \<bar>n\<bar> < 1000000" by (rule exI [of _ 0]) simp
  ultimately show "plain_alert demo_alert" "plain_alert (demo_alert\<lparr>al_timestamp := 8\<rparr>)"
    by (simp_all add: plain_alert_def demo_alert_def del: px_inject)
qed


definition demo_opened :: ws_publisher where
  "demo_opened =
     handshake_done False 1 (accept_done False 1 (snd (ws_start (\<lambda>_ _. Inr ()) (ws_new default_ws_config 0))))"

definition demo_sent :: ws_publisher where
  "demo_sent = snd (snd (ws_publish 5 demo_alert demo_opened))"

definition demo_drained :: ws_publisher where
  "demo_drained = (do_drain demo_sent)\<lparr>wp_posted := wp_posted demo_sent - 1\<rparr>"

lemmas demo_defs = demo_opened_def demo_sent_def demo_drained_def ws_new_def ws_start_def
  accept_done_def handshake_done_def update_session_def session_new_def ws_publish_def do_drain_def
  enqueue_def kMaxQueue_def broadcast_def session_send_def do_write_def Let_def

lemma demo_opened_reachable: "ws_reachable default_ws_config 0 ([], [], demo_opened)"
proof -
  let ?s1 = "snd (ws_start (\<lambda>_ _. Inr ()) (ws_new default_ws_config 0))"
  let ?s2 = "accept_done False 1 ?s1"
  have "ws_reachable default_ws_config 0 ([], [], ?s1)"
    by (rule ws_reachable.step [OF ws_reachable.init ws_step.start])
  then have "ws_reachable default_ws_config 0 ([], [], ?s2)"
    by (rule ws_reachable.step) (rule ws_step.accept; simp add: demo_defs)
  then show ?thesis
    unfolding demo_opened_def
    by (rule ws_reachable.step) (rule ws_step.handshake [of _ _ session_new]; simp add: demo_defs)
qed

lemma demo_sent_reachable: "ws_reachable default_ws_config 0 ([serialize demo_alert], [], demo_sent)"
  using ws_reachable.step [OF demo_opened_reachable ws_step.publish] by (simp add: demo_sent_def)

lemma demo_drained_reachable:
  "ws_reachable default_ws_config 0 ([serialize demo_alert], [serialize demo_alert], demo_drained)"
proof -
  have "wp_queue demo_sent = [serialize demo_alert]" "\<not> wp_stopped demo_sent" "0 < wp_posted demo_sent"
    by (simp_all add: demo_defs)
  with ws_reachable.step [OF demo_sent_reachable ws_step.drain] show ?thesis
    by (simp add: demo_drained_def)
qed


theorem ws_queue_contract_witness:
  "wp_queue demo_sent = [serialize demo_alert] \<and> 0 < wp_posted demo_sent \<and>
   subseq ([] @ wp_queue demo_sent) [serialize demo_alert]"
  using ws_queue_contract [OF demo_sent_reachable] by (simp add: demo_defs)

theorem ws_drain_broadcasts_witness:
  "map (\<lambda>(i, ss). (i, session_stream ss)) (wp_sessions (do_drain demo_sent)) = [(1, [serialize demo_alert])]"
proof -
  have "wp_sessions demo_sent = [(1, session_new\<lparr>ss_ready := True\<rparr>)]" "wp_queue demo_sent = [serialize demo_alert]"
    by (simp_all add: demo_defs)
  with ws_drain_broadcasts [OF demo_sent_reachable, of 0 "[]"] show ?thesis
    by (simp add: session_stream_def session_new_def)
qed

end
