(* ===== verification/Mjpeg_Server.thy ===== *)
theory Mjpeg_Server
  imports Domain Number_Text Video_Source "HOL-Library.Sublist"
begin

text \<open>
  \<^verbatim>\<open>MjpegStreamServer\<close> (\<^verbatim>\<open>src/infrastructure/transport/MjpegStreamServer.cpp\<close>): the store of the
  latest frame and detections per camera, the routing of requests, the polling MJPEG and SSE
  sessions, the detection JSON, start, stop and the stub.  Files, the JPEG encoder and the
  iteration order of an \<^verbatim>\<open>unordered_map\<close> are parameters; a shared pointer is an allocation number
  with what it points to, because the sessions compare pointers.
\<close>

subsection \<open>SharedState\<close>

type_synonym jpeg = "nat \<times> string"

record det_entry =
  de_json :: string
  de_seq :: "64 word"

record shared_state =
  sh_latest :: "string \<rightharpoonup> jpeg"
  sh_camera_order :: "string list"
  sh_latest_dets :: "string \<rightharpoonup> det_entry"
  sh_global_det_seq :: "64 word"

definition shared_state_new :: shared_state where
  "shared_state_new =
     \<lparr>sh_latest = Map.empty, sh_camera_order = [], sh_latest_dets = Map.empty, sh_global_det_seq = 0\<rparr>"

definition latest_for :: "string \<Rightarrow> shared_state \<Rightarrow> jpeg option" where
  "latest_for cam st =
     (if cam = [] \<and> sh_camera_order st \<noteq> [] then sh_latest st (hd (sh_camera_order st))
      else sh_latest st cam)"

fun cameras_loop :: "string list \<Rightarrow> string \<Rightarrow> string" where
  "cameras_loop [] out = out"
| "cameras_loop [c] out = out @ ''\"'' @ c @ ''\"''"
| "cameras_loop (c # d # cs) out = cameras_loop (d # cs) (out @ ''\"'' @ c @ ''\"'' @ '','')"

definition cameras_json :: "shared_state \<Rightarrow> string" where
  "cameras_json st = cameras_loop (sh_camera_order st) ''['' @ '']''"

definition store :: "string \<Rightarrow> jpeg \<Rightarrow> shared_state \<Rightarrow> shared_state" where
  "store cam j st =
     st\<lparr>sh_camera_order :=
          (if sh_latest st cam = None then sh_camera_order st @ [cam] else sh_camera_order st),
        sh_latest := (sh_latest st)(cam \<mapsto> j)\<rparr>"

definition latest_dets_for :: "string \<Rightarrow> shared_state \<Rightarrow> string \<times> 64 word" where
  "latest_dets_for cam st =
     (case sh_latest_dets st cam of None \<Rightarrow> ([], 0) | Some e \<Rightarrow> (de_json e, de_seq e))"

definition newline :: string where
  "newline = [CHR 0x0A]"

text \<open>\<open>order\<close> is the order in which the map is iterated.\<close>

definition sse_chunk :: "string \<Rightarrow> string" where
  "sse_chunk json = ''data: '' @ json @ newline @ newline"

fun dets_all_loop :: "(string \<rightharpoonup> det_entry) \<Rightarrow> string list \<Rightarrow> string \<Rightarrow> string" where
  "dets_all_loop m [] out = out"
| "dets_all_loop m (cam # cams) out =
     (case m cam of
        None \<Rightarrow> dets_all_loop m cams out
      | Some e \<Rightarrow> if de_json e = [] then dets_all_loop m cams out
                  else dets_all_loop m cams (out @ sse_chunk (de_json e)))"

definition latest_dets_all :: "string list \<Rightarrow> shared_state \<Rightarrow> string \<times> 64 word" where
  "latest_dets_all order st = (dets_all_loop (sh_latest_dets st) order [], sh_global_det_seq st)"

definition store_dets :: "string \<Rightarrow> string \<Rightarrow> shared_state \<Rightarrow> shared_state" where
  "store_dets cam json st =
     (let e = (case sh_latest_dets st cam of None \<Rightarrow> \<lparr>de_json = [], de_seq = 0\<rparr> | Some e \<Rightarrow> e)
      in st\<lparr>sh_latest_dets := (sh_latest_dets st)(cam \<mapsto> \<lparr>de_json = json, de_seq = de_seq e + 1\<rparr>),
            sh_global_det_seq := sh_global_det_seq st + 1\<rparr>)"

subsection \<open>Requests\<close>

text \<open>\<^verbatim>\<open>std::getline\<close> with a delimiter, until the stream is exhausted.\<close>

function getlines :: "char \<Rightarrow> string \<Rightarrow> string list" where
  "getlines d s =
     (if s = [] then []
      else takeWhile (\<lambda>c. c \<noteq> d) s # getlines d (drop (Suc (length (takeWhile (\<lambda>c. c \<noteq> d) s))) s))"
  by pat_completeness auto
termination
  by (relation "measure (\<lambda>(d, s). length s)") auto

declare getlines.simps [simp del]

fun first_value :: "string \<Rightarrow> string list \<Rightarrow> string" where
  "first_value key [] = []"
| "first_value key (pair # pairs) =
     (if CHR ''='' \<notin> set pair then first_value key pairs
      else if takeWhile (\<lambda>c. c \<noteq> CHR ''='') pair = key
      then drop (Suc (length (takeWhile (\<lambda>c. c \<noteq> CHR ''='') pair))) pair
      else first_value key pairs)"

definition query_param :: "string \<Rightarrow> string \<Rightarrow> string" where
  "query_param target key =
     (if CHR ''?'' \<notin> set target then []
      else first_value key
             (getlines (CHR ''&'') (drop (Suc (length (takeWhile (\<lambda>c. c \<noteq> CHR ''?'') target))) target)))"

definition path_only :: "string \<Rightarrow> string" where
  "path_only target = takeWhile (\<lambda>c. c \<noteq> CHR ''?'') target"

definition ends_with :: "string \<Rightarrow> string \<Rightarrow> bool" where
  "ends_with suf path = (length suf \<le> length path \<and> drop (length path - length suf) path = suf)"

definition content_type_for :: "string \<Rightarrow> string" where
  "content_type_for path =
     (if ends_with ''.html'' path then ''text/html; charset=utf-8''
      else if ends_with ''.js'' path then ''application/javascript; charset=utf-8''
      else if ends_with ''.css'' path then ''text/css; charset=utf-8''
      else if ends_with ''.png'' path then ''image/png''
      else if ends_with ''.svg'' path then ''image/svg+xml''
      else if ends_with ''.ico'' path then ''image/x-icon''
      else ''application/octet-stream'')"

fun has_dotdot :: "string \<Rightarrow> bool" where
  "has_dotdot (a # b # cs) = (a = CHR ''.'' \<and> b = CHR ''.'' \<or> has_dotdot (b # cs))"
| "has_dotdot _ = False"

text \<open>
  What a request leads to: a stream for a camera, or a response with its status, the header fields
  the code sets and the body.  A file is looked up by its full name.
\<close>

datatype reply =
    Start_Mjpeg string
  | Start_Sse string
  | Response nat "(string \<times> string) list" string

definition send_string :: "string \<Rightarrow> string \<Rightarrow> reply" where
  "send_string body ctype =
     Response 200 [(''server'', ''forklift-safety''), (''content-type'', ctype),
       (''access-control-allow-origin'', ''*'')] body"

definition send_status :: "nat \<Rightarrow> string \<Rightarrow> reply" where
  "send_status status msg =
     Response status [(''server'', ''forklift-safety''),
       (''content-type'', ''text/plain; charset=utf-8'')] msg"

definition send_file :: "string \<Rightarrow> (string \<Rightarrow> string option) \<Rightarrow> string \<Rightarrow> reply" where
  "send_file web_root files rel =
     (case files (web_root @ ''/'' @ rel) of
        None \<Rightarrow> send_status 404 (''not found: '' @ rel)
      | Some content \<Rightarrow> send_string content (content_type_for rel))"

text \<open>\<^verbatim>\<open>path.substr(1)\<close> of an empty path throws \<^verbatim>\<open>std::out_of_range\<close>.\<close>

definition route :: "string \<Rightarrow> (string \<Rightarrow> string option) \<Rightarrow> shared_state \<Rightarrow> string \<Rightarrow> reply run" where
  "route web_root files st target =
     (let path = path_only target
      in if path = ''/stream'' then Inr (Start_Mjpeg (query_param target ''camera''))
         else if path = ''/detections'' then Inr (Start_Sse (query_param target ''camera''))
         else if path = ''/cameras'' then Inr (send_string (cameras_json st) ''application/json'')
         else if path = ''/'' \<or> path = ''/index.html'' then Inr (send_file web_root files ''index.html'')
         else if has_dotdot path then Inr (send_status 400 ''bad path'')
         else if path = [] then Inl (Exception ''std::out_of_range'')
         else Inr (send_file web_root files (tl path)))"

subsection \<open>Streaming sessions\<close>

record viewer_config =
  vw_enabled :: bool
  vw_host :: string
  vw_port :: int
  vw_web_root :: string
  vw_jpeg_quality :: int
  vw_target_fps :: int

definition default_viewer_config :: viewer_config where
  "default_viewer_config =
     \<lparr>vw_enabled = False, vw_host = ''0.0.0.0'', vw_port = 8088, vw_web_root = ''web'',
      vw_jpeg_quality = 75, vw_target_fps = 15\<rparr>"

record http_session =
  hs_camera :: string
  hs_last_sent :: "nat option"
  hs_sse_last_seq :: "64 word"

definition http_session_new :: "string \<Rightarrow> http_session" where
  "http_session_new cam = \<lparr>hs_camera = cam, hs_last_sent = None, hs_sse_last_seq = 0\<rparr>"

definition crlf :: string where
  "crlf = [CHR 0x0D, CHR 0x0A]"

definition mjpeg_header :: string where
  "mjpeg_header =
     ''HTTP/1.1 200 OK'' @ crlf @ ''Server: forklift-safety'' @ crlf @
     ''Cache-Control: no-cache, no-store, must-revalidate'' @ crlf @ ''Pragma: no-cache'' @ crlf @
     ''Connection: close'' @ crlf @ ''Access-Control-Allow-Origin: *'' @ crlf @
     ''Content-Type: multipart/x-mixed-replace; boundary=frame'' @ crlf @ crlf"

definition sse_header :: string where
  "sse_header =
     ''HTTP/1.1 200 OK'' @ crlf @ ''Server: forklift-safety'' @ crlf @
     ''Content-Type: text/event-stream'' @ crlf @ ''Cache-Control: no-cache'' @ crlf @
     ''Connection: close'' @ crlf @ ''Access-Control-Allow-Origin: *'' @ crlf @ crlf"

definition mjpeg_chunk :: "string \<Rightarrow> string" where
  "mjpeg_chunk content =
     ''--frame'' @ crlf @ ''Content-Type: image/jpeg'' @ crlf @ ''Content-Length: '' @
     dec_int (int (length content)) @ crlf @ crlf @ content @ crlf"

text \<open>A tick writes a chunk or nothing; either way the timer is armed again.\<close>

definition mjpeg_tick :: "shared_state \<Rightarrow> http_session \<Rightarrow> http_session \<times> string option" where
  "mjpeg_tick st hs =
     (case latest_for (hs_camera hs) st of
        None \<Rightarrow> (hs, None)
      | Some (ptr, content) \<Rightarrow>
          if hs_last_sent hs \<noteq> Some ptr
          then (hs\<lparr>hs_last_sent := Some ptr\<rparr>, Some (mjpeg_chunk content)) else (hs, None))"

definition sse_tick :: "string list \<Rightarrow> shared_state \<Rightarrow> http_session \<Rightarrow> http_session \<times> string option" where
  "sse_tick order st hs =
     (if hs_camera hs = [] then
        (case latest_dets_all order st of (payload, seq) \<Rightarrow>
           if payload \<noteq> [] \<and> seq \<noteq> hs_sse_last_seq hs
           then (hs\<lparr>hs_sse_last_seq := seq\<rparr>, Some payload) else (hs, None))
      else
        (case latest_dets_for (hs_camera hs) st of (json, seq) \<Rightarrow>
           if json \<noteq> [] \<and> seq \<noteq> hs_sse_last_seq hs
           then (hs\<lparr>hs_sse_last_seq := seq\<rparr>, Some (sse_chunk json)) else (hs, None)))"

definition effective_fps :: "viewer_config \<Rightarrow> int" where
  "effective_fps cfg = (if 0 < vw_target_fps cfg then vw_target_fps cfg else 15)"

definition mjpeg_delay_ms :: "viewer_config \<Rightarrow> int" where
  "mjpeg_delay_ms cfg = 1000 div effective_fps cfg"

definition sse_delay_ms :: "viewer_config \<Rightarrow> int" where
  "sse_delay_ms cfg = 500 div effective_fps cfg"

subsection \<open>Detection JSON\<close>

definition box_ints :: "bounding_box \<Rightarrow> string run" where
  "box_ints b =
     (case f32_to_int (bb_x b) of Inl e \<Rightarrow> Inl e | Inr x \<Rightarrow>
      case f32_to_int (bb_y b) of Inl e \<Rightarrow> Inl e | Inr y \<Rightarrow>
      case f32_to_int (bb_width b) of Inl e \<Rightarrow> Inl e | Inr w \<Rightarrow>
      case f32_to_int (bb_height b) of Inl e \<Rightarrow> Inl e | Inr h \<Rightarrow>
        Inr (''\"x\":'' @ dec_int x @ '',\"y\":'' @ dec_int y @ '',\"w\":'' @ dec_int w @ '',\"h\":'' @ dec_int h))"

fun dets_json_loop :: "detection list \<Rightarrow> bool \<Rightarrow> string \<Rightarrow> string run" where
  "dets_json_loop [] first json = Inr json"
| "dets_json_loop (d # ds) first json =
     (case box_ints (det_box d) of
        Inl e \<Rightarrow> Inl e
      | Inr coords \<Rightarrow>
          dets_json_loop ds False
            (json @ (if first then [] else '','') @ ''{\"class\":\"'' @ object_class_to_string (det_cls d) @
             ''\",'' @ coords @ '',\"conf\":'' @ format_2f (det_confidence d) @ ''}''))"

fun zones_json_loop :: "safety_zone list \<Rightarrow> bool \<Rightarrow> string \<Rightarrow> string run" where
  "zones_json_loop [] first json = Inr json"
| "zones_json_loop (z # zs) first json =
     (case box_ints (sz_zone_box z) of
        Inl e \<Rightarrow> Inl e
      | Inr coords \<Rightarrow>
          zones_json_loop zs False (json @ (if first then [] else '','') @ ''{'' @ coords @ ''}''))"

definition detections_json ::
  "string \<Rightarrow> detection list \<Rightarrow> safety_zone list \<Rightarrow> int \<Rightarrow> int \<Rightarrow> string run"
where
  "detections_json camera_id ds zs frame_w frame_h =
     (case dets_json_loop ds True
             (''{\"camera\":\"'' @ camera_id @ ''\",\"frame_w\":'' @ dec_int frame_w @
              '',\"frame_h\":'' @ dec_int frame_h @ '',\"detections\":['') of
        Inl e \<Rightarrow> Inl e
      | Inr json \<Rightarrow>
          (case zones_json_loop zs True (json @ ''],\"zones\":['') of
             Inl e \<Rightarrow> Inl e | Inr json' \<Rightarrow> Inr (json' @ '']}'')))"

subsection \<open>The server\<close>

text \<open>\<open>ms_next\<close> numbers the allocations of JPEG strings.\<close>

record mjpeg_server =
  ms_cfg :: viewer_config
  ms_running :: bool
  ms_state :: shared_state
  ms_next :: nat

definition mjpeg_new :: "viewer_config \<Rightarrow> mjpeg_server" where
  "mjpeg_new cfg = \<lparr>ms_cfg = cfg, ms_running = False, ms_state = shared_state_new, ms_next = 0\<rparr>"

definition mjpeg_start :: "(string \<Rightarrow> int \<Rightarrow> string + unit) \<Rightarrow> mjpeg_server \<Rightarrow> void_result \<times> mjpeg_server" where
  "mjpeg_start bind s =
     (if ms_running s then (vr_success, s)
      else case bind (vw_host (ms_cfg s)) (vw_port (ms_cfg s)) of
          Inl what \<Rightarrow> (vr_failure (mk_error 30 (''mjpeg bind failed: '' @ what)), s)
        | Inr _ \<Rightarrow> (vr_success, s\<lparr>ms_running := True\<rparr>))"

definition mjpeg_stop :: "mjpeg_server \<Rightarrow> mjpeg_server" where
  "mjpeg_stop s = (if \<not> ms_running s then s else s\<lparr>ms_running := False\<rparr>)"

text \<open>The handler of an accept: the session it creates, and whether it accepts again.\<close>

definition mjpeg_accept :: "bool \<Rightarrow> mjpeg_server \<Rightarrow> http_session option \<times> bool" where
  "mjpeg_accept ec s =
     (if \<not> ms_running s then (None, False)
      else (if \<not> ec then Some (http_session_new []) else None, True))"

definition mjpeg_publish ::
  "('m \<Rightarrow> bool) \<Rightarrow> (int \<Rightarrow> 'm \<Rightarrow> string option) \<Rightarrow> 'm frame \<Rightarrow> mjpeg_server \<Rightarrow> mjpeg_server"
where
  "mjpeg_publish mat_empty encode f s =
     (if \<not> ms_running s \<or> mat_empty (fr_image f) then s
      else case encode (if 0 < vw_jpeg_quality (ms_cfg s) then vw_jpeg_quality (ms_cfg s) else 75)
                  (fr_image f) of
          None \<Rightarrow> s
        | Some jpeg \<Rightarrow>
            s\<lparr>ms_state := store (fr_camera_id f) (ms_next s, jpeg) (ms_state s),
              ms_next := ms_next s + 1\<rparr>)"

definition mjpeg_publish_detections ::
  "string \<Rightarrow> detection list \<Rightarrow> safety_zone list \<Rightarrow> int \<Rightarrow> int \<Rightarrow> mjpeg_server \<Rightarrow> mjpeg_server run"
where
  "mjpeg_publish_detections camera_id ds zs w h s =
     (if \<not> ms_running s then Inr s
      else case detections_json camera_id ds zs w h of
          Inl e \<Rightarrow> Inl e
        | Inr json \<Rightarrow> Inr (s\<lparr>ms_state := store_dets camera_id json (ms_state s)\<rparr>))"

text \<open>The stub of a build without Boost.Beast publishes nothing.\<close>

record mjpeg_stub =
  mst_cfg :: viewer_config
  mst_started :: bool

definition mjpeg_stub_new :: "viewer_config \<Rightarrow> mjpeg_stub" where
  "mjpeg_stub_new cfg = \<lparr>mst_cfg = cfg, mst_started = False\<rparr>"

definition mjpeg_stub_start :: "mjpeg_stub \<Rightarrow> void_result \<times> mjpeg_stub" where
  "mjpeg_stub_start s = (vr_success, s\<lparr>mst_started := True\<rparr>)"

definition mjpeg_stub_stop :: "mjpeg_stub \<Rightarrow> mjpeg_stub" where
  "mjpeg_stub_stop s = (if \<not> mst_started s then s else s\<lparr>mst_started := False\<rparr>)"

definition mjpeg_stub_publish :: "'m frame \<Rightarrow> mjpeg_stub \<Rightarrow> mjpeg_stub" where
  "mjpeg_stub_publish f s = s"

definition mjpeg_stub_publish_detections ::
  "string \<Rightarrow> detection list \<Rightarrow> safety_zone list \<Rightarrow> int \<Rightarrow> int \<Rightarrow> mjpeg_stub \<Rightarrow> mjpeg_stub run"
where
  "mjpeg_stub_publish_detections camera_id ds zs w h s = Inr s"

subsection \<open>The port of the pipeline\<close>

text \<open>
  \<^verbatim>\<open>FrameStreamPublisher\<close> and \<^verbatim>\<open>DetectionStreamPublisher\<close> as a pipeline uses them, with the \<open>start\<close> and \<open>stop\<close>
  of \<^verbatim>\<open>main\<close>: publishing neither starts nor stops the viewer, and a stopped one ignores it.
\<close>

datatype 'm stream_call =
    Publish_Frame "'m frame"
  | Publish_Detections string "detection list" "safety_zone list" int int

fun stream_calls ::
  "('m frame \<Rightarrow> 's \<Rightarrow> 's) \<Rightarrow> (string \<Rightarrow> detection list \<Rightarrow> safety_zone list \<Rightarrow> int \<Rightarrow> int \<Rightarrow> 's \<Rightarrow> 's run) \<Rightarrow>
   'm stream_call list \<Rightarrow> 's \<Rightarrow> 's run"
where
  "stream_calls frame dets [] s = Inr s"
| "stream_calls frame dets (Publish_Frame f # cs) s = stream_calls frame dets cs (frame f s)"
| "stream_calls frame dets (Publish_Detections cam ds zs w h # cs) s =
     (case dets cam ds zs w h s of Inl e \<Rightarrow> Inl e | Inr s' \<Rightarrow> stream_calls frame dets cs s')"

locale stream_port =
  fixes start :: "'s \<Rightarrow> void_result \<times> 's"
    and stop :: "'s \<Rightarrow> 's"
    and running :: "'s \<Rightarrow> bool"
    and publish :: "'m frame \<Rightarrow> 's \<Rightarrow> 's"
    and publish_detections :: "string \<Rightarrow> detection list \<Rightarrow> safety_zone list \<Rightarrow> int \<Rightarrow> int \<Rightarrow> 's \<Rightarrow> 's run"
  assumes started: "vr_ok (fst (start s)) \<Longrightarrow> running (snd (start s))"
    and stopped: "\<not> running (stop s)"
    and stop_again: "\<not> running s \<Longrightarrow> stop s = s"
    and frame_running: "running (publish f s) = running s"
    and detections_running: "publish_detections cam ds zs w h s = Inr s' \<Longrightarrow> running s' = running s"
    and ignores_frame: "\<not> running s \<Longrightarrow> publish f s = s"
    and ignores_detections: "\<not> running s \<Longrightarrow> publish_detections cam ds zs w h s = Inr s"
begin

lemma calls_running: "stream_calls publish publish_detections cs s = Inr s' \<Longrightarrow> running s' = running s"
proof (induction cs arbitrary: s)
  case (Cons c cs)
  then show ?case by (cases c) (auto simp: frame_running detections_running split: sum.splits)
qed simp

lemma calls_ignored: "\<not> running s \<Longrightarrow> stream_calls publish publish_detections cs s = Inr s"
proof (induction cs)
  case (Cons c cs)
  then show ?case by (cases c) (simp_all add: ignores_frame ignores_detections)
qed simp

text \<open>After \<open>stop\<close> nothing changes and nothing fails; the destructor, which calls \<open>stop\<close> again, does nothing.\<close>

lemma after_stop: "stream_calls publish publish_detections cs (stop s) = Inr (stop s)" "stop (stop s) = stop s"
  by (simp_all add: calls_ignored stopped stop_again)

end

interpretation viewer: stream_port "mjpeg_start bind" mjpeg_stop ms_running "mjpeg_publish mat_empty encode"
  mjpeg_publish_detections
  by unfold_locales
    (auto simp: mjpeg_start_def mjpeg_stop_def mjpeg_publish_def mjpeg_publish_detections_def vr_ok_def vr_failure_def
      split: option.splits sum.splits if_splits)

interpretation viewer_stub: stream_port mjpeg_stub_start mjpeg_stub_stop mst_started mjpeg_stub_publish
  mjpeg_stub_publish_detections
  by unfold_locales
    (auto simp: mjpeg_stub_start_def mjpeg_stub_stop_def mjpeg_stub_publish_def mjpeg_stub_publish_detections_def)

subsection \<open>The stores\<close>

interpretation frames: latest_store store "\<lambda>cam st. sh_latest st cam"
  by unfold_locales (simp add: store_def)

interpretation dets: latest_store store_dets "\<lambda>cam st. map_option de_json (sh_latest_dets st cam)"
  by unfold_locales (simp add: store_dets_def Let_def)

subsection \<open>The viewer in operation\<close>

text \<open>
  One session beside the publishers: frames and detections are published, the session ticks.  The
  counter is the number of detection updates so far.
\<close>

inductive viewer_reachable ::
  "viewer_config \<Rightarrow> string \<Rightarrow> ('m \<Rightarrow> bool) \<Rightarrow> (int \<Rightarrow> 'm \<Rightarrow> string option) \<Rightarrow>
   mjpeg_server \<times> http_session \<times> nat \<Rightarrow> bool"
  for cfg cam mat_empty encode
where
  init: "viewer_reachable cfg cam mat_empty encode
    (snd (mjpeg_start (\<lambda>_ _. Inr ()) (mjpeg_new cfg)), http_session_new cam, 0)"
| frame: "viewer_reachable cfg cam mat_empty encode (s, hs, n) \<Longrightarrow>
    viewer_reachable cfg cam mat_empty encode (mjpeg_publish mat_empty encode f s, hs, n)"
| detections: "viewer_reachable cfg cam mat_empty encode (s, hs, n) \<Longrightarrow> ms_running s \<Longrightarrow>
    mjpeg_publish_detections c ds zs w h s = Inr s' \<Longrightarrow>
    viewer_reachable cfg cam mat_empty encode (s', hs, Suc n)"
| mjpeg: "viewer_reachable cfg cam mat_empty encode (s, hs, n) \<Longrightarrow>
    viewer_reachable cfg cam mat_empty encode (s, fst (mjpeg_tick (ms_state s) hs), n)"
| sse: "viewer_reachable cfg cam mat_empty encode (s, hs, n) \<Longrightarrow>
    viewer_reachable cfg cam mat_empty encode (s, fst (sse_tick order (ms_state s) hs), n)"
| stop: "viewer_reachable cfg cam mat_empty encode (s, hs, n) \<Longrightarrow>
    viewer_reachable cfg cam mat_empty encode (mjpeg_stop s, hs, n)"

definition viewer_inv :: "string \<Rightarrow> mjpeg_server \<times> http_session \<times> nat \<Rightarrow> bool" where
  "viewer_inv cam h = (case h of (s, hs, n) \<Rightarrow>
     let st = ms_state s in
     hs_camera hs = cam \<and>
     (\<forall>p. hs_last_sent hs = Some p \<longrightarrow> p < ms_next s) \<and>
     (\<forall>c p j. sh_latest st c = Some (p, j) \<longrightarrow> p < ms_next s) \<and>
     distinct (sh_camera_order st) \<and> set (sh_camera_order st) = dom (sh_latest st))"

lemma mjpeg_tick_keeps [simp]:
  "hs_camera (fst (mjpeg_tick st hs)) = hs_camera hs"
  "hs_sse_last_seq (fst (mjpeg_tick st hs)) = hs_sse_last_seq hs"
  by (auto simp: mjpeg_tick_def split: option.splits)

lemma sse_tick_keeps [simp]:
  "hs_camera (fst (sse_tick order st hs)) = hs_camera hs"
  "hs_last_sent (fst (sse_tick order st hs)) = hs_last_sent hs"
  by (auto simp: sse_tick_def split: prod.splits)

lemma latest_for_stored: "latest_for c st = Some j \<Longrightarrow> \<exists>c'. sh_latest st c' = Some j"
  by (auto simp: latest_for_def split: if_splits)

lemma viewer_inv_publish:
  "viewer_inv cam (s, hs, n) \<Longrightarrow> viewer_inv cam (mjpeg_publish mat_empty encode f s, hs, n)"
  by (auto simp: viewer_inv_def Let_def mjpeg_publish_def store_def less_Suc_eq
      split: if_splits option.splits)

lemma viewer_inv_dets:
  assumes "viewer_inv cam (s, hs, n)" "mjpeg_publish_detections c ds zs w h s = Inr s'"
  shows "viewer_inv cam (s', hs, m)"
proof -
  have "sh_latest (ms_state s') = sh_latest (ms_state s)"
    "sh_camera_order (ms_state s') = sh_camera_order (ms_state s)" "ms_next s' = ms_next s"
    using assms(2)
    by (auto simp: mjpeg_publish_detections_def store_dets_def Let_def split: if_splits sum.splits)
  with assms(1) show ?thesis by (simp add: viewer_inv_def Let_def)
qed

lemma viewer_inv_reachable: "viewer_reachable cfg cam mat_empty encode h \<Longrightarrow> viewer_inv cam h"
proof (induction rule: viewer_reachable.induct)
  case init
  then show ?case
    by (simp add: viewer_inv_def mjpeg_start_def mjpeg_new_def http_session_new_def shared_state_new_def)
next
  case (frame s hs n f)
  then show ?case by (rule_tac viewer_inv_publish)
next
  case (detections s hs n c ds zs w h s')
  then show ?case by (rule_tac viewer_inv_dets)
next
  case (mjpeg s hs n)
  then show ?case
    by (auto simp: viewer_inv_def Let_def mjpeg_tick_def split: option.splits)
      (metis latest_for_stored)
next
  case (sse s hs n order)
  then show ?case by (simp add: viewer_inv_def Let_def)
next
  case (stop s hs n)
  then show ?case by (simp add: viewer_inv_def Let_def mjpeg_stop_def)
qed

lemma mjpeg_tick_published:
  assumes "viewer_reachable cfg cam mat_empty encode (s, hs, n)" "hs_camera hs = fr_camera_id f" "fr_camera_id f \<noteq> []"
    and "ms_running s" "\<not> mat_empty (fr_image f)"
    and "encode (if 0 < vw_jpeg_quality (ms_cfg s) then vw_jpeg_quality (ms_cfg s) else 75) (fr_image f) = Some j"
  shows "mjpeg_tick (ms_state (mjpeg_publish mat_empty encode f s)) hs =
    (hs\<lparr>hs_last_sent := Some (ms_next s)\<rparr>, Some (mjpeg_chunk j))"
proof -
  have "latest_for (hs_camera hs) (ms_state (mjpeg_publish mat_empty encode f s)) = Some (ms_next s, j)"
    using assms by (simp add: mjpeg_publish_def latest_for_def store_def)
  moreover have "hs_last_sent hs \<noteq> Some (ms_next s)"
    using viewer_inv_reachable [OF assms(1)] by (auto simp: viewer_inv_def Let_def)
  ultimately show ?thesis by (simp add: mjpeg_tick_def)
qed

lemma mjpeg_tick_twice: "snd (mjpeg_tick st (fst (mjpeg_tick st hs))) = None"
  by (auto simp: mjpeg_tick_def split: option.splits)

text \<open>
  The live view shows each frame once: in every state, after a camera's frame is encoded and
  published, the next tick of a session of that camera sends exactly this frame, and the tick
  after it nothing, unless a newer frame has come.
\<close>

theorem viewer_sends_latest_once:
  assumes "viewer_reachable cfg cam mat_empty encode (s, hs, n)" "cam \<noteq> []"
    and "ms_running s" "fr_camera_id f = cam" "\<not> mat_empty (fr_image f)"
    and "encode (if 0 < vw_jpeg_quality (ms_cfg s) then vw_jpeg_quality (ms_cfg s) else 75) (fr_image f) = Some j"
  shows "let st = ms_state (mjpeg_publish mat_empty encode f s); t = mjpeg_tick st hs
    in snd t = Some (mjpeg_chunk j) \<and> snd (mjpeg_tick st (fst t)) = None"
proof -
  have "hs_camera hs = cam" using viewer_inv_reachable [OF assms(1)] by (simp add: viewer_inv_def Let_def)
  with mjpeg_tick_published [OF assms(1), of f j] assms(2-6) show ?thesis
    by (simp add: Let_def mjpeg_tick_twice)
qed

subsection \<open>Detections in the stream\<close>

text \<open>
  Sequence numbers are compared for equality only, modulo \<open>2 ^ 64\<close>: after \<open>n\<close> updates the number a
  session has seen is at most the number of its stream, which is at most \<open>n\<close>.
\<close>

definition behind :: "nat \<Rightarrow> 64 word \<Rightarrow> 64 word \<Rightarrow> bool" where
  "behind n a b = (\<exists>k m. a = of_nat k \<and> b = of_nat m \<and> k \<le> m \<and> m \<le> n)"

definition stream_seq :: "string \<Rightarrow> shared_state \<Rightarrow> 64 word" where
  "stream_seq cam st =
     (if cam = [] then sh_global_det_seq st else snd (latest_dets_for cam st))"

definition dets_inv :: "mjpeg_server \<times> http_session \<times> nat \<Rightarrow> bool" where
  "dets_inv h = (case h of (s, hs, n) \<Rightarrow>
     behind n (hs_sse_last_seq hs) (stream_seq (hs_camera hs) (ms_state s)))"

lemma behind_zero [simp]: "behind n 0 0"
  unfolding behind_def by (intro exI [of _ 0]) simp

lemma behind_Suc: "behind n a b \<Longrightarrow> behind (Suc n) a b"
  unfolding behind_def using le_SucI by blast

lemma behind_next:
  assumes "behind n a b"
  shows "behind (Suc n) a (b + 1)"
proof -
  from assms obtain k m where "a = of_nat k" "b = of_nat m" "k \<le> m" "m \<le> n"
    by (auto simp: behind_def)
  then have "a = of_nat k \<and> b + 1 = of_nat (Suc m) \<and> k \<le> Suc m \<and> Suc m \<le> Suc n" by simp
  then show ?thesis unfolding behind_def by blast
qed

lemma behind_refl: "behind n a b \<Longrightarrow> behind n b b"
  unfolding behind_def by blast

lemma of_nat_64_inject:
  "k < 2 ^ 64 \<Longrightarrow> m < 2 ^ 64 \<Longrightarrow> (of_nat k :: 64 word) = of_nat m \<longleftrightarrow> k = m"
  by (simp add: word_of_nat_eq_iff take_bit_nat_eq_self)

lemma behind_fresh:
  assumes "behind n a b" "Suc n < 2 ^ 64"
  shows "b + 1 \<noteq> a"
proof -
  from assms(1) obtain k m where km: "a = of_nat k" "b = of_nat m" "k \<le> m" "m \<le> n"
    by (auto simp: behind_def)
  have "(of_nat (Suc m) :: 64 word) \<noteq> of_nat k"
    using km assms(2) by (subst of_nat_64_inject) simp_all
  with km show ?thesis by (simp add: add.commute)
qed

lemma latest_dets_store [simp]:
  "latest_dets_for c (store_dets c' json st) =
     (if c = c' then (json, snd (latest_dets_for c st) + 1) else latest_dets_for c st)"
  by (simp add: latest_dets_for_def store_dets_def Let_def split: option.splits)

lemma stream_seq_store:
  "stream_seq cam (store_dets c json st) =
     (if cam = [] \<or> cam = c then stream_seq cam st + 1 else stream_seq cam st)"
  by (simp add: stream_seq_def) (simp add: store_dets_def Let_def)

lemma publish_frame_dets [simp]:
  "stream_seq c (ms_state (mjpeg_publish mat_empty encode f s)) = stream_seq c (ms_state s)"
  by (simp add: mjpeg_publish_def store_def stream_seq_def latest_dets_for_def split: option.splits)

lemma publish_detections_state:
  assumes "mjpeg_publish_detections c ds zs w h s = Inr s'" "ms_running s"
  obtains json where "detections_json c ds zs w h = Inr json"
    "ms_state s' = store_dets c json (ms_state s)"
  using assms by (auto simp: mjpeg_publish_detections_def split: sum.splits)

lemma detections_json_not_empty: "detections_json c ds zs w h = Inr json \<Longrightarrow> json \<noteq> []"
  by (auto simp: detections_json_def split: sum.splits)

lemma sse_tick_seq:
  "hs_sse_last_seq (fst (sse_tick order st hs)) = hs_sse_last_seq hs \<or>
   hs_sse_last_seq (fst (sse_tick order st hs)) = stream_seq (hs_camera hs) st"
  by (simp add: sse_tick_def stream_seq_def latest_dets_all_def split: prod.splits)

lemma dets_inv_reachable: "viewer_reachable cfg cam mat_empty encode h \<Longrightarrow> dets_inv h"
proof (induction rule: viewer_reachable.induct)
  case init
  then show ?case
    by (simp add: dets_inv_def mjpeg_start_def mjpeg_new_def http_session_new_def shared_state_new_def
        latest_dets_for_def stream_seq_def)
next
  case (detections s hs n c ds zs w h s')
  obtain json where "ms_state s' = store_dets c json (ms_state s)"
    by (rule publish_detections_state [OF detections(3,2)])
  with detections(4) show ?case by (simp add: dets_inv_def stream_seq_store behind_Suc behind_next)
next
  case (sse s hs n order)
  then show ?case using sse_tick_seq [of order "ms_state s" hs]
    by (auto simp: dets_inv_def behind_refl)
qed (auto simp: dets_inv_def mjpeg_stop_def)

lemma dets_all_loop_append: "dets_all_loop m order (out @ out') = out @ dets_all_loop m order out'"
  by (induction order arbitrary: out') (simp_all split: option.splits)

lemma dets_all_loop_member:
  "c \<in> set order \<Longrightarrow> m c = Some e \<Longrightarrow> de_json e \<noteq> [] \<Longrightarrow>
   \<exists>pre post. dets_all_loop m order out = pre @ sse_chunk (de_json e) @ post"
proof (induction order arbitrary: out)
  case (Cons c' cams)
  show ?case
  proof (cases "c' = c")
    case True
    with Cons.prems have "dets_all_loop m (c' # cams) out = out @ sse_chunk (de_json e) @ dets_all_loop m cams []"
      using dets_all_loop_append [of m cams "out @ sse_chunk (de_json e)" "[]"] by simp
    then show ?thesis by blast
  next
    case False
    with Cons.prems have "c \<in> set cams" by simp
    from Cons.IH [OF this Cons.prems(2,3)] show ?thesis by (simp split: option.splits)
  qed
qed simp

lemma sse_tick_published:
  assumes "viewer_reachable cfg cam mat_empty encode (s, hs, n)" "Suc n < 2 ^ 64"
    and "ms_running s" "mjpeg_publish_detections c ds zs w h s = Inr s'"
    and "if cam = [] then c \<in> set order else c = cam"
  shows "\<exists>json pre post. detections_json c ds zs w h = Inr json \<and>
    snd (sse_tick order (ms_state s') hs) = Some (pre @ sse_chunk json @ post) \<and>
    (if cam = [] then True else pre = [] \<and> post = [])"
proof -
  obtain json where json: "detections_json c ds zs w h = Inr json"
    and s': "ms_state s' = store_dets c json (ms_state s)"
    by (rule publish_detections_state [OF assms(4,3)])
  have cam: "hs_camera hs = cam"
    using viewer_inv_reachable [OF assms(1)] by (simp add: viewer_inv_def Let_def)
  have "json \<noteq> []" by (rule detections_json_not_empty [OF json])
  have fresh: "stream_seq cam (ms_state s) + 1 \<noteq> hs_sse_last_seq hs"
    using dets_inv_reachable [OF assms(1)] assms(2) cam by (auto simp: dets_inv_def dest: behind_fresh)
  show ?thesis
  proof (cases "cam = []")
    case True
    let ?st = "store_dets c json (ms_state s)"
    have "sh_latest_dets ?st c = Some \<lparr>de_json = json, de_seq = snd (latest_dets_for c (ms_state s)) + 1\<rparr>"
      by (simp add: store_dets_def Let_def latest_dets_for_def split: option.splits)
    with dets_all_loop_member [where m = "sh_latest_dets ?st" and c = c and out = "[]" and order = order]
      assms(5) True \<open>json \<noteq> []\<close>
    obtain pre post where "dets_all_loop (sh_latest_dets ?st) order [] = pre @ sse_chunk json @ post"
      by fastforce
    moreover have "sse_chunk json \<noteq> []" by (simp add: sse_chunk_def)
    moreover have "sh_global_det_seq ?st \<noteq> hs_sse_last_seq hs"
      using fresh True by (simp add: stream_seq_def store_dets_def Let_def)
    ultimately show ?thesis
      using True cam json s' by (simp add: sse_tick_def latest_dets_all_def) blast
  next
    case False
    with assms(5) cam fresh json s' \<open>json \<noteq> []\<close> show ?thesis
      by (simp add: sse_tick_def stream_seq_def)
  qed
qed

lemma sse_tick_twice: "snd (sse_tick order st (fst (sse_tick order st hs))) = None"
  by (auto simp: sse_tick_def split: prod.splits)

text \<open>
  Detections reach the browser once: after detections are published for a camera, the next tick
  of an SSE session of that camera, or of all cameras, sends the JSON built for them, and
  the tick after it sends nothing, for fewer than \<open>2 ^ 64\<close> updates.
\<close>

theorem sse_sends_detections_once:
  assumes "viewer_reachable cfg cam mat_empty encode (s, hs, n)" "Suc n < 2 ^ 64"
    and "ms_running s" "mjpeg_publish_detections c ds zs w h s = Inr s'"
    and "if cam = [] then c \<in> set order else c = cam"
  shows "\<exists>json pre post. detections_json c ds zs w h = Inr json \<and>
    snd (sse_tick order (ms_state s') hs) = Some (pre @ sse_chunk json @ post) \<and>
    (cam \<noteq> [] \<longrightarrow> pre = [] \<and> post = []) \<and>
    snd (sse_tick order (ms_state s') (fst (sse_tick order (ms_state s') hs))) = None"
  using sse_tick_published [OF assms] by (auto simp: sse_tick_twice split: if_splits)

subsection \<open>Camera list\<close>

text \<open>Strings separated by commas.\<close>

fun commas :: "string list \<Rightarrow> string" where
  "commas [] = []"
| "commas (x # xs) = x @ concat (map (\<lambda>y. '','' @ y) xs)"

definition quoted :: "string \<Rightarrow> string" where
  "quoted s = ''\"'' @ s @ ''\"''"

lemma cameras_loop_commas: "cameras_loop cs out = out @ commas (map quoted cs)"
  by (induction cs out rule: cameras_loop.induct) (simp_all add: quoted_def)

text \<open>
  \<open>/cameras\<close> lists exactly the cameras that have a frame, each once, in the order in which they
  first appeared: in every state the list has no repetition and is the domain of the store, the
  text is the names in quotes, separated by commas, a new frame at most appends its camera,
  and a stream without a camera shows the first camera of the list.
\<close>

theorem cameras_listed_once:
  assumes "viewer_reachable cfg cam mat_empty encode (s, hs, n)"
  shows "\<exists>cs. distinct cs \<and> set cs = dom (sh_latest (ms_state s)) \<and>
    cameras_json (ms_state s) = ''['' @ commas (map quoted cs) @ '']'' \<and>
    sh_camera_order (ms_state (mjpeg_publish mat_empty encode f s)) \<in> {cs, cs @ [fr_camera_id f]} \<and>
    latest_for [] (ms_state s) = (case cs of [] \<Rightarrow> None | c # _ \<Rightarrow> sh_latest (ms_state s) c)"
proof (intro exI conjI)
  let ?cs = "sh_camera_order (ms_state s)"
  have inv: "distinct ?cs" "set ?cs = dom (sh_latest (ms_state s))"
    using viewer_inv_reachable [OF assms] by (simp_all add: viewer_inv_def Let_def)
  show "distinct ?cs" "set ?cs = dom (sh_latest (ms_state s))" by (fact inv)+
  show "cameras_json (ms_state s) = ''['' @ commas (map quoted ?cs) @ '']''"
    by (simp add: cameras_json_def cameras_loop_commas)
  show "sh_camera_order (ms_state (mjpeg_publish mat_empty encode f s)) \<in> {?cs, ?cs @ [fr_camera_id f]}"
    by (simp add: mjpeg_publish_def store_def split: option.splits)
  show "latest_for [] (ms_state s) = (case ?cs of [] \<Rightarrow> None | c # _ \<Rightarrow> sh_latest (ms_state s) c)"
    using inv(2) by (auto simp: latest_for_def split: list.splits)
qed

subsection \<open>Requests\<close>

lemma takeWhile_append_stop: "c \<notin> set p \<Longrightarrow> takeWhile (\<lambda>x. x \<noteq> c) (p @ c # t) = p"
  by (subst takeWhile_append2) auto

lemma takeWhile_none: "c \<notin> set p \<Longrightarrow> takeWhile (\<lambda>x. x \<noteq> c) p = p"
  by (subst takeWhile_eq_all_conv) auto

lemma takeWhile_decomp: "c \<in> set s \<Longrightarrow> \<exists>t. s = takeWhile (\<lambda>x. x \<noteq> c) s @ c # t"
  by (induction s) auto

lemma getlines_field: "d \<notin> set s \<Longrightarrow> s \<noteq> [] \<Longrightarrow> getlines d s = [s]"
  by (simp add: getlines.simps [of d s] getlines.simps [of d "[]"] takeWhile_none)

lemma getlines_cons: "d \<notin> set s \<Longrightarrow> getlines d (s @ d # t) = s # getlines d t"
  by (simp add: getlines.simps [of d "s @ d # t"] takeWhile_append_stop)

lemma query_param_split:
  assumes "CHR ''?'' \<notin> set p"
  shows "query_param (p @ CHR ''?'' # q) key = first_value key (getlines (CHR ''&'') q)"
  using takeWhile_append_stop [OF assms, of q] by (simp add: query_param_def)

text \<open>A list of fields as the browser writes it.\<close>

fun query_text :: "(string \<times> string) list \<Rightarrow> string" where
  "query_text [] = []"
| "query_text [(k, v)] = k @ ''='' @ v"
| "query_text ((k, v) # kvs) = k @ ''='' @ v @ ''&'' @ query_text kvs"

definition plain_field :: "string \<times> string \<Rightarrow> bool" where
  "plain_field kv = (CHR ''='' \<notin> set (fst kv) \<and> CHR ''&'' \<notin> set (fst kv) \<and> CHR ''&'' \<notin> set (snd kv))"

lemma first_value_field:
  "CHR ''='' \<notin> set k \<Longrightarrow>
   first_value key ((k @ CHR ''='' # v) # ps) = (if k = key then v else first_value key ps)"
  using takeWhile_append_stop [of "CHR ''=''" k v] by (auto simp del: takeWhile_append)

lemma first_value_query:
  "list_all plain_field kvs \<Longrightarrow>
   first_value key (getlines (CHR ''&'') (query_text kvs)) = (case map_of kvs key of None \<Rightarrow> [] | Some v \<Rightarrow> v)"
proof (induction kvs rule: query_text.induct)
  case 1
  then show ?case by (simp add: getlines.simps)
next
  case (2 k v)
  then have "getlines (CHR ''&'') (k @ CHR ''='' # v) = [k @ CHR ''='' # v]"
    by (intro getlines_field) (auto simp: plain_field_def)
  with 2 show ?case by (simp add: plain_field_def first_value_field del: first_value.simps(2))
next
  case (3 k v kv kvs)
  then have "getlines (CHR ''&'') ((k @ CHR ''='' # v) @ CHR ''&'' # query_text (kv # kvs)) =
      (k @ CHR ''='' # v) # getlines (CHR ''&'') (query_text (kv # kvs))"
    by (intro getlines_cons) (auto simp: plain_field_def)
  with 3 show ?case by (simp add: plain_field_def first_value_field del: first_value.simps(2))
qed

text \<open>
  Query parameters round-trip: of a target with a path and fields \<open>key=value\<close> the parser returns
  the value of the first field with the wanted key, or the empty string when there is none, byte for
  byte: nothing is percent-decoded.
\<close>

theorem query_param_roundtrip:
  assumes "CHR ''?'' \<notin> set p" "list_all plain_field kvs"
  shows "path_only (p @ ''?'' @ query_text kvs) = p \<and>
    query_param (p @ ''?'' @ query_text kvs) key = (case map_of kvs key of None \<Rightarrow> [] | Some v \<Rightarrow> v)"
  using query_param_split [OF assms(1)] first_value_query [OF assms(2)] takeWhile_append_stop [OF assms(1)]
  by (simp add: path_only_def)

text \<open>
  C26: Requests are answered and confined: a request faults exactly when the target has an empty
  path (an exception the I/O thread does not catch), and the answer depends only on files named
  \<open>web_root/rel\<close> with a \<open>rel\<close> that has no \<open>..\<close> in it: two file systems that agree there are
  indistinguishable.
\<close>

theorem route_confined:
  assumes "\<And>rel. \<not> has_dotdot rel \<Longrightarrow> files (web_root @ ''/'' @ rel) = files' (web_root @ ''/'' @ rel)"
  shows "route web_root files st target = route web_root files' st target \<and>
    (route web_root files st target = Inl (Exception ''std::out_of_range'') \<longleftrightarrow> path_only target = []) \<and>
    (path_only target \<noteq> [] \<longrightarrow> (\<exists>r. route web_root files st target = Inr r))"
proof -
  have tl: "\<not> has_dotdot p \<Longrightarrow> \<not> has_dotdot (tl p)" for p
    by (cases p rule: has_dotdot.cases) auto
  have "send_file web_root files rel = send_file web_root files' rel" if "\<not> has_dotdot rel" for rel
    using assms [OF that] by (simp add: send_file_def)
  moreover have "\<not> has_dotdot ''index.html''" by simp
  ultimately show ?thesis using tl [of "path_only target"] by (simp add: route_def Let_def)
qed

text \<open>What the browser sends for the camera \<open>cam 1\<close>, encoded as \<^verbatim>\<open>web/app.js\<close> does, names no camera.\<close>

lemma percent_encoding_kept:
  "query_param ''/stream?camera=cam%201'' ''camera'' = ''cam%201''"
  using query_param_split [of "''/stream''" "''camera=cam%201''" "''camera''"]
    first_value_query [of "[(''camera'', ''cam%201'')]" "''camera''"] by (simp add: plain_field_def)

subsection \<open>The text of the detections\<close>

definition box_in_int :: "bounding_box \<Rightarrow> bool" where
  "box_in_int b = list_all (\<lambda>c. is_finite c \<and> - (2 ^ 31) \<le> trunc_units (fval c) \<and> trunc_units (fval c) < 2 ^ 31)
     [bb_x b, bb_y b, bb_width b, bb_height b]"

definition box_fields :: "bounding_box \<Rightarrow> string" where
  "box_fields b =
     ''\"x\":'' @ dec_int (trunc_units (fval (bb_x b))) @ '',\"y\":'' @ dec_int (trunc_units (fval (bb_y b))) @
     '',\"w\":'' @ dec_int (trunc_units (fval (bb_width b))) @ '',\"h\":'' @ dec_int (trunc_units (fval (bb_height b)))"

definition det_object :: "detection \<Rightarrow> string" where
  "det_object d =
     ''{\"class\":\"'' @ object_class_to_string (det_cls d) @ ''\",'' @ box_fields (det_box d) @
     '',\"conf\":'' @ format_2f (det_confidence d) @ ''}''"

definition zone_object :: "safety_zone \<Rightarrow> string" where
  "zone_object z = ''{'' @ box_fields (sz_zone_box z) @ ''}''"

lemma box_ints_cases: "box_in_int b \<and> box_ints b = Inr (box_fields b) \<or> \<not> box_in_int b \<and> (\<exists>e. box_ints b = Inl e)"
  by (auto simp: box_in_int_def box_ints_def box_fields_def f32_to_int_def split: sum.splits)

lemma dets_json_loop_spec:
  "if list_all (\<lambda>d. box_in_int (det_box d)) ds
   then dets_json_loop ds first json =
     Inr (json @ (if first then commas (map det_object ds) else concat (map (\<lambda>d. '','' @ det_object d) ds)))
   else \<exists>e. dets_json_loop ds first json = Inl e"
proof (induction ds arbitrary: first json)
  case (Cons d ds)
  then show ?case
    using box_ints_cases [of "det_box d"] by (auto simp: det_object_def comp_def)
qed simp

lemma zones_json_loop_spec:
  "if list_all (\<lambda>z. box_in_int (sz_zone_box z)) zs
   then zones_json_loop zs first json =
     Inr (json @ (if first then commas (map zone_object zs) else concat (map (\<lambda>z. '','' @ zone_object z) zs)))
   else \<exists>e. zones_json_loop zs first json = Inl e"
proof (induction zs arbitrary: first json)
  case (Cons z zs)
  then show ?case
    using box_ints_cases [of "sz_zone_box z"] by (auto simp: zone_object_def comp_def)
qed simp

text \<open>
  C27: The detection JSON: it is built exactly when every coordinate of every box is finite and in
  the range of an \<open>int\<close> (anything else is an undefined conversion), and then it is an object with the
  camera, the frame size, one object per detection and one per zone, in order.
\<close>

theorem detections_json_spec:
  "if list_all (\<lambda>d. box_in_int (det_box d)) ds \<and> list_all (\<lambda>z. box_in_int (sz_zone_box z)) zs
   then detections_json cam ds zs w h =
     Inr (''{\"camera\":'' @ quoted cam @ '',\"frame_w\":'' @ dec_int w @ '',\"frame_h\":'' @ dec_int h @
       '',\"detections\":['' @ commas (map det_object ds) @ ''],\"zones\":['' @
       commas (map zone_object zs) @ '']}'')
   else \<exists>e. detections_json cam ds zs w h = Inl e"
proof -
  let ?start = "''{\"camera\":\"'' @ cam @ ''\",\"frame_w\":'' @ dec_int w @ '',\"frame_h\":'' @ dec_int h @
    '',\"detections\":[''"
  have json: "detections_json cam ds zs w h =
      (case dets_json_loop ds True ?start of
         Inl e \<Rightarrow> Inl e
       | Inr json \<Rightarrow>
           (case zones_json_loop zs True (json @ ''],\"zones\":['') of
              Inl e \<Rightarrow> Inl e | Inr json' \<Rightarrow> Inr (json' @ '']}'')))"
    by (simp only: detections_json_def)
  show ?thesis
  proof (cases "list_all (\<lambda>d. box_in_int (det_box d)) ds")
    case True
    then have "dets_json_loop ds True ?start = Inr (?start @ commas (map det_object ds))"
      using dets_json_loop_spec [of ds True ?start] by (simp only: if_True)
    with True show ?thesis
      using zones_json_loop_spec [of zs True "(?start @ commas (map det_object ds)) @ ''],\"zones\":[''"]
      unfolding json by (auto simp: quoted_def)
  next
    case False
    then obtain e where "dets_json_loop ds True ?start = Inl e"
      using dets_json_loop_spec [of ds True ?start] by (auto simp only: if_False)
    with False show ?thesis unfolding json by simp
  qed
qed

subsection \<open>A concrete session\<close>

definition view_frame :: "unit frame" where
  "view_frame = \<lparr>fr_camera_id = ''dock'', fr_sequence = 1, fr_captured_at = 0, fr_image = ()\<rparr>"

definition view_encode :: "int \<Rightarrow> unit \<Rightarrow> string option" where
  "view_encode q m = Some ''jpeg''"

definition view_server :: mjpeg_server where
  "view_server = snd (mjpeg_start (\<lambda>_ _. Inr ()) (mjpeg_new default_viewer_config))"

definition view_fed :: mjpeg_server where
  "view_fed = mjpeg_publish (\<lambda>_. False) view_encode view_frame view_server"

lemmas demo_viewer_defs = view_frame_def view_encode_def view_server_def view_fed_def mjpeg_start_def
  mjpeg_new_def mjpeg_publish_def store_def shared_state_new_def

lemma view_server_reachable:
  "viewer_reachable default_viewer_config ''dock'' (\<lambda>_. False) view_encode
     (view_server, http_session_new ''dock'', 0)"
  unfolding view_server_def by (rule viewer_reachable.init)

lemma view_fed_reachable:
  "viewer_reachable default_viewer_config ''dock'' (\<lambda>_. False) view_encode
     (view_fed, http_session_new ''dock'', 0)"
  unfolding view_fed_def by (rule viewer_reachable.frame [OF view_server_reachable])

theorem viewer_sends_latest_once_witness:
  "snd (mjpeg_tick (ms_state view_fed) (http_session_new ''dock'')) = Some (mjpeg_chunk ''jpeg'')"
  using viewer_sends_latest_once [OF view_server_reachable, of view_frame "''jpeg''"]
  by (simp add: Let_def view_fed_def) (simp add: demo_viewer_defs)

theorem cameras_listed_once_witness:
  "cameras_json (ms_state view_fed) = ''[\"dock\"]'' \<and>
   (\<exists>cs. distinct cs \<and> set cs = {''dock''} \<and> cameras_json (ms_state view_fed) = ''['' @ commas (map quoted cs) @ '']'')"
proof -
  have "cameras_json (ms_state view_fed) = ''[\"dock\"]''" "dom (sh_latest (ms_state view_fed)) = {''dock''}"
    by (simp_all add: demo_viewer_defs cameras_json_def)
  with cameras_listed_once [OF view_fed_reachable, of view_frame] show ?thesis by auto
qed

definition view_detection :: detection where
  "view_detection =
     \<lparr>det_box = pixel_box 1 2 3 4, det_cls = kPerson, det_confidence = f32_lit 9 10, det_track_id = -1\<rparr>"

lemma view_json:
  "detections_json ''dock'' [view_detection] [] 640 480 =
     Inr ''{\"camera\":\"dock\",\"frame_w\":640,\"frame_h\":480,\"detections\":[{\"class\":\"person\",\"x\":1,\"y\":2,\"w\":3,\"h\":4,\"conf\":0.90}],\"zones\":[]}''"
  by code_simp

theorem sse_sends_detections_once_witness:
  "\<exists>s' json. mjpeg_publish_detections ''dock'' [view_detection] [] 640 480 view_fed = Inr s' \<and>
     detections_json ''dock'' [view_detection] [] 640 480 = Inr json \<and>
     snd (sse_tick [] (ms_state s') (http_session_new ''dock'')) = Some (sse_chunk json)"
proof -
  have run: "ms_running view_fed" by (simp add: demo_viewer_defs)
  with view_json obtain s' where s': "mjpeg_publish_detections ''dock'' [view_detection] [] 640 480 view_fed = Inr s'"
    by (simp add: mjpeg_publish_detections_def)
  from sse_sends_detections_once [OF view_fed_reachable _ run s', of "[]"] s' show ?thesis by auto
qed

theorem query_param_roundtrip_witness:
  "query_param ''/stream?fps=5&camera=dock'' ''camera'' = ''dock'' \<and>
   path_only ''/stream?fps=5&camera=dock'' = ''/stream''"
  using query_param_roundtrip [of "''/stream''" "[(''fps'', ''5''), (''camera'', ''dock'')]" "''camera''"]
  by (simp add: plain_field_def)

theorem route_confined_witness:
  "route ''web'' (\<lambda>f. if f = ''web/app.js'' then Some ''x'' else None) shared_state_new ''/app.js'' =
     route ''web'' (\<lambda>f. if f = ''web/app.js'' then Some ''x'' else if f = ''secret'' then Some ''y'' else None)
       shared_state_new ''/app.js'' \<and>
   route ''web'' (\<lambda>f. None) shared_state_new ''?x'' = Inl (Exception ''std::out_of_range'')"
proof
  show "route ''web'' (\<lambda>f. if f = ''web/app.js'' then Some ''x'' else None) shared_state_new ''/app.js'' =
     route ''web'' (\<lambda>f. if f = ''web/app.js'' then Some ''x'' else if f = ''secret'' then Some ''y'' else None)
       shared_state_new ''/app.js''"
    by (rule route_confined [THEN conjunct1]) simp
  show "route ''web'' (\<lambda>f. None) shared_state_new ''?x'' = Inl (Exception ''std::out_of_range'')"
    by (subst route_confined [THEN conjunct2, THEN conjunct1]) (simp_all add: path_only_def)
qed

end
