(* ===== verification/Http_Session.thy ===== *)
theory Http_Session
  imports Mjpeg_Server
begin

text \<open>
  The life of a connection of the viewer (\<^verbatim>\<open>HttpSession\<close> in
  \<^verbatim>\<open>src/infrastructure/transport/MjpegStreamServer.cpp\<close>): one asynchronous operation after the
  other, each started by the handler of the one before.  An operation that has been started and
  not handled is pending; a write of a stream reads the buffer \<open>out_\<close> until it is handled, so the
  bytes on the wire are what the buffer holds then.
\<close>

subsection \<open>Operations and their handlers\<close>

datatype stream_kind = Mjpeg_Stream | Sse_Stream

text \<open>A stream write is kept with the text that was in the buffer when it was started.\<close>

datatype http_op =
    Read_Request
  | Write_Response reply
  | Write_Header stream_kind string
  | Write_Chunk stream_kind string
  | Wait_Timer stream_kind int

record http_conn =
  hc_cfg :: viewer_config
  hc_session :: http_session
  hc_out :: string
  hc_deadline :: "int option"
  hc_pending :: "http_op list"
  hc_sent :: "string list"
  hc_shutdown :: bool

definition http_conn_new :: "viewer_config \<Rightarrow> http_session \<Rightarrow> http_conn" where
  "http_conn_new cfg hs =
     \<lparr>hc_cfg = cfg, hc_session = hs, hc_out = [], hc_deadline = None, hc_pending = [], hc_sent = [],
      hc_shutdown = False\<rparr>"

definition begin_op :: "http_op \<Rightarrow> http_conn \<Rightarrow> http_conn" where
  "begin_op op c = c\<lparr>hc_pending := hc_pending c @ [op]\<rparr>"

definition do_read :: "http_conn \<Rightarrow> http_conn" where
  "do_read c = begin_op Read_Request (c\<lparr>hc_deadline := Some 30\<rparr>)"

definition http_run :: "http_conn \<Rightarrow> http_conn" where
  "http_run c = do_read c"

definition start_mjpeg :: "http_conn \<Rightarrow> http_conn" where
  "start_mjpeg c =
     begin_op (Write_Header Mjpeg_Stream mjpeg_header) (c\<lparr>hc_deadline := None, hc_out := mjpeg_header\<rparr>)"

definition start_sse :: "http_conn \<Rightarrow> http_conn" where
  "start_sse c =
     begin_op (Write_Header Sse_Stream sse_header) (c\<lparr>hc_deadline := None, hc_out := sse_header\<rparr>)"

definition mjpeg_arm_timer :: "http_conn \<Rightarrow> http_conn" where
  "mjpeg_arm_timer c = begin_op (Wait_Timer Mjpeg_Stream (mjpeg_delay_ms (hc_cfg c))) c"

definition sse_arm_timer :: "http_conn \<Rightarrow> http_conn" where
  "sse_arm_timer c = begin_op (Wait_Timer Sse_Stream (sse_delay_ms (hc_cfg c))) c"

text \<open>\<open>mjpeg_tick\<close> and \<open>sse_tick\<close> decide what is sent; here it is sent, or the timer armed.\<close>

definition mjpeg_turn :: "shared_state \<Rightarrow> http_conn \<Rightarrow> http_conn" where
  "mjpeg_turn st c =
     (case mjpeg_tick st (hc_session c) of
        (hs, Some text) \<Rightarrow> begin_op (Write_Chunk Mjpeg_Stream text) (c\<lparr>hc_session := hs, hc_out := text\<rparr>)
      | (hs, None) \<Rightarrow> mjpeg_arm_timer (c\<lparr>hc_session := hs\<rparr>))"

definition sse_turn :: "string list \<Rightarrow> shared_state \<Rightarrow> http_conn \<Rightarrow> http_conn" where
  "sse_turn order st c =
     (case sse_tick order st (hc_session c) of
        (hs, Some text) \<Rightarrow> begin_op (Write_Chunk Sse_Stream text) (c\<lparr>hc_session := hs, hc_out := text\<rparr>)
      | (hs, None) \<Rightarrow> sse_arm_timer (c\<lparr>hc_session := hs\<rparr>))"

definition route_request ::
  "(string \<Rightarrow> string option) \<Rightarrow> shared_state \<Rightarrow> string \<Rightarrow> http_conn \<Rightarrow> http_conn run"
where
  "route_request files st target c =
     (case route (vw_web_root (hc_cfg c)) files st target of
        Inl e \<Rightarrow> Inl e
      | Inr (Start_Mjpeg cam) \<Rightarrow> Inr (start_mjpeg (c\<lparr>hc_session := (hc_session c)\<lparr>hs_camera := cam\<rparr>\<rparr>))
      | Inr (Start_Sse cam) \<Rightarrow> Inr (start_sse (c\<lparr>hc_session := (hc_session c)\<lparr>hs_camera := cam\<rparr>\<rparr>))
      | Inr (Response status hdrs body) \<Rightarrow>
          Inr (begin_op (Write_Response (Response status hdrs body)) c))"

definition turn :: "stream_kind \<Rightarrow> string list \<Rightarrow> shared_state \<Rightarrow> http_conn \<Rightarrow> http_conn" where
  "turn k order st c = (case k of Mjpeg_Stream \<Rightarrow> mjpeg_turn st c | Sse_Stream \<Rightarrow> sse_turn order st c)"

definition arm_timer :: "stream_kind \<Rightarrow> http_conn \<Rightarrow> http_conn" where
  "arm_timer k c = (case k of Mjpeg_Stream \<Rightarrow> mjpeg_arm_timer c | Sse_Stream \<Rightarrow> sse_arm_timer c)"

text \<open>
  The handlers, with the error code of the operation.  A failed operation starts no other, so that the
  session, which its handlers own, is destroyed; a response is followed by the shutdown of the sending
  side whatever its code.
\<close>

definition read_done ::
  "(string \<Rightarrow> string option) \<Rightarrow> shared_state \<Rightarrow> bool \<Rightarrow> string \<Rightarrow> http_conn \<Rightarrow> http_conn run"
where
  "read_done files st ec target c = (if ec then Inr c else route_request files st target c)"

definition response_done :: "bool \<Rightarrow> http_conn \<Rightarrow> http_conn" where
  "response_done ec c = c\<lparr>hc_shutdown := True\<rparr>"

definition header_done :: "stream_kind \<Rightarrow> string list \<Rightarrow> shared_state \<Rightarrow> bool \<Rightarrow> http_conn \<Rightarrow> http_conn" where
  "header_done k order st ec c =
     (if ec then c else turn k order st (c\<lparr>hc_sent := hc_sent c @ [hc_out c]\<rparr>))"

definition chunk_done :: "stream_kind \<Rightarrow> bool \<Rightarrow> http_conn \<Rightarrow> http_conn" where
  "chunk_done k ec c = (if ec then c else arm_timer k (c\<lparr>hc_sent := hc_sent c @ [hc_out c]\<rparr>))"

definition timer_done :: "stream_kind \<Rightarrow> string list \<Rightarrow> shared_state \<Rightarrow> bool \<Rightarrow> http_conn \<Rightarrow> http_conn" where
  "timer_done k order st ec c = (if ec then c else turn k order st c)"

text \<open>
  The I/O thread runs the handler of a completed operation, with what a read has read, the files, the
  order in which the detections are iterated and the store at that time.
\<close>

fun handler ::
  "(string \<Rightarrow> string option) \<Rightarrow> string list \<Rightarrow> shared_state \<Rightarrow> bool \<Rightarrow> string \<Rightarrow> http_op \<Rightarrow> http_conn \<Rightarrow>
   http_conn run"
where
  "handler files order st ec target Read_Request c = read_done files st ec target c"
| "handler files order st ec target (Write_Response r) c = Inr (response_done ec c)"
| "handler files order st ec target (Write_Header k t) c = Inr (header_done k order st ec c)"
| "handler files order st ec target (Write_Chunk k t) c = Inr (chunk_done k ec c)"
| "handler files order st ec target (Wait_Timer k ms) c = Inr (timer_done k order st ec c)"

definition complete ::
  "(string \<Rightarrow> string option) \<Rightarrow> string list \<Rightarrow> shared_state \<Rightarrow> bool \<Rightarrow> string \<Rightarrow> nat \<Rightarrow> http_conn \<Rightarrow>
   http_conn run"
where
  "complete files order st ec target i c =
     handler files order st ec target (hc_pending c ! i)
       (c\<lparr>hc_pending := take i (hc_pending c) @ drop (Suc i) (hc_pending c)\<rparr>)"

text \<open>
  One connection beside the publishers, from the accept on: any pending operation may complete next,
  with any result.  The counter is the number of detection updates.
\<close>

inductive http_reachable ::
  "viewer_config \<Rightarrow> ('m \<Rightarrow> bool) \<Rightarrow> (int \<Rightarrow> 'm \<Rightarrow> string option) \<Rightarrow>
   mjpeg_server \<times> http_conn option \<times> nat \<Rightarrow> bool"
  for cfg mat_empty encode
where
  init: "http_reachable cfg mat_empty encode (snd (mjpeg_start (\<lambda>_ _. Inr ()) (mjpeg_new cfg)), None, 0)"
| accept: "http_reachable cfg mat_empty encode (s, None, n) \<Longrightarrow> mjpeg_accept ec s = (Some hs, again) \<Longrightarrow>
    http_reachable cfg mat_empty encode (s, Some (http_run (http_conn_new (ms_cfg s) hs)), n)"
| handle: "http_reachable cfg mat_empty encode (s, Some c, n) \<Longrightarrow> i < length (hc_pending c) \<Longrightarrow>
    complete files order (ms_state s) ec target i c = Inr c' \<Longrightarrow>
    http_reachable cfg mat_empty encode (s, Some c', n)"
| frame: "http_reachable cfg mat_empty encode (s, c, n) \<Longrightarrow>
    http_reachable cfg mat_empty encode (mjpeg_publish mat_empty encode f s, c, n)"
| detections: "http_reachable cfg mat_empty encode (s, c, n) \<Longrightarrow> ms_running s \<Longrightarrow>
    mjpeg_publish_detections cam ds zs w h s = Inr s' \<Longrightarrow>
    http_reachable cfg mat_empty encode (s', c, Suc n)"
| stop: "http_reachable cfg mat_empty encode (s, c, n) \<Longrightarrow>
    http_reachable cfg mat_empty encode (mjpeg_stop s, c, n)"

lemmas done_defs = read_done_def response_done_def header_done_def chunk_done_def timer_done_def

lemmas handler_defs = done_defs complete_def route_request_def turn_def arm_timer_def mjpeg_turn_def sse_turn_def
  mjpeg_arm_timer_def sse_arm_timer_def start_mjpeg_def start_sse_def begin_op_def

subsection \<open>One operation at a time\<close>

definition stream_header :: "stream_kind \<Rightarrow> string" where
  "stream_header k = (case k of Mjpeg_Stream \<Rightarrow> mjpeg_header | Sse_Stream \<Rightarrow> sse_header)"

definition stream_chunk :: "stream_kind \<Rightarrow> string \<Rightarrow> bool" where
  "stream_chunk k t =
     (case k of Mjpeg_Stream \<Rightarrow> (\<exists>j. t = mjpeg_chunk j)
      | Sse_Stream \<Rightarrow> (\<exists>js. js \<noteq> [] \<and> t = concat (map sse_chunk js)))"

text \<open>What a stream has sent: its header, then chunks.\<close>

fun stream_text :: "stream_kind \<Rightarrow> string list \<Rightarrow> bool" where
  "stream_text k [] = True"
| "stream_text k (t # ts) = (t = stream_header k \<and> list_all (stream_chunk k) ts)"

lemma stream_text_chunk: "stream_text k ts \<Longrightarrow> ts \<noteq> [] \<Longrightarrow> stream_chunk k t \<Longrightarrow> stream_text k (ts @ [t])"
  by (cases ts) simp_all

text \<open>What holds of a pending operation: the buffer still holds the text that is being written.\<close>

fun op_inv :: "stream_kind \<Rightarrow> http_conn \<Rightarrow> http_op \<Rightarrow> bool" where
  "op_inv k c Read_Request = (hc_sent c = [] \<and> hc_session c = http_session_new [] \<and> hc_deadline c = Some 30)"
| "op_inv k c (Write_Response r) = (hc_sent c = [] \<and> \<not> hc_shutdown c)"
| "op_inv k c (Write_Header k' t) =
     (k' = k \<and> hc_out c = t \<and> t = stream_header k \<and> hc_sent c = [] \<and> hc_deadline c = None)"
| "op_inv k c (Write_Chunk k' t) =
     (k' = k \<and> hc_out c = t \<and> stream_chunk k t \<and> hc_sent c \<noteq> [] \<and> hc_deadline c = None)"
| "op_inv k c (Wait_Timer k' ms) =
     (k' = k \<and> hc_sent c \<noteq> [] \<and> hc_deadline c = None \<and>
      ms = (case k of Mjpeg_Stream \<Rightarrow> 1000 | Sse_Stream \<Rightarrow> 500) div effective_fps (hc_cfg c))"

definition http_inv :: "http_conn \<Rightarrow> bool" where
  "http_inv c = (\<exists>k. stream_text k (hc_sent c) \<and> length (hc_pending c) \<le> 1 \<and>
     list_all (op_inv k c) (hc_pending c) \<and> (hc_shutdown c \<longrightarrow> hc_pending c = []))"

lemma mjpeg_tick_chunk: "mjpeg_tick st hs = (hs', Some t) \<Longrightarrow> stream_chunk Mjpeg_Stream t"
  by (auto simp: mjpeg_tick_def stream_chunk_def split: option.splits if_splits)

lemma dets_all_loop_chunks: "\<exists>js. dets_all_loop m order out = out @ concat (map sse_chunk js)"
proof (induction m order out rule: dets_all_loop.induct)
  case (1 m out)
  show ?case by (intro exI [of _ "[]"]) simp
next
  case (2 m cam cams out)
  show ?case
  proof (cases "m cam")
    case (Some e)
    show ?thesis
    proof (cases "de_json e = []")
      case False
      from 2(3) [OF Some False] obtain js where
        "dets_all_loop m cams (out @ sse_chunk (de_json e)) = (out @ sse_chunk (de_json e)) @ concat (map sse_chunk js)"
        by blast
      with Some False show ?thesis by (intro exI [of _ "de_json e # js"]) simp
    qed (use 2(2) Some in auto)
  qed (use 2(1) in auto)
qed

lemma sse_tick_chunk: "sse_tick order st hs = (hs', Some t) \<Longrightarrow> stream_chunk Sse_Stream t"
proof -
  assume tick: "sse_tick order st hs = (hs', Some t)"
  show ?thesis
  proof (cases "hs_camera hs = []")
    case True
    with tick have t: "t = dets_all_loop (sh_latest_dets st) order []" "t \<noteq> []"
      by (auto simp: sse_tick_def latest_dets_all_def split: if_splits)
    from dets_all_loop_chunks [of "sh_latest_dets st" order "[]"] obtain js where
      "t = concat (map sse_chunk js)" using t(1) by auto
    moreover from this t(2) have "js \<noteq> []" by auto
    ultimately show ?thesis unfolding stream_chunk_def by auto
  next
    case False
    with tick obtain json where "t = sse_chunk json"
      by (auto simp: sse_tick_def split: prod.splits if_splits)
    then show ?thesis unfolding stream_chunk_def by (auto intro: exI [of _ "[json]"])
  qed
qed

lemma turn_inv:
  assumes "stream_text k (hc_sent c)" "hc_sent c \<noteq> []" "hc_pending c = []" "hc_deadline c = None" "\<not> hc_shutdown c"
  shows "http_inv (turn k order st c)"
proof (cases k)
  case Mjpeg_Stream
  obtain hs t where tick: "mjpeg_tick st (hc_session c) = (hs, t)" by (rule prod.exhaust)
  with assms show ?thesis unfolding http_inv_def
    by (intro exI [of _ k])
      (auto simp: handler_defs Mjpeg_Stream mjpeg_delay_ms_def split: option.splits dest: mjpeg_tick_chunk)
next
  case Sse_Stream
  obtain hs t where tick: "sse_tick order st (hc_session c) = (hs, t)" by (rule prod.exhaust)
  with assms show ?thesis unfolding http_inv_def
    by (intro exI [of _ k])
      (auto simp: handler_defs Sse_Stream sse_delay_ms_def split: option.splits dest: sse_tick_chunk)
qed

lemma arm_timer_inv:
  assumes "stream_text k (hc_sent c)" "hc_sent c \<noteq> []" "hc_pending c = []" "hc_deadline c = None" "\<not> hc_shutdown c"
  shows "http_inv (arm_timer k c)"
  using assms unfolding http_inv_def
  by (intro exI [of _ k]) (cases k; simp add: handler_defs mjpeg_delay_ms_def sse_delay_ms_def)

lemma route_request_inv:
  assumes "route_request files st target c = Inr c'" "hc_sent c = []" "hc_pending c = []" "\<not> hc_shutdown c"
  shows "http_inv c'"
  using assms unfolding http_inv_def
  by (auto simp: handler_defs stream_header_def split: sum.splits reply.splits
      intro: exI [of _ Mjpeg_Stream] exI [of _ Sse_Stream])

lemma handler_inv:
  assumes "http_inv c" "hc_pending c = [op]"
    and "handler files order st ec target op (c\<lparr>hc_pending := []\<rparr>) = Inr c'"
  shows "http_inv c'"
proof -
  let ?c = "c\<lparr>hc_pending := []\<rparr>"
  obtain k where inv: "stream_text k (hc_sent c)" "op_inv k c op" "\<not> hc_shutdown c"
    using assms(1,2) by (auto simp: http_inv_def)
  then have idle: "http_inv ?c" by (auto simp: http_inv_def)
  show ?thesis
  proof (cases "ec \<or> (\<exists>r. op = Write_Response r)")
    case True
    with assms(3) idle inv show ?thesis by (cases op) (auto simp: http_inv_def done_defs)
  next
    case False
    then show ?thesis
    proof (cases op)
      case Read_Request
      with False assms(3) inv show ?thesis by (auto simp: done_defs intro: route_request_inv)
    next
      case (Write_Header k' t)
      with False assms(3) inv show ?thesis by (auto simp: done_defs intro!: turn_inv)
    next
      case (Write_Chunk k' t)
      with False assms(3) inv show ?thesis by (auto simp: done_defs intro!: arm_timer_inv stream_text_chunk)
    next
      case (Wait_Timer k' ms)
      with False assms(3) inv show ?thesis by (auto simp: done_defs intro!: turn_inv)
    qed auto
  qed
qed

lemma complete_single:
  assumes "length (hc_pending c) \<le> 1" "i < length (hc_pending c)"
  obtains op where "hc_pending c = [op]"
    "complete files order st ec target i c = handler files order st ec target op (c\<lparr>hc_pending := []\<rparr>)"
proof -
  from assms obtain op where op: "hc_pending c = [op]" "i = 0"
    by (cases "hc_pending c") auto
  then show ?thesis by (intro that [of op]) (simp_all add: complete_def)
qed

lemma mjpeg_accept_session: "mjpeg_accept ec s = (Some hs, again) \<Longrightarrow> hs = http_session_new []"
  by (auto simp: mjpeg_accept_def split: if_splits)

lemma http_inv_reachable: "http_reachable cfg mat_empty encode h \<Longrightarrow> (\<forall>c. fst (snd h) = Some c \<longrightarrow> http_inv c)"
proof (induction rule: http_reachable.induct)
  case (accept s n ec hs again)
  from mjpeg_accept_session [OF accept(2)] show ?case
    by (auto simp: http_inv_def http_run_def do_read_def begin_op_def http_conn_new_def intro: exI [of _ Mjpeg_Stream])
next
  case (handle s c n i files order ec target c')
  then have c: "http_inv c" by simp
  then have "length (hc_pending c) \<le> 1" by (auto simp: http_inv_def)
  from complete_single [OF this handle(2)] obtain op where "hc_pending c = [op]"
    "complete files order (ms_state s) ec target i c = handler files order (ms_state s) ec target op (c\<lparr>hc_pending := []\<rparr>)"
    by metis
  with handler_inv [OF c] handle(3) show ?case by simp
qed simp_all

text \<open>The connection is a session of the viewer's contract: it simulates \<open>viewer_reachable\<close>.\<close>

definition session_of_viewer ::
  "viewer_config \<Rightarrow> ('m \<Rightarrow> bool) \<Rightarrow> (int \<Rightarrow> 'm \<Rightarrow> string option) \<Rightarrow> mjpeg_server \<times> http_conn option \<times> nat \<Rightarrow> bool"
where
  "session_of_viewer cfg mat_empty encode h = (case h of (s, c, n) \<Rightarrow>
     (\<forall>cam. viewer_reachable cfg cam mat_empty encode (s, http_session_new cam, n)) \<and>
     (\<forall>c'. c = Some c' \<longrightarrow> (\<exists>cam. viewer_reachable cfg cam mat_empty encode (s, hc_session c', n))))"

text \<open>A handler leaves the session, routes it when it is new, or lets it tick.\<close>

lemma handler_session:
  assumes "http_inv c" "hc_pending c = [op]"
    and "handler files order st ec target op (c\<lparr>hc_pending := []\<rparr>) = Inr c'"
  shows "hc_session c' = hc_session c \<or>
    hc_session c = http_session_new [] \<and> (\<exists>cam. hc_session c' = http_session_new cam) \<or>
    hc_session c' = fst (mjpeg_tick st (hc_session c)) \<or> hc_session c' = fst (sse_tick order st (hc_session c))"
proof (cases op)
  case Read_Request
  then have "hc_session c = http_session_new []" using assms(1,2) by (auto simp: http_inv_def)
  with Read_Request assms(3) show ?thesis
    by (auto simp: handler_defs http_session_new_def split: sum.splits reply.splits if_splits)
qed (use assms(3) in \<open>auto simp: handler_defs split: prod.splits option.splits stream_kind.splits if_splits\<close>)

lemma session_of_viewer_reachable:
  "http_reachable cfg mat_empty encode h \<Longrightarrow> session_of_viewer cfg mat_empty encode h"
proof (induction rule: http_reachable.induct)
  case init
  show ?case by (auto simp: session_of_viewer_def intro: viewer_reachable.init)
next
  case (accept s n ec hs again)
  from mjpeg_accept_session [OF accept(2)] accept(3) show ?case
    by (auto simp: session_of_viewer_def http_run_def do_read_def begin_op_def http_conn_new_def)
next
  case (handle s c n i files order ec target c')
  have c: "http_inv c" using http_inv_reachable [OF handle(1)] by simp
  then have "length (hc_pending c) \<le> 1" by (auto simp: http_inv_def)
  from complete_single [OF this handle(2)] obtain op where "hc_pending c = [op]"
    "handler files order (ms_state s) ec target op (c\<lparr>hc_pending := []\<rparr>) = Inr c'"
    using handle(3) by metis
  from handler_session [OF c this] handle(4) show ?case
    by (auto simp: session_of_viewer_def) (blast intro: viewer_reachable.mjpeg viewer_reachable.sse)+
next
  case (frame s c n f)
  then show ?case by (simp add: session_of_viewer_def) (blast intro: viewer_reachable.frame)
next
  case (detections s c n cam ds zs w h s')
  then show ?case by (simp add: session_of_viewer_def) (blast intro: viewer_reachable.detections)
next
  case (stop s c n)
  then show ?case by (simp add: session_of_viewer_def) (blast intro: viewer_reachable.stop)
qed

subsection \<open>What a client receives\<close>

text \<open>
  C25: One operation at a time: in every state a connection has at most one operation pending, so that no handler
  can find the buffer in use: a text that is being written is still what the buffer holds.  What has
  been sent on a stream is its header followed by complete chunks, the operations of a stream never
  time out, and its timer runs for the polling interval.
\<close>

theorem http_one_operation:
  assumes "http_reachable cfg mat_empty encode (s, Some c, n)"
  shows "\<exists>k. stream_text k (hc_sent c) \<and> length (hc_pending c) \<le> 1 \<and> list_all (op_inv k c) (hc_pending c)"
  using http_inv_reachable [OF assms] by (auto simp: http_inv_def)

text \<open>The operations of a stream, and what its next tick sends.\<close>

fun op_stream :: "http_op \<Rightarrow> stream_kind option" where
  "op_stream (Write_Header k t) = Some k"
| "op_stream (Write_Chunk k t) = Some k"
| "op_stream (Wait_Timer k ms) = Some k"
| "op_stream _ = None"

definition tick_text :: "stream_kind \<Rightarrow> string list \<Rightarrow> shared_state \<Rightarrow> http_session \<Rightarrow> string option" where
  "tick_text k order st hs =
     (case k of Mjpeg_Stream \<Rightarrow> snd (mjpeg_tick st hs) | Sse_Stream \<Rightarrow> snd (sse_tick order st hs))"

text \<open>The next \<open>m\<close> operations complete without an error, the store being \<open>st\<close>.\<close>

primrec advance ::
  "(string \<Rightarrow> string option) \<Rightarrow> string list \<Rightarrow> shared_state \<Rightarrow> nat \<Rightarrow> http_conn \<Rightarrow> http_conn run"
where
  "advance files order st 0 c = Inr c"
| "advance files order st (Suc m) c =
     (case complete files order st False [] 0 c of Inl e \<Rightarrow> Inl e | Inr c' \<Rightarrow> advance files order st m c')"

text \<open>After at most three operations the text of the next tick is sent.\<close>

lemma advance_sends_tick:
  assumes "http_inv c" "hc_pending c = [op]" "op_stream op = Some k" "tick_text k order st (hc_session c) = Some t"
  shows "\<exists>m c' old. m \<le> 3 \<and> advance files order st m c = Inr c' \<and> hc_sent c' = hc_sent c @ old @ [t] \<and>
    length (hc_pending c') = 1"
proof -
  have turn: "\<exists>c'. complete files order st False [] 0 (turn k order st d) = Inr c' \<and> hc_sent c' = hc_sent d @ [t] \<and>
      length (hc_pending c') = 1" if "hc_session d = hc_session c" "hc_pending d = []" for d
    using assms(4) that by (cases k) (auto simp: tick_text_def handler_defs split: prod.splits)
  have step: "advance files order st (Suc m) d = advance files order st m d'"
    if "complete files order st False [] 0 d = Inr d'" for m d d'
    using that by simp
  show ?thesis
  proof (cases op)
    case (Write_Header k' w)
    let ?d = "c\<lparr>hc_pending := [], hc_sent := hc_sent c @ [hc_out c]\<rparr>"
    have "complete files order st False [] 0 c = Inr (turn k order st ?d)"
      using Write_Header assms(2,3) by (simp add: complete_def done_defs)
    with turn [of ?d] show ?thesis
      by (intro exI [of _ 2]) (auto simp: numeral_2_eq_2)
  next
    case (Write_Chunk k' w)
    let ?d = "c\<lparr>hc_pending := [], hc_sent := hc_sent c @ [hc_out c]\<rparr>"
    have "complete files order st False [] 0 c = Inr (arm_timer k ?d)"
      "complete files order st False [] 0 (arm_timer k ?d) = Inr (turn k order st ?d)"
      using Write_Chunk assms(2,3) by (cases k; simp add: handler_defs)+
    with turn [of ?d] show ?thesis
      by (intro exI [of _ 3]) (auto simp: numeral_3_eq_3)
  next
    case (Wait_Timer k' ms)
    let ?d = "c\<lparr>hc_pending := []\<rparr>"
    have "complete files order st False [] 0 c = Inr (turn k order st ?d)"
      using Wait_Timer assms(2,3) by (simp add: complete_def done_defs)
    with turn [of ?d] show ?thesis
      by (intro exI [of _ 2]) (auto simp: numeral_2_eq_2)
  qed (use assms(3) in auto)
qed

text \<open>
  A published frame reaches the browser: in every state of an MJPEG connection for a camera,
  after a frame of the camera has been encoded and published, at most three more operations of the connection
  send exactly this frame as the last part, if none fails and no newer frame comes.
\<close>

theorem frame_reaches_client:
  assumes "http_reachable cfg mat_empty encode (s, Some c, n)" "hc_pending c = [op]" "op_stream op = Some Mjpeg_Stream"
    and "hs_camera (hc_session c) = fr_camera_id f" "fr_camera_id f \<noteq> []" "ms_running s" "\<not> mat_empty (fr_image f)"
    and "encode (if 0 < vw_jpeg_quality (ms_cfg s) then vw_jpeg_quality (ms_cfg s) else 75) (fr_image f) = Some j"
  shows "\<exists>m c' old. m \<le> 3 \<and> advance files order (ms_state (mjpeg_publish mat_empty encode f s)) m c = Inr c' \<and>
    hc_sent c' = hc_sent c @ old @ [mjpeg_chunk j] \<and> length (hc_pending c') = 1"
proof -
  obtain cam where "viewer_reachable cfg cam mat_empty encode (s, hc_session c, n)"
    using session_of_viewer_reachable [OF assms(1)] by (auto simp: session_of_viewer_def)
  then have "snd (mjpeg_tick (ms_state (mjpeg_publish mat_empty encode f s)) (hc_session c)) = Some (mjpeg_chunk j)"
    using assms(4-8) by (simp add: mjpeg_tick_published)
  then have "tick_text Mjpeg_Stream order (ms_state (mjpeg_publish mat_empty encode f s)) (hc_session c) =
      Some (mjpeg_chunk j)" by (simp add: tick_text_def)
  moreover have "http_inv c" using http_inv_reachable [OF assms(1)] by simp
  ultimately show ?thesis by (intro advance_sends_tick [OF _ assms(2,3)])
qed

text \<open>
  C24: Published detections reach the browser: in every state of an SSE connection for a camera, or for
  all cameras, after detections have been published at most three more operations of the connection
  send the JSON built for them, if none fails, for fewer than \<open>2 ^ 64\<close> updates.
\<close>

theorem detections_reach_client:
  assumes "http_reachable cfg mat_empty encode (s, Some c, n)" "hc_pending c = [op]" "op_stream op = Some Sse_Stream"
    and "Suc n < 2 ^ 64" "ms_running s" "mjpeg_publish_detections cam ds zs w h s = Inr s'"
    and "if hs_camera (hc_session c) = [] then cam \<in> set order else cam = hs_camera (hc_session c)"
  shows "\<exists>m c' old json pre post. m \<le> 3 \<and> advance files order (ms_state s') m c = Inr c' \<and>
    detections_json cam ds zs w h = Inr json \<and> hc_sent c' = hc_sent c @ old @ [pre @ sse_chunk json @ post]"
proof -
  obtain cam' where viewer: "viewer_reachable cfg cam' mat_empty encode (s, hc_session c, n)"
    using session_of_viewer_reachable [OF assms(1)] by (auto simp: session_of_viewer_def)
  then have "hs_camera (hc_session c) = cam'"
    using viewer_inv_reachable by (fastforce simp: viewer_inv_def Let_def)
  with sse_tick_published [OF viewer assms(4-6)] assms(7) obtain json pre post where
    json: "detections_json cam ds zs w h = Inr json"
    "snd (sse_tick order (ms_state s') (hc_session c)) = Some (pre @ sse_chunk json @ post)" by blast
  then have "tick_text Sse_Stream order (ms_state s') (hc_session c) = Some (pre @ sse_chunk json @ post)"
    by (simp add: tick_text_def)
  moreover have "http_inv c" using http_inv_reachable [OF assms(1)] by simp
  ultimately obtain m c' old where "m \<le> 3" "advance files order (ms_state s') m c = Inr c'"
    "hc_sent c' = hc_sent c @ old @ [pre @ sse_chunk json @ post]"
    using advance_sends_tick [OF _ assms(2,3)] by blast
  with json(1) show ?thesis by blast
qed

subsection \<open>A concrete connection\<close>

text \<open>A browser that has asked for the frames of the camera \<open>dock\<close>, or for all detections.\<close>

definition web_conn :: "string \<Rightarrow> http_conn" where
  "web_conn target =
     (case complete (\<lambda>_. None) [] (ms_state view_server) False target 0
            (http_run (http_conn_new default_viewer_config (http_session_new []))) of
        Inl e \<Rightarrow> http_conn_new default_viewer_config (http_session_new []) | Inr c \<Rightarrow> c)"

lemma web_conn_reachable:
  assumes "path_only target \<noteq> []"
  shows "http_reachable default_viewer_config (\<lambda>_. False) view_encode (view_server, Some (web_conn target), 0)"
proof -
  let ?c = "http_run (http_conn_new default_viewer_config (http_session_new []))"
  have start: "http_reachable default_viewer_config (\<lambda>_. False) view_encode (view_server, None, 0)"
    unfolding view_server_def by (rule http_reachable.init)
  have "mjpeg_accept False view_server = (Some (http_session_new []), True)" "ms_cfg view_server = default_viewer_config"
    by (simp_all add: mjpeg_accept_def demo_viewer_defs)
  with http_reachable.accept [OF start, of False "http_session_new []" True]
  have c: "http_reachable default_viewer_config (\<lambda>_. False) view_encode (view_server, Some ?c, 0)" by simp
  have pending: "hc_pending ?c = [Read_Request]"
    by (simp add: http_run_def do_read_def begin_op_def http_conn_new_def)
  obtain r where "route ''web'' (\<lambda>_. None) (ms_state view_server) target = Inr r"
    using assms by (cases "route ''web'' (\<lambda>_. None) (ms_state view_server) target")
      (auto simp: route_def Let_def split: if_splits)
  then obtain c' where "complete (\<lambda>_. None) [] (ms_state view_server) False target 0 ?c = Inr c'"
    using pending by (cases r) (auto simp: complete_def read_done_def route_request_def http_run_def do_read_def begin_op_def
        http_conn_new_def default_viewer_config_def)
  moreover from this have "web_conn target = c'" by (simp add: web_conn_def)
  ultimately show ?thesis using http_reachable.handle [OF c] pending by simp
qed

lemma web_stream:
  "path_only ''/stream?camera=dock'' \<noteq> []"
  "hc_pending (web_conn ''/stream?camera=dock'') = [Write_Header Mjpeg_Stream mjpeg_header]"
  "hs_camera (hc_session (web_conn ''/stream?camera=dock'')) = ''dock''"
  "hc_sent (web_conn ''/stream?camera=dock'') = []"
  by code_simp+

lemma web_events:
  "path_only ''/detections'' \<noteq> []"
  "hc_pending (web_conn ''/detections'') = [Write_Header Sse_Stream sse_header]"
  "hs_camera (hc_session (web_conn ''/detections'')) = []"
  "hc_sent (web_conn ''/detections'') = []"
  by code_simp+

theorem http_one_operation_witness:
  "\<exists>k. op_inv k (web_conn ''/stream?camera=dock'') (Write_Header Mjpeg_Stream mjpeg_header)"
  using http_one_operation [OF web_conn_reachable [OF web_stream(1)]] by (simp add: web_stream)

theorem frame_reaches_client_witness:
  "\<exists>m c' old. m \<le> 3 \<and> advance (\<lambda>_. None) [] (ms_state view_fed) m (web_conn ''/stream?camera=dock'') = Inr c' \<and>
     hc_sent c' = old @ [mjpeg_chunk ''jpeg'']"
proof -
  have "ms_running view_server" "view_encode q () = Some ''jpeg''" "fr_camera_id view_frame = ''dock''" for q
    by (simp_all add: demo_viewer_defs)
  with frame_reaches_client [OF web_conn_reachable [OF web_stream(1)] web_stream(2), of view_frame "''jpeg''" "\<lambda>_. None" "[]"]
  show ?thesis by (simp add: web_stream view_fed_def) blast
qed

theorem detections_reach_client_witness:
  "\<exists>s'. mjpeg_publish_detections ''dock'' [view_detection] [] 640 480 view_server = Inr s' \<and>
     (\<exists>m c' old json pre post. m \<le> 3 \<and> advance (\<lambda>_. None) [''dock''] (ms_state s') m (web_conn ''/detections'') = Inr c' \<and>
     detections_json ''dock'' [view_detection] [] 640 480 = Inr json \<and>
     hc_sent c' = old @ [pre @ sse_chunk json @ post])"
proof -
  have run: "ms_running view_server" by (simp add: demo_viewer_defs)
  with view_json obtain s' where s': "mjpeg_publish_detections ''dock'' [view_detection] [] 640 480 view_server = Inr s'"
    by (simp add: mjpeg_publish_detections_def)
  have "\<exists>m c' old json pre post. m \<le> 3 \<and>
      advance (\<lambda>_. None) [''dock''] (ms_state s') m (web_conn ''/detections'') = Inr c' \<and>
      detections_json ''dock'' [view_detection] [] 640 480 = Inr json \<and>
      hc_sent c' = [] @ old @ [pre @ sse_chunk json @ post]"
    using detections_reach_client [OF web_conn_reachable [OF web_events(1)] web_events(2) _ _ run s',
        where files = "\<lambda>_. None" and order = "[''dock'']"]
    by (simp only: web_events) simp
  with s' show ?thesis by (simp only: append_Nil) blast
qed

end
