(* ===== verification/Logging.thy ===== *)
theory Logging
  imports Prelude
begin

text \<open>
  The logger (\<^verbatim>\<open>src/infrastructure/logging/Logger.cpp\<close>): the levels in their order, the threshold
  that the \<^verbatim>\<open>FSS_LOG\<close> macro compares with, and the line that is written.  The calendar text of the
  clock (\<^verbatim>\<open>std::put_time\<close>) is a parameter.
\<close>

subsection \<open>Levels\<close>

datatype level = kDebug | kInfo | kWarn | kError

fun level_value :: "level \<Rightarrow> nat" where
  "level_value kDebug = 0"
| "level_value kInfo = 1"
| "level_value kWarn = 2"
| "level_value kError = 3"

lemma level_value_inject: "level_value a = level_value b \<Longrightarrow> a = b"
  by (cases a; cases b) simp_all

instantiation level :: linorder
begin

definition less_eq_level :: "level \<Rightarrow> level \<Rightarrow> bool" where
  "less_eq_level a b = (level_value a \<le> level_value b)"

definition less_level :: "level \<Rightarrow> level \<Rightarrow> bool" where
  "less_level a b = (level_value a < level_value b)"

instance
  by standard (auto simp: less_eq_level_def less_level_def level_value_inject)

end

fun level_tag :: "level \<Rightarrow> string" where
  "level_tag kDebug = ''DEBUG''"
| "level_tag kInfo = ''INFO ''"
| "level_tag kWarn = ''WARN ''"
| "level_tag kError = ''ERROR''"

subsection \<open>State and operations\<close>

text \<open>The global level and what the two streams have received.\<close>

record log_state =
  lg_level :: level
  lg_out :: string
  lg_err :: string

definition log_init :: log_state where
  "log_init = \<lparr>lg_level = kInfo, lg_out = [], lg_err = []\<rparr>"

definition set_level :: "level \<Rightarrow> log_state \<Rightarrow> log_state" where
  "set_level lvl s = s\<lparr>lg_level := lvl\<rparr>"

definition get_level :: "log_state \<Rightarrow> level" where
  "get_level s = lg_level s"

text \<open>\<^verbatim>\<open>count() % 1000\<close> keeps the sign of the count; \<^verbatim>\<open>setw(3)\<close> pads on the left with zeros.\<close>

definition pad3 :: "string \<Rightarrow> string" where
  "pad3 s = replicate (3 - length s) (CHR ''0'') @ s"

definition log_line :: "(int \<Rightarrow> string) \<Rightarrow> int \<Rightarrow> level \<Rightarrow> string \<Rightarrow> int \<Rightarrow> string \<Rightarrow> string" where
  "log_line put_time now lvl file_name line message =
     put_time now @ ''.'' @ pad3 (dec_int (sgn (cast_ms now) * (\<bar>cast_ms now\<bar> mod 1000))) @ ''Z '' @
     ''['' @ level_tag lvl @ ''] '' @ file_name @ '':'' @ dec_int line @ ''  '' @ message @ [CHR 0x0A]"

definition log_write :: "(int \<Rightarrow> string) \<Rightarrow> int \<Rightarrow> level \<Rightarrow> string \<Rightarrow> int \<Rightarrow> string \<Rightarrow> log_state \<Rightarrow> log_state" where
  "log_write put_time now lvl file_name line message s =
     (let text = log_line put_time now lvl file_name line message
      in if kWarn \<le> lvl then s\<lparr>lg_err := lg_err s @ text\<rparr> else s\<lparr>lg_out := lg_out s @ text\<rparr>)"

definition fss_log :: "(int \<Rightarrow> string) \<Rightarrow> int \<Rightarrow> level \<Rightarrow> string \<Rightarrow> int \<Rightarrow> string \<Rightarrow> log_state \<Rightarrow> log_state" where
  "fss_log put_time now lvl file_name line message s =
     (if get_level s \<le> lvl then log_write put_time now lvl file_name line message s else s)"

subsection \<open>What is written where\<close>

text \<open>A call of the macro: the clock, the level, the place and the message.\<close>

type_synonym log_call = "int \<times> level \<times> string \<times> int \<times> string"

definition run_log :: "(int \<Rightarrow> string) \<Rightarrow> log_call list \<Rightarrow> log_state \<Rightarrow> log_state" where
  "run_log put_time calls s =
     fold (\<lambda>(now, lvl, file_name, line, message). fss_log put_time now lvl file_name line message) calls s"

definition call_line :: "(int \<Rightarrow> string) \<Rightarrow> log_call \<Rightarrow> string" where
  "call_line put_time c =
     (case c of (now, lvl, file_name, line, message) \<Rightarrow> log_line put_time now lvl file_name line message)"

definition call_level :: "log_call \<Rightarrow> level" where
  "call_level c = fst (snd c)"

lemma level_total: "a \<le> b \<or> b < a" for a b :: level
  by auto

text \<open>
  The log keeps every call at or above the threshold, and only those, in order, each as one
  line: warnings and errors on \<open>stderr\<close>, the rest on \<open>stdout\<close>; the threshold itself does not change.
\<close>

theorem log_streams:
  "lg_out (run_log put_time calls s) =
     lg_out s @ concat (map (call_line put_time)
       (filter (\<lambda>c. lg_level s \<le> call_level c \<and> call_level c < kWarn) calls)) \<and>
   lg_err (run_log put_time calls s) =
     lg_err s @ concat (map (call_line put_time)
       (filter (\<lambda>c. lg_level s \<le> call_level c \<and> kWarn \<le> call_level c) calls)) \<and>
   get_level (run_log put_time calls s) = get_level s"
proof (induction calls arbitrary: s)
  case (Cons c calls)
  obtain now lvl file_name line message where c: "c = (now, lvl, file_name, line, message)"
    by (cases c)
  let ?s = "fss_log put_time now lvl file_name line message s"
  have "run_log put_time (c # calls) s = run_log put_time calls ?s"
    by (simp add: c run_log_def)
  moreover have "lg_level ?s = lg_level s"
    by (simp add: fss_log_def log_write_def Let_def)
  ultimately show ?case using Cons [of ?s]
    by (auto simp: c call_level_def call_line_def fss_log_def log_write_def get_level_def Let_def not_le)
qed (simp add: run_log_def)

text \<open>The milliseconds of the line always take three characters for a time after the epoch.\<close>

lemma pad3_length:
  assumes "0 \<le> now"
  shows "length (pad3 (dec_int (sgn (cast_ms now) * (\<bar>cast_ms now\<bar> mod 1000)))) = 3"
proof -
  have digits: "length (dec_int n) \<le> 3" if "0 \<le> n" "n < 1000" for n :: int
    using that
    by (simp add: dec_int_def dec_nonneg.simps [of n] dec_nonneg.simps [of "n div 10"]
        dec_nonneg.simps [of "n div 10 div 10"])
  have "0 \<le> cast_ms now" using assms by (simp add: cast_ms_def)
  then have "0 \<le> sgn (cast_ms now) * (\<bar>cast_ms now\<bar> mod 1000)"
    "sgn (cast_ms now) * (\<bar>cast_ms now\<bar> mod 1000) < 1000"
    by (auto simp: sgn_if)
  from digits [OF this] show ?thesis by (simp add: pad3_def)
qed

end
