(* ===== verification/Config_Loader.thy ===== *)
theory Config_Loader
  imports Pipeline Onnx_Engine Ws_Publisher Mjpeg_Server "HOL-Library.AList"
begin

text \<open>
  The configuration (\<^verbatim>\<open>src/infrastructure/config/YamlConfigLoader.cpp\<close>): \<open>load_from_yaml\<close> reads a YAML
  document into the \<open>SystemConfig\<close> record.  The YAML library is a parameter: the lookup of a key
  and the conversions of a node, each of which may throw, and the items of a sequence.  An exception
  is its text.
\<close>

subsection \<open>The YAML interface\<close>

record 'n yaml_api =
  ya_load :: "string \<Rightarrow> string + 'n"
  ya_get :: "'n \<Rightarrow> string \<Rightarrow> string + 'n option"
  ya_items :: "'n \<Rightarrow> string + 'n list"
  ya_string :: "'n \<Rightarrow> string + string"
  ya_int :: "'n \<Rightarrow> string + int"
  ya_float :: "'n \<Rightarrow> string + f32"
  ya_bool :: "'n \<Rightarrow> string + bool"

text \<open>Sequencing of statements that may throw.\<close>

definition bind_exn :: "'e + 'a \<Rightarrow> ('a \<Rightarrow> 'e + 'b) \<Rightarrow> 'e + 'b" where
  "bind_exn r k = case_sum Inl k r"

lemma bind_exn_simps [simp]:
  "bind_exn (Inr v) k = k v" "bind_exn (Inl what) k = Inl what"
  by (simp_all add: bind_exn_def)

lemma bind_exn_Inr: "bind_exn r f = Inr y \<longleftrightarrow> (\<exists>v. r = Inr v \<and> f v = Inr y)"
  by (cases r) simp_all

definition get_or :: "'n yaml_api \<Rightarrow> ('n \<Rightarrow> string + 'a) \<Rightarrow> 'n \<Rightarrow> string \<Rightarrow> 'a \<Rightarrow> string + 'a" where
  "get_or api conv n key fallback =
     bind_exn (ya_get api n key) (\<lambda>child. case child of Some c \<Rightarrow> conv c | None \<Rightarrow> Inr fallback)"

subsection \<open>The configuration\<close>

datatype inference_backend = kOnnxRuntime | kTensorRT

datatype camera_source_type = kRtsp | kVideoFile

record camera_entry =
  ce_source_type :: camera_source_type
  ce_rtsp :: rtsp_config
  ce_video_file :: file_config
  ce_pipeline :: pipeline_config

record system_config =
  cfg_backend :: inference_backend
  cfg_inference :: inference_config
  cfg_safety_zone :: safety_zone_config
  cfg_websocket :: ws_config
  cfg_viewer :: viewer_config
  cfg_cameras :: "camera_entry list"
  cfg_inference_thread_pool_size :: int
  cfg_log_level :: string

definition default_camera_entry :: camera_entry where
  "default_camera_entry =
     \<lparr>ce_source_type = kRtsp, ce_rtsp = default_rtsp_config, ce_video_file = default_file_config,
      ce_pipeline = default_pipeline_config\<rparr>"

definition default_system_config :: system_config where
  "default_system_config =
     \<lparr>cfg_backend = kOnnxRuntime, cfg_inference = default_inference_config,
      cfg_safety_zone = default_safety_zone_config, cfg_websocket = default_ws_config,
      cfg_viewer = default_viewer_config, cfg_cameras = [], cfg_inference_thread_pool_size = 0,
      cfg_log_level = ''info''\<rparr>"

definition parse_config_backend :: "string \<Rightarrow> inference_backend" where
  "parse_config_backend s = (if s = ''tensorrt'' \<or> s = ''trt'' then kTensorRT else kOnnxRuntime)"

definition parse_zone_mode :: "string \<Rightarrow> zone_mode" where
  "parse_zone_mode s = (if s = ''absolute'' then kAbsolutePixels else kRelativeToBox)"

definition parse_device :: "string \<Rightarrow> inference_device" where
  "parse_device s = (if s = ''cuda'' \<or> s = ''gpu'' then kCuda else kCpu)"

text \<open>\<^verbatim>\<open>static_cast<std::uint16_t>\<close> and \<^verbatim>\<open>static_cast<std::size_t>\<close> of an \<^verbatim>\<open>int\<close>.\<close>

definition cast_u16 :: "int \<Rightarrow> int" where
  "cast_u16 n = n mod 2 ^ 16"

definition cast_size :: "int \<Rightarrow> nat" where
  "cast_size n = nat (n mod 2 ^ 64)"

subsection \<open>Sections of the document\<close>

text \<open>The class map: \<open>class_map[idx] = cls\<close> for the indices listed, a later entry replacing an earlier.\<close>

fun add_indices :: "'n yaml_api \<Rightarrow> object_class \<Rightarrow> 'n list \<Rightarrow> (int \<times> object_class) list \<Rightarrow>
  string + (int \<times> object_class) list"
where
  "add_indices api cls [] m = Inr m"
| "add_indices api cls (idx # idxs) m =
     bind_exn (ya_int api idx) (\<lambda>i. add_indices api cls idxs (AList.update i cls m))"

definition add_class :: "'n yaml_api \<Rightarrow> 'n \<Rightarrow> string \<Rightarrow> object_class \<Rightarrow> (int \<times> object_class) list \<Rightarrow>
  string + (int \<times> object_class) list"
where
  "add_class api classes key cls m =
     bind_exn (ya_get api classes key) (\<lambda>child. case child of
       None \<Rightarrow> Inr m
     | Some node \<Rightarrow> bind_exn (ya_items api node) (\<lambda>idxs. add_indices api cls idxs m))"

definition load_inference :: "'n yaml_api \<Rightarrow> 'n \<Rightarrow> 'n \<Rightarrow> inference_config \<Rightarrow> string + inference_config" where
  "load_inference api root inode c =
     bind_exn (get_or api (ya_string api) inode ''model_path'' []) (\<lambda>model_path.
     bind_exn (get_or api (ya_int api) inode ''input_width'' 640) (\<lambda>input_width.
     bind_exn (get_or api (ya_int api) inode ''input_height'' 640) (\<lambda>input_height.
     bind_exn (get_or api (ya_float api) inode ''conf_threshold'' (f32_lit 35 100)) (\<lambda>conf_threshold.
     bind_exn (get_or api (ya_float api) inode ''nms_threshold'' (f32_lit 45 100)) (\<lambda>nms_threshold.
     bind_exn (get_or api (ya_int api) inode ''max_detections'' 300) (\<lambda>max_detections.
     bind_exn (get_or api (ya_string api) root ''device'' ''cpu'') (\<lambda>root_device.
     bind_exn (get_or api (ya_string api) inode ''device'' root_device) (\<lambda>device.
     bind_exn (ya_get api inode ''classes'') (\<lambda>classes.
     bind_exn (case classes of
         None \<Rightarrow> Inr (ic_class_map c)
       | Some node \<Rightarrow>
           bind_exn (add_class api node ''person'' kPerson (ic_class_map c))
             (add_class api node ''forklift'' kForklift)) (\<lambda>class_map.
     Inr (c\<lparr>ic_model_path := model_path, ic_input_width := input_width, ic_input_height := input_height,
            ic_conf_threshold := conf_threshold, ic_nms_threshold := nms_threshold,
            ic_max_detections := max_detections, ic_device := parse_device device,
            ic_class_map := class_map\<rparr>)))))))))))"

definition load_zone :: "'n yaml_api \<Rightarrow> 'n \<Rightarrow> safety_zone_config \<Rightarrow> string + safety_zone_config" where
  "load_zone api sz c =
     bind_exn (get_or api (ya_string api) sz ''mode'' ''relative'') (\<lambda>mode.
     bind_exn (get_or api (ya_float api) sz ''pad_x_px'' (f32_lit 120 1)) (\<lambda>pad_x.
     bind_exn (get_or api (ya_float api) sz ''pad_y_px'' (f32_lit 120 1)) (\<lambda>pad_y.
     bind_exn (get_or api (ya_float api) sz ''pad_ratio'' (f32_lit 1 2)) (\<lambda>pad_ratio.
     Inr (c\<lparr>szc_mode := parse_zone_mode mode, szc_pad_x_px := pad_x, szc_pad_y_px := pad_y,
            szc_pad_ratio := pad_ratio\<rparr>)))))"

definition load_websocket :: "'n yaml_api \<Rightarrow> 'n \<Rightarrow> ws_config \<Rightarrow> string + ws_config" where
  "load_websocket api ws c =
     bind_exn (get_or api (ya_string api) ws ''host'' ''0.0.0.0'') (\<lambda>host.
     bind_exn (get_or api (ya_int api) ws ''port'' 8765) (\<lambda>port.
     bind_exn (get_or api (ya_string api) ws ''path'' ''/ws/alerts'') (\<lambda>path.
     Inr (c\<lparr>wc_host := host, wc_port := cast_u16 port, wc_path := path\<rparr>))))"

definition load_viewer :: "'n yaml_api \<Rightarrow> 'n \<Rightarrow> viewer_config \<Rightarrow> string + viewer_config" where
  "load_viewer api v c =
     bind_exn (get_or api (ya_bool api) v ''enabled'' False) (\<lambda>enabled.
     bind_exn (get_or api (ya_string api) v ''host'' ''0.0.0.0'') (\<lambda>host.
     bind_exn (get_or api (ya_int api) v ''port'' 8088) (\<lambda>port.
     bind_exn (get_or api (ya_string api) v ''web_root'' ''web'') (\<lambda>web_root.
     bind_exn (get_or api (ya_int api) v ''jpeg_quality'' 75) (\<lambda>jpeg_quality.
     bind_exn (get_or api (ya_int api) v ''target_fps'' 15) (\<lambda>target_fps.
     Inr (c\<lparr>vw_enabled := enabled, vw_host := host, vw_port := cast_u16 port, vw_web_root := web_root,
            vw_jpeg_quality := jpeg_quality, vw_target_fps := target_fps\<rparr>)))))))"

definition load_source :: "'n yaml_api \<Rightarrow> 'n \<Rightarrow> camera_entry \<Rightarrow> string + camera_entry" where
  "load_source api c e =
     bind_exn (get_or api (ya_string api) c ''id'' ''cam'') (\<lambda>id.
     bind_exn (get_or api (ya_string api) c ''source_type'' ''rtsp'') (\<lambda>src.
     if src = ''video_file''
     then bind_exn (get_or api (ya_string api) c ''video_path'' []) (\<lambda>video_path.
          bind_exn (get_or api (ya_bool api) c ''loop'' True) (\<lambda>loop.
          Inr (e\<lparr>ce_source_type := kVideoFile,
                 ce_video_file := (ce_video_file e)\<lparr>fc_camera_id := id, fc_file_path := video_path,
                   fc_loop := loop\<rparr>\<rparr>)))
     else bind_exn (get_or api (ya_string api) c ''rtsp_url'' []) (\<lambda>rtsp_url.
          Inr (e\<lparr>ce_source_type := kRtsp,
                 ce_rtsp := (ce_rtsp e)\<lparr>rc_camera_id := id, rc_rtsp_url := rtsp_url\<rparr>\<rparr>))))"

definition load_camera :: "'n yaml_api \<Rightarrow> 'n \<Rightarrow> string + camera_entry" where
  "load_camera api c =
     bind_exn (load_source api c default_camera_entry) (\<lambda>e.
     bind_exn (get_or api (ya_int api) c ''queue_capacity'' 4) (\<lambda>capacity.
     bind_exn (get_or api (ya_int api) c ''workers'' 1) (\<lambda>workers.
     bind_exn (get_or api (ya_int api) c ''alert_cooldown_ms'' 2000) (\<lambda>cooldown.
     bind_exn (get_or api (ya_bool api) c ''enable_viewer'' False) (\<lambda>enable_viewer.
     Inr (e\<lparr>ce_pipeline := (ce_pipeline e)\<lparr>pc_frame_queue_capacity := cast_size capacity,
              pc_inference_workers := cast_size workers, pc_alert_cooldown_ms := cooldown,
              pc_enable_viewer := enable_viewer\<rparr>\<rparr>))))))"

fun load_cameras :: "'n yaml_api \<Rightarrow> 'n list \<Rightarrow> camera_entry list \<Rightarrow> string + camera_entry list" where
  "load_cameras api [] cameras = Inr cameras"
| "load_cameras api (c # cs) cameras =
     bind_exn (load_camera api c) (\<lambda>e. load_cameras api cs (cameras @ [e]))"

text \<open>An optional section: \<open>if (auto x = root[key])\<close>.\<close>

definition section_of :: "'n yaml_api \<Rightarrow> 'n \<Rightarrow> string \<Rightarrow> ('n \<Rightarrow> string + 'a) \<Rightarrow> 'a \<Rightarrow> string + 'a" where
  "section_of api root key load absent =
     bind_exn (ya_get api root key) (\<lambda>child. case child of None \<Rightarrow> Inr absent | Some n \<Rightarrow> load n)"

definition load_document :: "'n yaml_api \<Rightarrow> string \<Rightarrow> string + system_config" where
  "load_document api path =
     (let out = default_system_config in
     bind_exn (ya_load api path) (\<lambda>root.
     bind_exn (get_or api (ya_string api) root ''backend'' ''onnxruntime'') (\<lambda>backend.
     bind_exn (get_or api (ya_string api) root ''log_level'' ''info'') (\<lambda>log_level.
     bind_exn (get_or api (ya_int api) root ''inference_thread_pool_size'' 0) (\<lambda>pool_size.
     bind_exn (section_of api root ''inference'' (\<lambda>inode. load_inference api root inode (cfg_inference out))
       (cfg_inference out)) (\<lambda>inference.
     bind_exn (section_of api root ''safety_zone'' (\<lambda>sz. load_zone api sz (cfg_safety_zone out))
       (cfg_safety_zone out)) (\<lambda>zone.
     bind_exn (section_of api root ''websocket'' (\<lambda>ws. load_websocket api ws (cfg_websocket out))
       (cfg_websocket out)) (\<lambda>websocket.
     bind_exn (section_of api root ''viewer'' (\<lambda>v. load_viewer api v (cfg_viewer out))
       (cfg_viewer out)) (\<lambda>viewer.
     bind_exn (section_of api root ''cameras''
       (\<lambda>cams. bind_exn (ya_items api cams) (\<lambda>cs. load_cameras api cs [])) []) (\<lambda>cameras.
     Inr (out\<lparr>cfg_backend := parse_config_backend backend, cfg_log_level := log_level,
              cfg_inference_thread_pool_size := pool_size, cfg_inference := inference,
              cfg_safety_zone := zone, cfg_websocket := websocket, cfg_viewer := viewer,
              cfg_cameras := cameras\<rparr>)))))))))))"

text \<open>The flag says whether the library was there at build time.\<close>

definition load_from_yaml :: "bool \<Rightarrow> 'n yaml_api \<Rightarrow> string \<Rightarrow> system_config result" where
  "load_from_yaml have_yaml api path =
     (if \<not> have_yaml then Inl (mk_error 100 ''yaml-cpp was not available at build time'')
      else case load_document api path of
          Inl what \<Rightarrow> Inl (mk_error 101 (''yaml parse failed: '' @ what))
        | Inr cfg \<Rightarrow> Inr cfg)"

subsection \<open>Every loaded configuration is well-typed\<close>

text \<open>A C++ \<open>int\<close>, and the documented range of the conversion to one.\<close>

definition is_int :: "int \<Rightarrow> bool" where
  "is_int n = (- (2 ^ 31) \<le> n \<and> n < 2 ^ 31)"

definition yaml_typed :: "'n yaml_api \<Rightarrow> bool" where
  "yaml_typed api = (\<forall>n v. ya_int api n = Inr v \<longrightarrow> is_int v)"

definition class_map_ok :: "(int \<times> object_class) list \<Rightarrow> bool" where
  "class_map_ok m = (distinct (map fst m) \<and>
     list_all (\<lambda>(i, cls). is_int i \<and> (cls = kPerson \<or> cls = kForklift)) m)"

definition inference_ok :: "inference_config \<Rightarrow> bool" where
  "inference_ok c = (is_int (ic_input_width c) \<and> is_int (ic_input_height c) \<and>
     is_int (ic_max_detections c) \<and> class_map_ok (ic_class_map c))"

text \<open>A size is a small one, or wrapped around from a negative number.\<close>

definition size_ok :: "nat \<Rightarrow> bool" where
  "size_ok n = (n < 2 ^ 31 \<or> 2 ^ 64 - 2 ^ 31 \<le> n \<and> n < 2 ^ 64)"

definition camera_ok :: "camera_entry \<Rightarrow> bool" where
  "camera_ok e =
     (let p = ce_pipeline e
      in size_ok (pc_frame_queue_capacity p) \<and> size_ok (pc_inference_workers p) \<and>
         is_int (pc_alert_cooldown_ms p) \<and> pc_max_frame_lag_ms p = 500 \<and>
         (case ce_source_type e of
            kRtsp \<Rightarrow> ce_video_file e = default_file_config
          | kVideoFile \<Rightarrow> ce_rtsp e = default_rtsp_config \<and> fc_realtime_pacing (ce_video_file e)))"

definition is_u16 :: "int \<Rightarrow> bool" where
  "is_u16 n = (0 \<le> n \<and> n < 2 ^ 16)"

definition viewer_ok :: "viewer_config \<Rightarrow> bool" where
  "viewer_ok v = (is_u16 (vw_port v) \<and> is_int (vw_jpeg_quality v) \<and> is_int (vw_target_fps v))"

definition config_ok :: "system_config \<Rightarrow> bool" where
  "config_ok c = (inference_ok (cfg_inference c) \<and>
     is_u16 (wc_port (cfg_websocket c)) \<and> viewer_ok (cfg_viewer c) \<and>
     is_int (cfg_inference_thread_pool_size c) \<and> list_all camera_ok (cfg_cameras c))"

lemma get_or_int:
  "get_or api (ya_int api) n k d = Inr v \<Longrightarrow> yaml_typed api \<Longrightarrow> is_int d \<Longrightarrow> is_int v"
  by (auto simp: get_or_def bind_exn_Inr yaml_typed_def split: option.splits)

lemma is_int_lit [simp]: "is_int 0" "is_int 1" "is_int 4" "is_int 15" "is_int 75" "is_int 300" "is_int 640"
  "is_int 2000" "is_int 8088" "is_int 8765"
  by (simp_all add: is_int_def)

lemma is_u16_simps [simp]: "is_u16 (cast_u16 n)" "is_u16 8765" "is_u16 8088"
  by (simp_all add: is_u16_def cast_u16_def)

lemma cast_size_value:
  assumes "is_int n"
  shows "cast_size n = (if 0 \<le> n then nat n else nat (2 ^ 64 + n))"
proof -
  have "n mod 2 ^ 64 = (if 0 \<le> n then n else 2 ^ 64 + n)"
  proof (cases "0 \<le> n")
    case True
    with assms show ?thesis by (simp add: is_int_def)
  next
    case False
    with assms have "(n + 2 ^ 64) mod 2 ^ 64 = n + 2 ^ 64"
      by (intro mod_pos_pos_trivial) (simp_all add: is_int_def)
    with False show ?thesis by simp
  qed
  then show ?thesis by (simp add: cast_size_def)
qed

lemma cast_size_ok: "is_int n \<Longrightarrow> size_ok (cast_size n)"
  by (simp add: cast_size_value) (auto simp: size_ok_def is_int_def nat_less_iff)

lemma list_all_AList_update: "list_all P m \<Longrightarrow> P (k, v) \<Longrightarrow> list_all P (AList.update k v m)"
  by (induction m) auto

lemma add_indices_ok:
  "add_indices api cls idxs m = Inr m' \<Longrightarrow> yaml_typed api \<Longrightarrow> cls = kPerson \<or> cls = kForklift \<Longrightarrow>
   class_map_ok m \<Longrightarrow> class_map_ok m'"
proof (induction idxs arbitrary: m)
  case (Cons idx idxs)
  then obtain i where i: "ya_int api idx = Inr i" "add_indices api cls idxs (AList.update i cls m) = Inr m'"
    by (auto simp: bind_exn_Inr)
  have "is_int i" using i(1) Cons.prems(2) by (auto simp: yaml_typed_def)
  with Cons.prems(3,4) have "class_map_ok (AList.update i cls m)"
    by (auto simp: class_map_ok_def distinct_update intro: list_all_AList_update)
  with Cons i(2) show ?case by blast
qed simp

lemma add_class_ok:
  "add_class api classes key cls m = Inr m' \<Longrightarrow> yaml_typed api \<Longrightarrow> cls = kPerson \<or> cls = kForklift \<Longrightarrow>
   class_map_ok m \<Longrightarrow> class_map_ok m'"
  by (auto simp: add_class_def bind_exn_Inr split: option.splits dest: add_indices_ok)

lemma load_inference_ok:
  assumes "load_inference api root inode c = Inr c'" "yaml_typed api" "inference_ok c"
  shows "inference_ok c'"
proof -
  have ints: "get_or api (ya_int api) inode ''input_width'' 640 = Inr (ic_input_width c')"
      "get_or api (ya_int api) inode ''input_height'' 640 = Inr (ic_input_height c')"
      "get_or api (ya_int api) inode ''max_detections'' 300 = Inr (ic_max_detections c')"
    and map: "ic_class_map c' = ic_class_map c \<or> (\<exists>node m1.
      add_class api node ''person'' kPerson (ic_class_map c) = Inr m1 \<and>
      add_class api node ''forklift'' kForklift m1 = Inr (ic_class_map c'))"
    using assms(1) unfolding load_inference_def bind_exn_Inr
    by (auto split: option.splits simp: bind_exn_Inr)
  have "class_map_ok (ic_class_map c)" using assms(3) by (simp add: inference_ok_def)
  with map assms(2) have "class_map_ok (ic_class_map c')" by (auto dest: add_class_ok)
  with ints [THEN get_or_int, OF assms(2)] show ?thesis by (simp add: inference_ok_def)
qed

lemma load_websocket_ok: "load_websocket api n c = Inr c' \<Longrightarrow> is_u16 (wc_port c')"
  by (auto simp: load_websocket_def bind_exn_Inr)

lemma load_viewer_ok: "load_viewer api n c = Inr c' \<Longrightarrow> yaml_typed api \<Longrightarrow> viewer_ok c'"
  by (auto simp: load_viewer_def bind_exn_Inr viewer_ok_def dest: get_or_int)

lemma load_source_ok:
  "load_source api c default_camera_entry = Inr e \<Longrightarrow>
   ce_pipeline e = default_pipeline_config \<and>
   (case ce_source_type e of
      kRtsp \<Rightarrow> ce_video_file e = default_file_config
    | kVideoFile \<Rightarrow> ce_rtsp e = default_rtsp_config \<and> fc_realtime_pacing (ce_video_file e))"
  by (auto simp: load_source_def bind_exn_Inr default_camera_entry_def default_file_config_def
      split: if_splits)

lemma load_camera_ok:
  assumes "load_camera api c = Inr e" "yaml_typed api"
  shows "camera_ok e"
proof -
  obtain e0 capacity workers cooldown viewer where e0: "load_source api c default_camera_entry = Inr e0"
    and ints: "get_or api (ya_int api) c ''queue_capacity'' 4 = Inr capacity"
      "get_or api (ya_int api) c ''workers'' 1 = Inr workers"
      "get_or api (ya_int api) c ''alert_cooldown_ms'' 2000 = Inr cooldown"
    and e: "e = e0\<lparr>ce_pipeline := (ce_pipeline e0)\<lparr>pc_frame_queue_capacity := cast_size capacity,
              pc_inference_workers := cast_size workers, pc_alert_cooldown_ms := cooldown,
              pc_enable_viewer := viewer\<rparr>\<rparr>"
    using assms(1) unfolding load_camera_def bind_exn_Inr by auto
  from ints [THEN get_or_int, OF assms(2)] load_source_ok [OF e0] show ?thesis
    by (cases "ce_source_type e0")
      (simp_all add: e camera_ok_def Let_def cast_size_ok default_pipeline_config_def)
qed

lemma load_cameras_list:
  "load_cameras api cs acc = Inr es \<Longrightarrow>
   \<exists>es'. es = acc @ es' \<and> list_all2 (\<lambda>c e. load_camera api c = Inr e) cs es'"
proof (induction cs arbitrary: acc)
  case (Cons c cs)
  then obtain e where e: "load_camera api c = Inr e" "load_cameras api cs (acc @ [e]) = Inr es"
    by (auto simp: bind_exn_Inr)
  from Cons.IH [OF e(2)] obtain es' where "es = (acc @ [e]) @ es'"
    "list_all2 (\<lambda>c e. load_camera api c = Inr e) cs es'" by blast
  with e(1) have "es = acc @ (e # es') \<and> list_all2 (\<lambda>c e. load_camera api c = Inr e) (c # cs) (e # es')"
    by simp
  then show ?case by blast
qed simp

lemma load_cameras_ok:
  assumes "load_cameras api cs [] = Inr es" "yaml_typed api"
  shows "list_all camera_ok es"
proof -
  from load_cameras_list [OF assms(1)] have "list_all2 (\<lambda>c e. load_camera api c = Inr e) cs es" by simp
  then show ?thesis by (rule list_all2_all) (rule load_camera_ok [OF _ assms(2)])
qed

lemma section_cases:
  "section_of api root key load absent = Inr v \<Longrightarrow> v = absent \<or> (\<exists>n. load n = Inr v)"
  by (auto simp: section_of_def bind_exn_Inr split: option.splits)

lemma load_documentE:
  assumes "load_document api path = Inr cfg"
  obtains root inference zone websocket viewer cameras where
    "ya_load api path = Inr root"
    "get_or api (ya_int api) root ''inference_thread_pool_size'' 0 = Inr (cfg_inference_thread_pool_size cfg)"
    "section_of api root ''inference'' (\<lambda>inode. load_inference api root inode default_inference_config)
       default_inference_config = Inr (cfg_inference cfg)"
    "section_of api root ''safety_zone'' (\<lambda>sz. load_zone api sz default_safety_zone_config)
       default_safety_zone_config = Inr (cfg_safety_zone cfg)"
    "section_of api root ''websocket'' (\<lambda>ws. load_websocket api ws default_ws_config)
       default_ws_config = Inr (cfg_websocket cfg)"
    "section_of api root ''viewer'' (\<lambda>v. load_viewer api v default_viewer_config)
       default_viewer_config = Inr (cfg_viewer cfg)"
    "section_of api root ''cameras'' (\<lambda>cams. bind_exn (ya_items api cams) (\<lambda>cs. load_cameras api cs [])) [] =
       Inr (cfg_cameras cfg)"
  using assms unfolding load_document_def bind_exn_Inr Let_def
  by (auto simp: default_system_config_def)


subsection \<open>Defaults\<close>

text \<open>A node without keys, and a document of nothing but sections without keys.\<close>

definition blank_node :: "'n yaml_api \<Rightarrow> 'n \<Rightarrow> bool" where
  "blank_node api n = (\<forall>k. ya_get api n k = Inr None)"

definition section_keys :: "string set" where
  "section_keys = {''inference'', ''safety_zone'', ''websocket'', ''viewer''}"

definition keyless :: "'n yaml_api \<Rightarrow> 'n \<Rightarrow> bool" where
  "keyless api root = (\<forall>k. k = ''cameras'' \<or> ya_get api root k = Inr None \<or>
     k \<in> section_keys \<and> (\<exists>c. ya_get api root k = Inr (Some c) \<and> blank_node api c))"

lemma keyless_get:
  assumes "keyless api root" "k \<notin> section_keys" "k \<noteq> ''cameras''"
  shows "get_or api conv root k d = Inr d"
proof -
  have "ya_get api root k = Inr None" using assms unfolding keyless_def by blast
  then show ?thesis by (simp add: get_or_def)
qed

lemma blank_get: "blank_node api n \<Longrightarrow> ya_get api n k = Inr None" "blank_node api n \<Longrightarrow> get_or api conv n k d = Inr d"
  by (simp_all add: blank_node_def get_or_def)

lemma keyless_section:
  assumes "keyless api root" "k \<in> section_keys" "\<And>n. blank_node api n \<Longrightarrow> load n = Inr absent"
  shows "section_of api root k load absent = Inr absent"
proof -
  have "k \<noteq> ''cameras''" using assms(2) by (auto simp: section_keys_def)
  then have "ya_get api root k = Inr None \<or> (\<exists>c. ya_get api root k = Inr (Some c) \<and> blank_node api c)"
    using assms(1) unfolding keyless_def by blast
  then show ?thesis using assms(3) by (auto simp: section_of_def)
qed

definition unnamed_camera :: camera_entry where
  "unnamed_camera =
     default_camera_entry\<lparr>ce_rtsp := default_rtsp_config\<lparr>rc_camera_id := ''cam''\<rparr>\<rparr>"

lemma blank_camera: "blank_node api n \<Longrightarrow> load_camera api n = Inr unnamed_camera"
  by (simp add: load_camera_def load_source_def blank_get unnamed_camera_def
      default_camera_entry_def default_rtsp_config_def default_pipeline_config_def cast_size_def)

lemma load_cameras_blank:
  "list_all (blank_node api) cs \<Longrightarrow>
   load_cameras api cs acc = Inr (acc @ replicate (length cs) unnamed_camera)"
  by (induction cs arbitrary: acc) (simp_all add: blank_camera)

lemma keyless_sections:
  assumes "keyless api root"
  shows "section_of api root ''inference'' (\<lambda>n. load_inference api root n default_inference_config)
      default_inference_config = Inr default_inference_config"
    "section_of api root ''safety_zone'' (\<lambda>n. load_zone api n default_safety_zone_config)
      default_safety_zone_config = Inr default_safety_zone_config"
    "section_of api root ''websocket'' (\<lambda>n. load_websocket api n default_ws_config) default_ws_config =
      Inr default_ws_config"
    "section_of api root ''viewer'' (\<lambda>n. load_viewer api n default_viewer_config) default_viewer_config =
      Inr default_viewer_config"
proof -
  have "get_or api (ya_string api) root ''device'' ''cpu'' = Inr ''cpu''"
    by (rule keyless_get [OF assms]) (simp_all add: section_keys_def)
  then have inference: "load_inference api root n default_inference_config = Inr default_inference_config"
    if "blank_node api n" for n
    using that by (simp add: load_inference_def blank_get default_inference_config_def parse_device_def)
  show "section_of api root ''inference'' (\<lambda>n. load_inference api root n default_inference_config)
      default_inference_config = Inr default_inference_config"
    by (rule keyless_section [OF assms _ inference]) (simp_all add: section_keys_def)
  show "section_of api root ''safety_zone'' (\<lambda>n. load_zone api n default_safety_zone_config)
      default_safety_zone_config = Inr default_safety_zone_config"
    by (rule keyless_section [OF assms])
      (simp_all add: section_keys_def load_zone_def blank_get default_safety_zone_config_def parse_zone_mode_def)
  show "section_of api root ''websocket'' (\<lambda>n. load_websocket api n default_ws_config) default_ws_config =
      Inr default_ws_config"
    by (rule keyless_section [OF assms])
      (simp_all add: section_keys_def load_websocket_def blank_get default_ws_config_def cast_u16_def)
  show "section_of api root ''viewer'' (\<lambda>n. load_viewer api n default_viewer_config) default_viewer_config =
      Inr default_viewer_config"
    by (rule keyless_section [OF assms])
      (simp_all add: section_keys_def load_viewer_def blank_get default_viewer_config_def cast_u16_def)
qed

text \<open>
  The defaults are consistent: the fallbacks of the loader are the initialisers of the structs, so
  a document that sets nothing loads to the default configuration, whether its sections are
  missing or empty, with one unnamed RTSP camera for each item of its camera list.
\<close>

theorem config_defaults:
  assumes "ya_load api path = Inr root" "keyless api root"
    and "ya_get api root ''cameras'' = Inr (Some cams)" "ya_items api cams = Inr cs"
    and "list_all (blank_node api) cs"
  shows "load_from_yaml True api path =
    Inr (default_system_config\<lparr>cfg_cameras := replicate (length cs) unnamed_camera\<rparr>)"
proof -
  have "section_of api root ''cameras'' (\<lambda>cams. bind_exn (ya_items api cams) (\<lambda>cs. load_cameras api cs [])) [] =
      Inr (replicate (length cs) unnamed_camera)"
    using load_cameras_blank [OF assms(5), of "[]"] assms(3,4) by (simp add: section_of_def)
  then show ?thesis
    using assms(1)
    by (simp add: load_from_yaml_def load_document_def default_system_config_def Let_def
        keyless_get [OF assms(2)] keyless_sections [OF assms(2)] section_keys_def parse_config_backend_def)
qed

subsection \<open>Cameras and classes\<close>

lemma load_cameras_iff:
  "load_cameras api cs acc = Inr es \<longleftrightarrow>
   (\<exists>es'. es = acc @ es' \<and> list_all2 (\<lambda>c e. load_camera api c = Inr e) cs es')"
proof
  show "load_cameras api cs acc = Inr es \<Longrightarrow>
    \<exists>es'. es = acc @ es' \<and> list_all2 (\<lambda>c e. load_camera api c = Inr e) cs es'"
    by (rule load_cameras_list)
next
  assume "\<exists>es'. es = acc @ es' \<and> list_all2 (\<lambda>c e. load_camera api c = Inr e) cs es'"
  then obtain es' where "es = acc @ es'" "list_all2 (\<lambda>c e. load_camera api c = Inr e) cs es'" by blast
  then show "load_cameras api cs acc = Inr es"
  proof (induction cs arbitrary: acc es')
    case (Cons c cs)
    then obtain e es'' where "es' = e # es''" "load_camera api c = Inr e"
      "list_all2 (\<lambda>c e. load_camera api c = Inr e) cs es''"
      by (auto simp: list_all2_Cons1)
    with Cons.IH [of "acc @ [e]" es''] Cons.prems(1) show ?case by simp
  qed simp
qed

lemma add_indices_lookup:
  "add_indices api cls idxs m = Inr m' \<Longrightarrow>
   map_of m' i = (if Inr i \<in> ya_int api ` set idxs then Some cls else map_of m i)"
  by (induction idxs arbitrary: m) (auto simp: bind_exn_Inr update_conv')

lemma load_inference_classes:
  assumes "load_inference api root inode c = Inr c'" "ya_get api inode ''classes'' = Inr (Some node)"
  shows "\<exists>m1. add_class api node ''person'' kPerson (ic_class_map c) = Inr m1 \<and>
    add_class api node ''forklift'' kForklift m1 = Inr (ic_class_map c')"
  using assms unfolding load_inference_def bind_exn_Inr by (auto simp: bind_exn_Inr)

text \<open>
  C30: Each camera of the list is loaded on its own, in order, and the class map of the engine is
  read off the two lists of indices: an index in the forklift list is a forklift even when the
  person list has it too, an index in neither is unmapped.
\<close>

theorem config_cameras_and_classes:
  assumes "load_from_yaml True api path = Inr cfg" "ya_load api path = Inr root"
    and "ya_get api root ''cameras'' = Inr (Some cams)" "ya_items api cams = Inr cs"
    and "ya_get api root ''inference'' = Inr (Some inode)" "ya_get api inode ''classes'' = Inr (Some classes)"
    and "ya_get api classes ''person'' = Inr (Some pn)" "ya_items api pn = Inr ps"
    and "ya_get api classes ''forklift'' = Inr (Some fn)" "ya_items api fn = Inr fs"
  shows "list_all2 (\<lambda>c e. load_camera api c = Inr e) cs (cfg_cameras cfg) \<and>
    (\<forall>i. map_of (ic_class_map (cfg_inference cfg)) i =
       (if Inr i \<in> ya_int api ` set fs then Some kForklift
        else if Inr i \<in> ya_int api ` set ps then Some kPerson else None))"
proof -
  from assms(1) have "load_document api path = Inr cfg"
    by (auto simp: load_from_yaml_def split: sum.splits)
  then show ?thesis
  proof (rule load_documentE)
    fix root'
    assume root: "ya_load api path = Inr root'"
      and inference: "section_of api root' ''inference'' (\<lambda>inode. load_inference api root' inode default_inference_config)
        default_inference_config = Inr (cfg_inference cfg)"
      and cameras: "section_of api root' ''cameras''
        (\<lambda>cams. bind_exn (ya_items api cams) (\<lambda>cs. load_cameras api cs [])) [] = Inr (cfg_cameras cfg)"
    have [simp]: "root' = root" using root assms(2) by simp
    have "load_cameras api cs [] = Inr (cfg_cameras cfg)"
      using cameras assms(3,4) by (simp add: section_of_def)
    then have first: "list_all2 (\<lambda>c e. load_camera api c = Inr e) cs (cfg_cameras cfg)"
      by (simp add: load_cameras_iff)
    have "load_inference api root inode default_inference_config = Inr (cfg_inference cfg)"
      using inference assms(5) by (simp add: section_of_def)
    from load_inference_classes [OF this assms(6)]
    obtain m1 where m1: "add_indices api kPerson ps [] = Inr m1"
      "add_indices api kForklift fs m1 = Inr (ic_class_map (cfg_inference cfg))"
      using assms(7-10) by (auto simp: add_class_def default_inference_config_def)
    with first show ?thesis by (simp add: add_indices_lookup [OF m1(1)] add_indices_lookup [OF m1(2)])
  qed
qed

text \<open>Numbers out of range are accepted: a port wraps around, a negative size becomes huge, zero stays.\<close>

lemma config_casts:
  "cast_u16 70000 = 4464" "cast_u16 (- 1) = 65535" "cast_size 0 = 0" "cast_size (- 1) = 2 ^ 64 - 1"
  by (simp_all add: cast_u16_def cast_size_def)

subsection \<open>A concrete document\<close>

datatype demo_node =
    Demo_Map "(string \<times> demo_node) list"
  | Demo_Seq "demo_node list"
  | Demo_Int int
  | Demo_Str string

definition demo_yaml :: "demo_node \<Rightarrow> demo_node yaml_api" where
  "demo_yaml root =
     \<lparr>ya_load = (\<lambda>path. if path = ''system.yaml'' then Inr root else Inl ''bad file''),
      ya_get = (\<lambda>n k. case n of Demo_Map kvs \<Rightarrow> Inr (map_of kvs k) | _ \<Rightarrow> Inr None),
      ya_items = (\<lambda>n. case n of Demo_Seq ns \<Rightarrow> Inr ns | _ \<Rightarrow> Inr []),
      ya_string = (\<lambda>n. case n of Demo_Str s \<Rightarrow> Inr s | Demo_Int i \<Rightarrow> Inr (dec_int i) | _ \<Rightarrow> Inl ''bad conversion''),
      ya_int = (\<lambda>n. case n of Demo_Int i \<Rightarrow> (if is_int i then Inr i else Inl ''bad conversion'')
                        | _ \<Rightarrow> Inl ''bad conversion''),
      ya_float = (\<lambda>n. case n of Demo_Int i \<Rightarrow> Inr (f32_lit i 1) | _ \<Rightarrow> Inl ''bad conversion''),
      ya_bool = (\<lambda>n. Inl ''bad conversion'')\<rparr>"

definition demo_camera_node :: demo_node where
  "demo_camera_node =
     Demo_Map [(''id'', Demo_Str ''dock''), (''rtsp_url'', Demo_Str ''rtsp://dock''), (''queue_capacity'', Demo_Int 0)]"

definition demo_document :: demo_node where
  "demo_document = Demo_Map [
     (''inference'', Demo_Map [(''classes'', Demo_Map [
        (''person'', Demo_Seq [Demo_Int 0, Demo_Int 7]), (''forklift'', Demo_Seq [Demo_Int 2, Demo_Int 7])])]),
     (''websocket'', Demo_Map [(''port'', Demo_Int 70000)]),
     (''cameras'', Demo_Seq [demo_camera_node])]"

definition demo_loaded :: system_config where
  "demo_loaded =
     (case load_from_yaml True (demo_yaml demo_document) ''system.yaml'' of
        Inr cfg \<Rightarrow> cfg | Inl _ \<Rightarrow> default_system_config)"

definition the_child :: "string \<Rightarrow> demo_node \<Rightarrow> demo_node" where
  "the_child k n = (case n of Demo_Map kvs \<Rightarrow> the (map_of kvs k) | _ \<Rightarrow> n)"

lemma demo_typed: "yaml_typed (demo_yaml n)"
  by (auto simp: yaml_typed_def demo_yaml_def split: demo_node.splits if_splits)

lemma demo_load: "load_from_yaml True (demo_yaml demo_document) ''system.yaml'' = Inr demo_loaded"
proof -
  have "result_ok (load_from_yaml True (demo_yaml demo_document) ''system.yaml'')" by code_simp
  then show ?thesis by (auto simp: demo_loaded_def result_ok_iff)
qed


theorem config_defaults_witness:
  "load_from_yaml True (demo_yaml (Demo_Map [(''viewer'', Demo_Map []), (''cameras'', Demo_Seq [Demo_Map []])])) ''system.yaml'' =
     Inr (default_system_config\<lparr>cfg_cameras := [unnamed_camera]\<rparr>)"
proof -
  let ?root = "Demo_Map [(''viewer'', Demo_Map []), (''cameras'', Demo_Seq [Demo_Map []])]"
  have blank: "blank_node (demo_yaml ?root) (Demo_Map [])"
    by (simp add: blank_node_def demo_yaml_def)
  then have "keyless (demo_yaml ?root) ?root"
    by (auto simp: keyless_def section_keys_def blank_node_def demo_yaml_def)
  with blank config_defaults [of "demo_yaml ?root" "''system.yaml''" ?root "Demo_Seq [Demo_Map []]" "[Demo_Map []]"]
  show ?thesis by (simp add: demo_yaml_def)
qed

theorem config_cameras_and_classes_witness:
  "list_all2 (\<lambda>c e. load_camera (demo_yaml demo_document) c = Inr e) [demo_camera_node] (cfg_cameras demo_loaded) \<and>
   map (map_of (ic_class_map (cfg_inference demo_loaded))) [0, 2, 7, 1] =
     [Some kPerson, Some kForklift, Some kForklift, None]"
proof -
  let ?api = "demo_yaml demo_document"
  have "list_all2 (\<lambda>c e. load_camera ?api c = Inr e) [demo_camera_node] (cfg_cameras demo_loaded) \<and>
    (\<forall>i. map_of (ic_class_map (cfg_inference demo_loaded)) i =
       (if Inr i \<in> ya_int ?api ` set [Demo_Int 2, Demo_Int 7] then Some kForklift
        else if Inr i \<in> ya_int ?api ` set [Demo_Int 0, Demo_Int 7] then Some kPerson else None))"
    by (rule config_cameras_and_classes [OF demo_load, where root = demo_document
          and cams = "Demo_Seq [demo_camera_node]" and inode = "the_child ''inference'' demo_document"
          and classes = "the_child ''classes'' (the_child ''inference'' demo_document)"
          and pn = "Demo_Seq [Demo_Int 0, Demo_Int 7]" and fn = "Demo_Seq [Demo_Int 2, Demo_Int 7]"])
      (simp_all add: demo_yaml_def demo_document_def the_child_def)
  then show ?thesis by (simp add: demo_yaml_def is_int_def)
qed

end
