(* ===== verification/Config_Roundtrip.thy ===== *)
theory Config_Roundtrip
  imports Config_Loader
begin

text \<open>
  The keys of the configuration file: a configuration written down as a document, one entry per
  setting, and read back by \<open>load_from_yaml\<close> (\<^verbatim>\<open>src/infrastructure/config/YamlConfigLoader.cpp\<close>).
\<close>

subsection \<open>Documents\<close>

datatype yaml_doc =
    Y_Map "(string \<times> yaml_doc) list"
  | Y_Seq "yaml_doc list"
  | Y_Str string
  | Y_Int int
  | Y_Float f32
  | Y_Bool bool

text \<open>
  What the loader relies on in the YAML library: a node that stands for a mapping finds the value of a
  key, one that stands for a sequence lists its items, and a scalar converts to the value it stands
  for.  A scalar may stand for several, such as the number and the text \<open>640\<close>.
\<close>

locale yaml_tree =
  fixes api :: "'n yaml_api" and stands_for :: "'n \<Rightarrow> yaml_doc \<Rightarrow> bool"
  assumes get_key: "stands_for n (Y_Map kvs) \<Longrightarrow> map_of kvs k = Some d \<Longrightarrow>
      \<exists>c. ya_get api n k = Inr (Some c) \<and> stands_for c d"
    and items: "stands_for n (Y_Seq ds) \<Longrightarrow> \<exists>cs. ya_items api n = Inr cs \<and> list_all2 stands_for cs ds"
    and string_of: "stands_for n (Y_Str s) \<Longrightarrow> ya_string api n = Inr s"
    and int_of: "stands_for n (Y_Int i) \<Longrightarrow> is_int i \<Longrightarrow> ya_int api n = Inr i"
    and float_of: "stands_for n (Y_Float x) \<Longrightarrow> ya_float api n = Inr x"
    and bool_of: "stands_for n (Y_Bool b) \<Longrightarrow> ya_bool api n = Inr b"

subsection \<open>The document of a configuration\<close>

definition backend_text :: "inference_backend \<Rightarrow> string" where
  "backend_text b = (case b of kTensorRT \<Rightarrow> ''tensorrt'' | kOnnxRuntime \<Rightarrow> ''onnxruntime'')"

definition device_text :: "inference_device \<Rightarrow> string" where
  "device_text d = (case d of kCuda \<Rightarrow> ''cuda'' | kCpu \<Rightarrow> ''cpu'')"

definition mode_text :: "zone_mode \<Rightarrow> string" where
  "mode_text m = (case m of kAbsolutePixels \<Rightarrow> ''absolute'' | kRelativeToBox \<Rightarrow> ''relative'')"

definition class_indices :: "object_class \<Rightarrow> (int \<times> object_class) list \<Rightarrow> int list" where
  "class_indices cls m = map fst (filter (\<lambda>(i, c). c = cls) m)"

definition inference_doc :: "inference_config \<Rightarrow> yaml_doc" where
  "inference_doc c = Y_Map
     [(''model_path'', Y_Str (ic_model_path c)), (''input_width'', Y_Int (ic_input_width c)),
      (''input_height'', Y_Int (ic_input_height c)), (''conf_threshold'', Y_Float (ic_conf_threshold c)),
      (''nms_threshold'', Y_Float (ic_nms_threshold c)), (''max_detections'', Y_Int (ic_max_detections c)),
      (''device'', Y_Str (device_text (ic_device c))),
      (''classes'', Y_Map
         [(''person'', Y_Seq (map Y_Int (class_indices kPerson (ic_class_map c)))),
          (''forklift'', Y_Seq (map Y_Int (class_indices kForklift (ic_class_map c))))])]"

definition zone_doc :: "safety_zone_config \<Rightarrow> yaml_doc" where
  "zone_doc c = Y_Map
     [(''mode'', Y_Str (mode_text (szc_mode c))), (''pad_x_px'', Y_Float (szc_pad_x_px c)),
      (''pad_y_px'', Y_Float (szc_pad_y_px c)), (''pad_ratio'', Y_Float (szc_pad_ratio c))]"

definition websocket_doc :: "ws_config \<Rightarrow> yaml_doc" where
  "websocket_doc c = Y_Map
     [(''host'', Y_Str (wc_host c)), (''port'', Y_Int (wc_port c)), (''path'', Y_Str (wc_path c))]"

definition viewer_doc :: "viewer_config \<Rightarrow> yaml_doc" where
  "viewer_doc c = Y_Map
     [(''enabled'', Y_Bool (vw_enabled c)), (''host'', Y_Str (vw_host c)), (''port'', Y_Int (vw_port c)),
      (''web_root'', Y_Str (vw_web_root c)), (''jpeg_quality'', Y_Int (vw_jpeg_quality c)),
      (''target_fps'', Y_Int (vw_target_fps c))]"

definition source_entries :: "camera_entry \<Rightarrow> (string \<times> yaml_doc) list" where
  "source_entries e =
     (case ce_source_type e of
        kRtsp \<Rightarrow> [(''id'', Y_Str (rc_camera_id (ce_rtsp e))), (''source_type'', Y_Str ''rtsp''),
          (''rtsp_url'', Y_Str (rc_rtsp_url (ce_rtsp e)))]
      | kVideoFile \<Rightarrow> [(''id'', Y_Str (fc_camera_id (ce_video_file e))), (''source_type'', Y_Str ''video_file''),
          (''video_path'', Y_Str (fc_file_path (ce_video_file e))), (''loop'', Y_Bool (fc_loop (ce_video_file e)))])"

definition camera_doc :: "camera_entry \<Rightarrow> yaml_doc" where
  "camera_doc e = Y_Map (
     [(''queue_capacity'', Y_Int (int (pc_frame_queue_capacity (ce_pipeline e)))),
      (''workers'', Y_Int (int (pc_inference_workers (ce_pipeline e)))),
      (''alert_cooldown_ms'', Y_Int (pc_alert_cooldown_ms (ce_pipeline e))),
      (''enable_viewer'', Y_Bool (pc_enable_viewer (ce_pipeline e)))] @ source_entries e)"

definition config_doc :: "system_config \<Rightarrow> yaml_doc" where
  "config_doc c = Y_Map
     [(''backend'', Y_Str (backend_text (cfg_backend c))), (''log_level'', Y_Str (cfg_log_level c)),
      (''inference_thread_pool_size'', Y_Int (cfg_inference_thread_pool_size c)),
      (''device'', Y_Str ''cpu''),
      (''inference'', inference_doc (cfg_inference c)), (''safety_zone'', zone_doc (cfg_safety_zone c)),
      (''websocket'', websocket_doc (cfg_websocket c)), (''viewer'', viewer_doc (cfg_viewer c)),
      (''cameras'', Y_Seq (map camera_doc (cfg_cameras c)))]"

text \<open>
  The configurations a file can express: numbers in range, a class map of the two classes with the
  persons first, and the settings without a key at their defaults.
\<close>

definition class_map_listed :: "(int \<times> object_class) list \<Rightarrow> bool" where
  "class_map_listed m = (class_map_ok m \<and>
     m = map (\<lambda>i. (i, kPerson)) (class_indices kPerson m) @ map (\<lambda>i. (i, kForklift)) (class_indices kForklift m))"

definition camera_expressible :: "camera_entry \<Rightarrow> bool" where
  "camera_expressible e =
     (let p = ce_pipeline e
      in pc_frame_queue_capacity p < 2 ^ 31 \<and> pc_inference_workers p < 2 ^ 31 \<and> is_int (pc_alert_cooldown_ms p) \<and>
         p = default_pipeline_config\<lparr>pc_frame_queue_capacity := pc_frame_queue_capacity p,
           pc_inference_workers := pc_inference_workers p, pc_alert_cooldown_ms := pc_alert_cooldown_ms p,
           pc_enable_viewer := pc_enable_viewer p\<rparr> \<and>
         (case ce_source_type e of
            kRtsp \<Rightarrow> ce_video_file e = default_file_config \<and>
              ce_rtsp e = default_rtsp_config\<lparr>rc_camera_id := rc_camera_id (ce_rtsp e),
                rc_rtsp_url := rc_rtsp_url (ce_rtsp e)\<rparr>
          | kVideoFile \<Rightarrow> ce_rtsp e = default_rtsp_config \<and>
              ce_video_file e = default_file_config\<lparr>fc_camera_id := fc_camera_id (ce_video_file e),
                fc_file_path := fc_file_path (ce_video_file e), fc_loop := fc_loop (ce_video_file e)\<rparr>))"

definition config_expressible :: "system_config \<Rightarrow> bool" where
  "config_expressible c =
     (is_int (ic_input_width (cfg_inference c)) \<and> is_int (ic_input_height (cfg_inference c)) \<and>
      is_int (ic_max_detections (cfg_inference c)) \<and> class_map_listed (ic_class_map (cfg_inference c)) \<and>
      is_u16 (wc_port (cfg_websocket c)) \<and> viewer_ok (cfg_viewer c) \<and>
      is_int (cfg_inference_thread_pool_size c) \<and> list_all camera_expressible (cfg_cameras c))"

lemma text_parses [simp]:
  "parse_config_backend (backend_text b) = b"
  "parse_device (device_text d) = d"
  "parse_zone_mode (mode_text m) = m"
proof -
  show "parse_config_backend (backend_text b) = b" by (cases b) (simp_all add: parse_config_backend_def backend_text_def)
  show "parse_device (device_text d) = d" by (cases d) (simp_all add: parse_device_def device_text_def)
  show "parse_zone_mode (mode_text m) = m" by (cases m) (simp_all add: parse_zone_mode_def mode_text_def)
qed

lemma cast_u16_id: "is_u16 n \<Longrightarrow> cast_u16 n = n"
  by (simp add: is_u16_def cast_u16_def)

lemma is_u16_int: "is_u16 n \<Longrightarrow> is_int n"
  by (simp add: is_u16_def is_int_def)

lemma size_is_int: "n < 2 ^ 31 \<Longrightarrow> is_int (int n)"
  by (simp add: is_int_def)

lemma cast_size_id: "n < 2 ^ 31 \<Longrightarrow> cast_size (int n) = n"
  by (simp add: cast_size_value size_is_int)

lemma update_new: "i \<notin> fst ` set m \<Longrightarrow> AList.update i v m = m @ [(i, v)]"
  by (induction m) auto

subsection \<open>Reading it back\<close>

context yaml_tree begin

lemma get_or_key:
  "stands_for n (Y_Map kvs) \<Longrightarrow> map_of kvs k = Some (Y_Str s) \<Longrightarrow> get_or api (ya_string api) n k d = Inr s"
  "stands_for n (Y_Map kvs) \<Longrightarrow> map_of kvs k = Some (Y_Int i) \<Longrightarrow> is_int i \<Longrightarrow> get_or api (ya_int api) n k d' = Inr i"
  "stands_for n (Y_Map kvs) \<Longrightarrow> map_of kvs k = Some (Y_Float x) \<Longrightarrow> get_or api (ya_float api) n k d'' = Inr x"
  "stands_for n (Y_Map kvs) \<Longrightarrow> map_of kvs k = Some (Y_Bool b) \<Longrightarrow> get_or api (ya_bool api) n k d''' = Inr b"
  using get_key [of n kvs k "Y_Str s"] get_key [of n kvs k "Y_Int i"] get_key [of n kvs k "Y_Float x"]
    get_key [of n kvs k "Y_Bool b"] string_of int_of float_of bool_of
  by (auto simp: get_or_def)

lemma zone_back: "stands_for n (zone_doc c) \<Longrightarrow> load_zone api n c0 = Inr c"
  by (cases c) (simp add: load_zone_def zone_doc_def get_or_key [of n])

lemma websocket_back: "stands_for n (websocket_doc c) \<Longrightarrow> is_u16 (wc_port c) \<Longrightarrow> load_websocket api n c0 = Inr c"
  by (cases c) (simp add: load_websocket_def websocket_doc_def get_or_key [of n] cast_u16_id is_u16_int)

lemma viewer_back: "stands_for n (viewer_doc c) \<Longrightarrow> viewer_ok c \<Longrightarrow> load_viewer api n c0 = Inr c"
  by (cases c) (simp add: load_viewer_def viewer_doc_def get_or_key [of n] viewer_ok_def cast_u16_id is_u16_int)

lemma indices_back:
  "list_all2 stands_for ns (map Y_Int xs) \<Longrightarrow> list_all is_int xs \<Longrightarrow> distinct xs \<Longrightarrow>
   set xs \<inter> fst ` set m = {} \<Longrightarrow> add_indices api cls ns m = Inr (m @ map (\<lambda>i. (i, cls)) xs)"
proof (induction xs arbitrary: ns m)
  case (Cons i xs)
  then obtain n ns' where ns: "ns = n # ns'" "stands_for n (Y_Int i)" "list_all2 stands_for ns' (map Y_Int xs)"
    by (auto simp: list_all2_Cons2)
  with Cons.prems have "ya_int api n = Inr i" by (simp add: int_of)
  moreover have "add_indices api cls ns' (m @ [(i, cls)]) = Inr ((m @ [(i, cls)]) @ map (\<lambda>i. (i, cls)) xs)"
    using Cons.prems ns(3) by (intro Cons.IH) auto
  ultimately show ?case using Cons.prems ns(1) by (simp add: update_new)
qed simp

lemma class_back:
  assumes "stands_for n (Y_Map kvs)" "map_of kvs key = Some (Y_Seq (map Y_Int xs))"
    and "list_all is_int xs" "distinct xs" "set xs \<inter> fst ` set m = {}"
  shows "add_class api n key cls m = Inr (m @ map (\<lambda>i. (i, cls)) xs)"
proof -
  obtain c where c: "ya_get api n key = Inr (Some c)" "stands_for c (Y_Seq (map Y_Int xs))"
    using get_key [OF assms(1,2)] by blast
  obtain ns where "ya_items api c = Inr ns" "list_all2 stands_for ns (map Y_Int xs)"
    using items [OF c(2)] by blast
  with c(1) show ?thesis by (simp add: add_class_def indices_back assms(3-5))
qed

lemma classes_back:
  assumes "stands_for n (Y_Map kvs)" "class_map_listed m"
    and "map_of kvs ''person'' = Some (Y_Seq (map Y_Int (class_indices kPerson m)))"
    and "map_of kvs ''forklift'' = Some (Y_Seq (map Y_Int (class_indices kForklift m)))"
  shows "bind_exn (add_class api n ''person'' kPerson []) (add_class api n ''forklift'' kForklift) = Inr m"
proof -
  let ?ps = "class_indices kPerson m" and ?fs = "class_indices kForklift m"
  have m: "m = map (\<lambda>i. (i, kPerson)) ?ps @ map (\<lambda>i. (i, kForklift)) ?fs" and ok: "class_map_ok m"
    using assms(2) by (simp_all add: class_map_listed_def)
  have keys: "map fst m = ?ps @ ?fs" by (subst m) (simp add: comp_def)
  have "distinct (?ps @ ?fs)" "list_all is_int (map fst m)"
    using ok by (auto simp: class_map_ok_def list_all_iff simp flip: keys)
  then have idx: "distinct ?ps" "distinct ?fs" "set ?fs \<inter> set ?ps = {}" "list_all is_int ?ps" "list_all is_int ?fs"
    by (auto simp: keys)
  have "add_class api n ''person'' kPerson [] = Inr ([] @ map (\<lambda>i. (i, kPerson)) ?ps)"
    by (rule class_back [OF assms(1,3)]) (simp_all add: idx)
  moreover have "add_class api n ''forklift'' kForklift (map (\<lambda>i. (i, kPerson)) ?ps) = Inr m"
    using class_back [OF assms(1,4) idx(5,2), of "map (\<lambda>i. (i, kPerson)) ?ps" kForklift] idx(3) m
    by (simp add: image_image)
  ultimately show ?thesis by simp
qed

lemma inference_back:
  assumes "stands_for n (inference_doc c)" "stands_for root (Y_Map kvs)" "map_of kvs ''device'' = Some (Y_Str dev)"
    and "is_int (ic_input_width c)" "is_int (ic_input_height c)" "is_int (ic_max_detections c)"
    and "class_map_listed (ic_class_map c)" "ic_class_map c0 = []"
  shows "load_inference api root n c0 = Inr c"
proof -
  note doc = assms(1) [unfolded inference_doc_def]
  obtain classes where classes: "ya_get api n ''classes'' = Inr (Some classes)"
    "stands_for classes (Y_Map
       [(''person'', Y_Seq (map Y_Int (class_indices kPerson (ic_class_map c)))),
        (''forklift'', Y_Seq (map Y_Int (class_indices kForklift (ic_class_map c))))])"
    using get_key [OF doc, of "''classes''"] by auto
  have "bind_exn (add_class api classes ''person'' kPerson []) (add_class api classes ''forklift'' kForklift) =
      Inr (ic_class_map c)"
    by (rule classes_back [OF classes(2) assms(7)]) simp_all
  then show ?thesis
    using assms(4-6,8) classes(1)
    by (cases c) (simp add: load_inference_def get_or_key [OF doc] get_or_key(1) [OF assms(2,3)])
qed

lemma camera_back:
  assumes "stands_for n (camera_doc e)" "camera_expressible e"
  shows "load_camera api n = Inr e"
proof -
  note doc = assms(1) [unfolded camera_doc_def source_entries_def]
  define p where "p = ce_pipeline e"
  have p: "pc_frame_queue_capacity p < 2 ^ 31" "pc_inference_workers p < 2 ^ 31" "is_int (pc_alert_cooldown_ms p)"
    "default_pipeline_config\<lparr>pc_frame_queue_capacity := pc_frame_queue_capacity p,
       pc_inference_workers := pc_inference_workers p, pc_alert_cooldown_ms := pc_alert_cooldown_ms p,
       pc_enable_viewer := pc_enable_viewer p\<rparr> = p"
    using assms(2) by (simp_all add: camera_expressible_def p_def Let_def)
  have source: "load_source api n default_camera_entry = Inr (e\<lparr>ce_pipeline := default_pipeline_config\<rparr>)"
  proof (cases "ce_source_type e")
    case kRtsp
    with assms(2) have e: "ce_video_file e = default_file_config"
      "default_rtsp_config\<lparr>rc_camera_id := rc_camera_id (ce_rtsp e), rc_rtsp_url := rc_rtsp_url (ce_rtsp e)\<rparr> = ce_rtsp e"
      by (simp_all add: camera_expressible_def Let_def)
    from kRtsp show ?thesis
      using doc e by (cases e) (simp add: load_source_def get_or_key [of n] default_camera_entry_def)
  next
    case kVideoFile
    with assms(2) have e: "ce_rtsp e = default_rtsp_config"
      "default_file_config\<lparr>fc_camera_id := fc_camera_id (ce_video_file e),
         fc_file_path := fc_file_path (ce_video_file e), fc_loop := fc_loop (ce_video_file e)\<rparr> = ce_video_file e"
      by (simp_all add: camera_expressible_def Let_def)
    from kVideoFile show ?thesis
      using doc e by (cases e) (simp add: load_source_def get_or_key [of n] default_camera_entry_def)
  qed
  have "load_camera api n = Inr (e\<lparr>ce_pipeline := p\<rparr>)"
    using p assms(1)
    by (simp add: load_camera_def source camera_doc_def get_or_key [of n] size_is_int cast_size_id flip: p_def)
  then show ?thesis by (simp add: p_def)
qed

lemma cameras_back:
  "list_all2 stands_for ns (map camera_doc es) \<Longrightarrow> list_all camera_expressible es \<Longrightarrow>
   load_cameras api ns acc = Inr (acc @ es)"
proof (induction es arbitrary: ns acc)
  case (Cons e es)
  then obtain n ns' where ns: "ns = n # ns'" "stands_for n (camera_doc e)" "list_all2 stands_for ns' (map camera_doc es)"
    by (auto simp: list_all2_Cons2)
  with Cons show ?case by (simp add: camera_back)
qed simp

lemma section_back:
  assumes "stands_for root (Y_Map kvs)" "map_of kvs key = Some d" "\<And>n. stands_for n d \<Longrightarrow> load n = Inr v"
  shows "section_of api root key load absent = Inr v"
proof -
  obtain c where "ya_get api root key = Inr (Some c)" "stands_for c d" using get_key [OF assms(1,2)] by blast
  with assms(3) show ?thesis by (simp add: section_of_def)
qed

lemma document_back:
  assumes "ya_load api path = Inr root" "stands_for root (config_doc c)" "config_expressible c"
  shows "load_from_yaml True api path = Inr c"
proof -
  note doc = assms(2) [unfolded config_doc_def]
  note ok = assms(3) [unfolded config_expressible_def]
  have "section_of api root ''inference'' (\<lambda>n. load_inference api root n default_inference_config)
      default_inference_config = Inr (cfg_inference c)"
    by (rule section_back [OF doc]) (use ok in \<open>auto intro: inference_back [OF _ doc] simp: default_inference_config_def\<close>)
  moreover have "section_of api root ''safety_zone'' (\<lambda>n. load_zone api n default_safety_zone_config)
      default_safety_zone_config = Inr (cfg_safety_zone c)"
    by (rule section_back [OF doc]) (auto intro: zone_back)
  moreover have "section_of api root ''websocket'' (\<lambda>n. load_websocket api n default_ws_config) default_ws_config =
      Inr (cfg_websocket c)"
    by (rule section_back [OF doc]) (use ok in \<open>auto intro: websocket_back\<close>)
  moreover have "section_of api root ''viewer'' (\<lambda>n. load_viewer api n default_viewer_config) default_viewer_config =
      Inr (cfg_viewer c)"
    by (rule section_back [OF doc]) (use ok in \<open>auto intro: viewer_back\<close>)
  moreover have "section_of api root ''cameras''
      (\<lambda>cams. bind_exn (ya_items api cams) (\<lambda>cs. load_cameras api cs [])) [] = Inr (cfg_cameras c)"
  proof (rule section_back [OF doc])
    fix n
    assume "stands_for n (Y_Seq (map camera_doc (cfg_cameras c)))"
    then obtain cs where "ya_items api n = Inr cs" "list_all2 stands_for cs (map camera_doc (cfg_cameras c))"
      using items by blast
    with ok show "bind_exn (ya_items api n) (\<lambda>cs. load_cameras api cs []) = Inr (cfg_cameras c)"
      by (simp add: cameras_back)
  qed simp
  moreover have "is_int (cfg_inference_thread_pool_size c)" using ok by simp
  ultimately show ?thesis
    using assms(1)
    by (cases c) (simp add: load_from_yaml_def load_document_def default_system_config_def Let_def get_or_key [OF doc])
qed

end

text \<open>
  C29: The configuration round-trips: a configuration that a file can express, written as a
  document with one entry for every setting, is loaded back as it is, so that every setting of
  every section is read under its own key, converted without loss and stored in its own field.
\<close>

theorem config_roundtrip:
  assumes "yaml_tree api stands_for" "ya_load api path = Inr root" "stands_for root (config_doc cfg)"
    and "config_expressible cfg"
  shows "load_from_yaml True api path = Inr cfg"
  by (rule yaml_tree.document_back [OF assms])

subsection \<open>A concrete library\<close>

text \<open>Documents as nodes.\<close>

definition tree_yaml :: "yaml_doc \<Rightarrow> yaml_doc yaml_api" where
  "tree_yaml root =
     \<lparr>ya_load = (\<lambda>path. Inr root),
      ya_get = (\<lambda>n k. case n of Y_Map kvs \<Rightarrow> Inr (map_of kvs k) | _ \<Rightarrow> Inl ''operator[] call on a scalar''),
      ya_items = (\<lambda>n. case n of Y_Seq ds \<Rightarrow> Inr ds | _ \<Rightarrow> Inr []),
      ya_string = (\<lambda>n. case n of Y_Str s \<Rightarrow> Inr s | _ \<Rightarrow> Inl ''bad conversion''),
      ya_int = (\<lambda>n. case n of Y_Int i \<Rightarrow> (if is_int i then Inr i else Inl ''bad conversion'') | _ \<Rightarrow> Inl ''bad conversion''),
      ya_float = (\<lambda>n. case n of Y_Float x \<Rightarrow> Inr x | _ \<Rightarrow> Inl ''bad conversion''),
      ya_bool = (\<lambda>n. case n of Y_Bool b \<Rightarrow> Inr b | _ \<Rightarrow> Inl ''bad conversion'')\<rparr>"

interpretation tree: yaml_tree "tree_yaml root" "\<lambda>n d. n = d"
  by unfold_locales (auto simp: tree_yaml_def list.rel_eq)

definition sample_config :: system_config where
  "sample_config =
     default_system_config\<lparr>cfg_backend := kTensorRT,
       cfg_inference := default_inference_config\<lparr>ic_device := kCuda, ic_class_map := [(0, kPerson), (2, kForklift), (7, kForklift)]\<rparr>,
       cfg_websocket := default_ws_config\<lparr>wc_port := 9000\<rparr>,
       cfg_cameras := [default_camera_entry\<lparr>ce_source_type := kVideoFile,
         ce_video_file := default_file_config\<lparr>fc_camera_id := ''dock'', fc_file_path := ''dock.mp4'', fc_loop := False\<rparr>,
         ce_pipeline := default_pipeline_config\<lparr>pc_enable_viewer := True\<rparr>\<rparr>]\<rparr>"

theorem config_roundtrip_witness:
  "load_from_yaml True (tree_yaml (config_doc sample_config)) ''system.yaml'' = Inr sample_config"
proof (rule config_roundtrip [OF tree.yaml_tree_axioms _ refl])
  show "ya_load (tree_yaml (config_doc sample_config)) ''system.yaml'' = Inr (config_doc sample_config)"
    by (simp add: tree_yaml_def)
  show "config_expressible sample_config"
    by (simp add: config_expressible_def sample_config_def default_system_config_def default_inference_config_def
        class_map_listed_def class_map_ok_def class_indices_def default_ws_config_def default_viewer_config_def
        viewer_ok_def camera_expressible_def default_camera_entry_def default_file_config_def
        default_pipeline_config_def is_u16_def is_int_def)
qed

end
