(* ===== verification/Overlay.thy ===== *)
theory Overlay
  imports Domain Video_Source
begin

text \<open>
  \<^verbatim>\<open>OverlayFrameAnnotator\<close> (\<^verbatim>\<open>src/infrastructure/render/OverlayFrameAnnotator.cpp\<close>): the boxes, zones and
  labels it draws on a copy of a frame.  The drawing itself is OpenCV's: an image with the effect
  of a drawing call on it, the copy and the size of an image and the size of a text are parameters;
  what the code decides is which calls are made, with which arguments, in which order.
\<close>

subsection \<open>Drawing calls\<close>

record rect =
  r_x :: int
  r_y :: int
  r_width :: int
  r_height :: int

type_synonym scalar = "int \<times> int \<times> int"
type_synonym point = "int \<times> int"

definition kPersonColor :: scalar where "kPersonColor = (0, 200, 0)"
definition kForkliftColor :: scalar where "kForkliftColor = (0, 165, 255)"
definition kZoneColor :: scalar where "kZoneColor = (0, 0, 255)"
definition kTextColor :: scalar where "kTextColor = (255, 255, 255)"

datatype draw_call =
    Rectangle rect scalar int
  | Filled point point scalar
  | Put_Text string point scalar

text \<open>The text size is width, height and baseline for the font, scale and thickness of the code.\<close>

record 'm draw_api =
  da_clone :: "'m \<Rightarrow> 'm"
  da_empty :: "'m \<Rightarrow> bool"
  da_size :: "'m \<Rightarrow> int \<times> int"
  da_draw :: "draw_call \<Rightarrow> 'm \<Rightarrow> 'm"
  da_text_size :: "string \<Rightarrow> int \<times> int \<times> int"

definition to_rect :: "bounding_box \<Rightarrow> int \<times> int \<Rightarrow> rect run" where
  "to_rect b bounds =
     (case f32_to_int (bb_x b) of Inl e \<Rightarrow> Inl e | Inr x0 \<Rightarrow>
      case f32_to_int (bb_y b) of Inl e \<Rightarrow> Inl e | Inr y0 \<Rightarrow>
      case f32_to_int (bb_width b) of Inl e \<Rightarrow> Inl e | Inr w0 \<Rightarrow>
      case f32_to_int (bb_height b) of Inl e \<Rightarrow> Inl e | Inr h0 \<Rightarrow>
        let x = max 0 (min x0 (fst bounds - 1));
            y = max 0 (min y0 (snd bounds - 1));
            w = max 0 (min w0 (fst bounds - x));
            h = max 0 (min h0 (snd bounds - y))
        in Inr \<lparr>r_x = x, r_y = y, r_width = w, r_height = h\<rparr>)"

definition draw_label :: "'m draw_api \<Rightarrow> rect \<Rightarrow> string \<Rightarrow> scalar \<Rightarrow> 'm \<Rightarrow> 'm" where
  "draw_label api box text color img =
     (case da_text_size api text of (width, height, baseline) \<Rightarrow>
        let top = max (r_y box) (height + 4)
        in da_draw api (Put_Text text (r_x box, top) kTextColor)
             (da_draw api (Filled (r_x box, top + baseline) (r_x box + width, top - height) color) img))"

fun draw_zones :: "'m draw_api \<Rightarrow> int \<times> int \<Rightarrow> safety_zone list \<Rightarrow> 'm \<Rightarrow> 'm run" where
  "draw_zones api bounds [] img = Inr img"
| "draw_zones api bounds (z # zs) img =
     (case to_rect (sz_zone_box z) bounds of Inl e \<Rightarrow> Inl e | Inr zone \<Rightarrow>
      case to_rect (sz_forklift_box z) bounds of Inl e \<Rightarrow> Inl e | Inr forklift \<Rightarrow>
        draw_zones api bounds zs
          (da_draw api (Rectangle forklift kForkliftColor 2)
             (da_draw api (Rectangle zone kZoneColor 2) img)))"

definition label_of :: "detection \<Rightarrow> string run" where
  "label_of d =
     (case f32_to_int (det_confidence d * px 100) of
        Inl e \<Rightarrow> Inl e
      | Inr percent \<Rightarrow> Inr (object_class_to_string (det_cls d) @ '' '' @ dec_int percent @ ''%''))"

definition color_of :: "detection \<Rightarrow> scalar" where
  "color_of d = (if det_cls d = kPerson then kPersonColor else kForkliftColor)"

fun draw_detections :: "'m draw_api \<Rightarrow> int \<times> int \<Rightarrow> detection list \<Rightarrow> 'm \<Rightarrow> 'm run" where
  "draw_detections api bounds [] img = Inr img"
| "draw_detections api bounds (d # ds) img =
     (case to_rect (det_box d) bounds of Inl e \<Rightarrow> Inl e | Inr rect \<Rightarrow>
      case label_of d of Inl e \<Rightarrow> Inl e | Inr label \<Rightarrow>
        draw_detections api bounds ds
          (draw_label api rect label (color_of d)
             (da_draw api (Rectangle rect (color_of d) 2) img)))"

definition annotate ::
  "'m draw_api \<Rightarrow> 'm frame \<Rightarrow> detection list \<Rightarrow> safety_zone list \<Rightarrow> 'm frame run"
where
  "annotate api f detections zones =
     (let out = f\<lparr>fr_image := da_clone api (fr_image f)\<rparr>
      in if da_empty api (fr_image out) then Inr out
         else let bounds = da_size api (fr_image out)
              in case draw_zones api bounds zones (fr_image out) of
                   Inl e \<Rightarrow> Inl e
                 | Inr img \<Rightarrow>
                     (case draw_detections api bounds detections img of
                        Inl e \<Rightarrow> Inl e
                      | Inr img' \<Rightarrow> Inr (out\<lparr>fr_image := img'\<rparr>)))"

subsection \<open>Which calls are made\<close>

text \<open>A rectangle inside the image, and the calls a list of zones and detections stands for.\<close>

definition inside :: "int \<times> int \<Rightarrow> rect \<Rightarrow> bool" where
  "inside bounds r = (0 \<le> r_x r \<and> 0 \<le> r_y r \<and> 0 \<le> r_width r \<and> 0 \<le> r_height r \<and>
     r_x r + r_width r \<le> fst bounds \<and> r_y r + r_height r \<le> snd bounds)"

fun call_inside :: "int \<times> int \<Rightarrow> draw_call \<Rightarrow> bool" where
  "call_inside bounds (Rectangle r c t) = inside bounds r"
| "call_inside bounds (Filled p q c) = (0 \<le> fst p \<and> fst p < fst bounds \<and> 4 \<le> snd q)"
| "call_inside bounds (Put_Text s p c) = (0 \<le> fst p \<and> fst p < fst bounds)"

definition label_calls :: "'m draw_api \<Rightarrow> rect \<Rightarrow> string \<Rightarrow> scalar \<Rightarrow> draw_call list" where
  "label_calls api box text color =
     (case da_text_size api text of (width, height, baseline) \<Rightarrow>
        let top = max (r_y box) (height + 4)
        in [Filled (r_x box, top + baseline) (r_x box + width, top - height) color,
            Put_Text text (r_x box, top) kTextColor])"

lemma draw_label_calls: "draw_label api box text color img = fold (da_draw api) (label_calls api box text color) img"
  by (simp add: draw_label_def label_calls_def Let_def split: prod.splits)

lemma clamp_pos: "0 < n \<Longrightarrow> 0 \<le> max 0 (min a (n - 1)) \<and> max 0 (min a (n - 1)) < n" for a n :: int
  by linarith

lemma clamp_size: "x < n \<Longrightarrow> 0 \<le> max 0 (min a (n - x)) \<and> x + max 0 (min a (n - x)) \<le> n" for a n x :: int
  by linarith

lemma to_rect_inside:
  assumes "to_rect b bounds = Inr r" "0 < fst bounds" "0 < snd bounds"
  shows "inside bounds r \<and> r_x r < fst bounds \<and> r_y r < snd bounds"
proof -
  obtain x0 y0 w h where ints: "f32_to_int (bb_x b) = Inr x0" "f32_to_int (bb_y b) = Inr y0"
    "f32_to_int (bb_width b) = Inr w" "f32_to_int (bb_height b) = Inr h"
    using assms(1) unfolding to_rect_def by (simp split: sum.splits)
  let ?x = "max 0 (min x0 (fst bounds - 1))" and ?y = "max 0 (min y0 (snd bounds - 1))"
  have r: "r = \<lparr>r_x = ?x, r_y = ?y, r_width = max 0 (min w (fst bounds - ?x)), r_height = max 0 (min h (snd bounds - ?y))\<rparr>"
    using assms(1) by (simp only: to_rect_def ints sum.case Let_def sum.inject)
  note x = clamp_pos [OF assms(2), of x0] and y = clamp_pos [OF assms(3), of y0]
  from x y clamp_size [OF conjunct2 [OF x], of w] clamp_size [OF conjunct2 [OF y], of h] show ?thesis
    unfolding inside_def r by (simp only: rect.select_convs)
qed

lemma to_rect_exact:
  assumes "0 \<le> x" "0 \<le> y" "0 \<le> w" "0 \<le> h" "x + w \<le> fst bounds" "y + h \<le> snd bounds"
    and "x < fst bounds" "y < snd bounds" "fst bounds < 2 ^ 31" "snd bounds < 2 ^ 31"
  shows "to_rect (pixel_box x y w h) bounds = Inr \<lparr>r_x = x, r_y = y, r_width = w, r_height = h\<rparr>"
  using assms by (simp add: to_rect_def pixel_box_def f32_to_int_px Let_def)

text \<open>The calls for the zones, then those for the detections.\<close>

definition zone_calls :: "int \<times> int \<Rightarrow> safety_zone \<Rightarrow> draw_call list run" where
  "zone_calls bounds z =
     (case to_rect (sz_zone_box z) bounds of Inl e \<Rightarrow> Inl e | Inr zone \<Rightarrow>
      case to_rect (sz_forklift_box z) bounds of Inl e \<Rightarrow> Inl e | Inr forklift \<Rightarrow>
        Inr [Rectangle zone kZoneColor 2, Rectangle forklift kForkliftColor 2])"

definition detection_calls :: "'m draw_api \<Rightarrow> int \<times> int \<Rightarrow> detection \<Rightarrow> draw_call list run" where
  "detection_calls api bounds d =
     (case to_rect (det_box d) bounds of Inl e \<Rightarrow> Inl e | Inr rect \<Rightarrow>
      case label_of d of Inl e \<Rightarrow> Inl e | Inr label \<Rightarrow>
        Inr (Rectangle rect (color_of d) 2 # label_calls api rect label (color_of d)))"

lemma draw_zones_calls:
  "draw_zones api bounds zs img = Inr img' \<Longrightarrow>
   \<exists>css. list_all2 (\<lambda>z cs. zone_calls bounds z = Inr cs) zs css \<and> img' = fold (da_draw api) (concat css) img"
proof (induction zs arbitrary: img)
  case (Cons z zs)
  then obtain zone forklift where rects: "to_rect (sz_zone_box z) bounds = Inr zone"
    "to_rect (sz_forklift_box z) bounds = Inr forklift"
    and rest: "draw_zones api bounds zs (da_draw api (Rectangle forklift kForkliftColor 2)
      (da_draw api (Rectangle zone kZoneColor 2) img)) = Inr img'"
    by (auto split: sum.splits)
  from Cons.IH [OF rest] obtain css where css: "list_all2 (\<lambda>z cs. zone_calls bounds z = Inr cs) zs css"
    "img' = fold (da_draw api) (concat css) (da_draw api (Rectangle forklift kForkliftColor 2)
      (da_draw api (Rectangle zone kZoneColor 2) img))" by blast
  let ?cs = "[Rectangle zone kZoneColor 2, Rectangle forklift kForkliftColor 2]"
  have "list_all2 (\<lambda>z cs. zone_calls bounds z = Inr cs) (z # zs) (?cs # css) \<and>
    img' = fold (da_draw api) (concat (?cs # css)) img"
    using css rects by (simp add: zone_calls_def)
  then show ?case by blast
qed simp

lemma draw_detections_calls:
  "draw_detections api bounds ds img = Inr img' \<Longrightarrow>
   \<exists>css. list_all2 (\<lambda>d cs. detection_calls api bounds d = Inr cs) ds css \<and>
     img' = fold (da_draw api) (concat css) img"
proof (induction ds arbitrary: img)
  case (Cons d ds)
  then obtain rect label where rects: "to_rect (det_box d) bounds = Inr rect" "label_of d = Inr label"
    and rest: "draw_detections api bounds ds (draw_label api rect label (color_of d)
      (da_draw api (Rectangle rect (color_of d) 2) img)) = Inr img'"
    by (auto split: sum.splits)
  from Cons.IH [OF rest] obtain css where css: "list_all2 (\<lambda>d cs. detection_calls api bounds d = Inr cs) ds css"
    "img' = fold (da_draw api) (concat css) (draw_label api rect label (color_of d)
      (da_draw api (Rectangle rect (color_of d) 2) img))" by blast
  let ?cs = "Rectangle rect (color_of d) 2 # label_calls api rect label (color_of d)"
  have "list_all2 (\<lambda>d cs. detection_calls api bounds d = Inr cs) (d # ds) (?cs # css) \<and>
    img' = fold (da_draw api) (concat (?cs # css)) img"
    using css rects by (simp add: detection_calls_def draw_label_calls)
  then show ?case by blast
qed simp

lemma zone_calls_inside:
  "zone_calls bounds z = Inr cs \<Longrightarrow> 0 < fst bounds \<Longrightarrow> 0 < snd bounds \<Longrightarrow> list_all (call_inside bounds) cs"
  by (auto simp: zone_calls_def split: sum.splits dest: to_rect_inside)

lemma detection_calls_inside:
  assumes "detection_calls api bounds d = Inr cs" "0 < fst bounds" "0 < snd bounds"
  shows "list_all (call_inside bounds) cs"
proof -
  obtain rect label where r: "to_rect (det_box d) bounds = Inr rect" "label_of d = Inr label"
    and cs: "cs = Rectangle rect (color_of d) 2 # label_calls api rect label (color_of d)"
    using assms(1) by (auto simp: detection_calls_def split: sum.splits)
  from to_rect_inside [OF r(1) assms(2,3)] show ?thesis
    by (auto simp: cs label_calls_def Let_def inside_def split: prod.splits)
qed


subsection \<open>A concrete frame\<close>

text \<open>An image that records the calls made on it.\<close>

definition demo_draw_api :: "draw_call list draw_api" where
  "demo_draw_api =
     \<lparr>da_clone = (\<lambda>m. m), da_empty = (\<lambda>m. False), da_size = (\<lambda>m. (640, 480)), da_draw = (\<lambda>c m. m @ [c]),
      da_text_size = (\<lambda>s. (8 * int (length s), 10, 3))\<rparr>"

definition demo_canvas :: "draw_call list frame" where
  "demo_canvas = \<lparr>fr_camera_id = ''dock'', fr_sequence = 1, fr_captured_at = 0, fr_image = []\<rparr>"

definition demo_person :: detection where
  "demo_person =
     \<lparr>det_box = pixel_box 600 (-5) 100 50, det_cls = kPerson, det_confidence = f32_lit 1 2, det_track_id = -1\<rparr>"

lemma demo_annotated:
  "annotate demo_draw_api demo_canvas [demo_person] [] =
     Inr (demo_canvas\<lparr>fr_image :=
       [Rectangle \<lparr>r_x = 600, r_y = 0, r_width = 40, r_height = 50\<rparr> kPersonColor 2,
        Filled (600, 17) (680, 4) kPersonColor, Put_Text ''person 50%'' (600, 14) kTextColor]\<rparr>)"
  by code_simp


end
