(* ===== verification/Application.thy ===== *)
theory Application
  imports Pipeline_Threads Onnx_Engine Config_Loader
begin

text \<open>
  The composition root (\<^verbatim>\<open>src/interface/main.cpp\<close>): the command line, the set-up of the publisher, the
  viewer and one pipeline per camera from the loaded configuration with its exit codes, and the
  running system, in which the pipelines' threads, the network and the shutdown of \<open>main\<close> interleave.
\<close>

subsection \<open>Video sources behind their port\<close>

text \<open>A \<^verbatim>\<open>shared_ptr<VideoSource>\<close> points to one of the two adapters; a call is dispatched on it.\<close>

datatype 'c camera_source = Rtsp_Source "'c rtsp_source" | File_Source "'c file_source"

definition camera_ops :: "('c, 'm) capture_api \<Rightarrow> ('c camera_source, 'm) source_ops" where
  "camera_ops api =
     \<lparr>so_open = (\<lambda>now s. case s of
          Rtsp_Source r \<Rightarrow> map_sum id (map_prod id Rtsp_Source) (so_open (rtsp_ops api) now r)
        | File_Source f \<Rightarrow> map_sum id (map_prod id File_Source) (so_open (file_ops api) now f)),
      so_close = (\<lambda>s. case s of
          Rtsp_Source r \<Rightarrow> Rtsp_Source (so_close (rtsp_ops api) r)
        | File_Source f \<Rightarrow> File_Source (so_close (file_ops api) f)),
      so_is_open = (\<lambda>s. case s of
          Rtsp_Source r \<Rightarrow> so_is_open (rtsp_ops api) r
        | File_Source f \<Rightarrow> so_is_open (file_ops api) f),
      so_read = (\<lambda>t s. case s of
          Rtsp_Source r \<Rightarrow> map_prod id Rtsp_Source (so_read (rtsp_ops api) t r)
        | File_Source f \<Rightarrow> map_prod id File_Source (so_read (file_ops api) t f)),
      so_camera_id = (\<lambda>s. case s of
          Rtsp_Source r \<Rightarrow> so_camera_id (rtsp_ops api) r
        | File_Source f \<Rightarrow> so_camera_id (file_ops api) f)\<rparr>"

definition camera_seq :: "'c camera_source \<Rightarrow> 64 word" where
  "camera_seq s = (case s of Rtsp_Source r \<Rightarrow> rs_sequence r | File_Source f \<Rightarrow> fs_sequence f)"

interpretation camera: video_source "camera_ops api" "vc_mat_empty api" camera_seq
proof
  fix s and s' :: "'a camera_source" and t f r now
  show "\<not> so_is_open (camera_ops api) s \<Longrightarrow> so_read (camera_ops api) t s = (None, s)"
    by (auto simp: camera_ops_def rtsp.read_closed video_file.read_closed split: camera_source.splits)
  show "so_read (camera_ops api) t s = (Some f, s') \<Longrightarrow>
      fr_camera_id f = so_camera_id (camera_ops api) s \<and> fr_sequence f = camera_seq s + 1 \<and>
      fr_captured_at f = snd t \<and> \<not> frame_empty (vc_mat_empty api) f \<and>
      camera_seq s' = fr_sequence f \<and> so_camera_id (camera_ops api) s' = so_camera_id (camera_ops api) s"
    by (auto simp: camera_ops_def camera_seq_def map_prod_def
        split: camera_source.splits prod.splits dest!: rtsp.read_frame video_file.read_frame)
  show "so_read (camera_ops api) t s = (None, s') \<Longrightarrow>
      camera_seq s' = camera_seq s \<and> so_camera_id (camera_ops api) s' = so_camera_id (camera_ops api) s"
    by (auto simp: camera_ops_def camera_seq_def map_prod_def
        split: camera_source.splits prod.splits dest!: rtsp.read_none video_file.read_none)
  show "so_open (camera_ops api) now s = Inr (r, s') \<Longrightarrow>
      camera_seq s' = camera_seq s \<and> so_camera_id (camera_ops api) s' = so_camera_id (camera_ops api) s \<and>
      (vr_ok r \<or> err_code (vr_err r) = 1)"
    by (cases s; cases "so_open (rtsp_ops api) now (case s of Rtsp_Source x \<Rightarrow> x | _ \<Rightarrow> undefined)";
        cases "so_open (file_ops api) now (case s of File_Source x \<Rightarrow> x | _ \<Rightarrow> undefined)")
      (auto simp: camera_ops_def camera_seq_def dest!: rtsp.open_keeps video_file.open_keeps)
  show "camera_seq (so_close (camera_ops api) s) = camera_seq s"
    "so_camera_id (camera_ops api) (so_close (camera_ops api) s) = so_camera_id (camera_ops api) s"
    by (auto simp: camera_ops_def camera_seq_def rtsp.close_keeps video_file.close_keeps
        split: camera_source.splits)
qed

subsection \<open>Set-up\<close>

text \<open>\<open>for (i = 1; i < argc - 1; ++i) if (key == argv[i]) return argv[i + 1]\<close>.\<close>

fun find_arg_loop :: "string list \<Rightarrow> string \<Rightarrow> string \<Rightarrow> string" where
  "find_arg_loop (a # b # rest) key fallback =
     (if key = a then b else find_arg_loop (b # rest) key fallback)"
| "find_arg_loop _ key fallback = fallback"

definition find_arg :: "string list \<Rightarrow> string \<Rightarrow> string \<Rightarrow> string" where
  "find_arg argv key fallback = find_arg_loop (tl argv) key fallback"

text \<open>
  What the program is linked and run with: the YAML library, the sockets, the runtime behind the
  first, second and further engine, the video captures and the clock reading of the publisher's
  constructor.
\<close>

record ('n, 'c, 'm) platform =
  pf_have_yaml :: bool
  pf_yaml :: "'n yaml_api"
  pf_ws_bind :: "string \<Rightarrow> int \<Rightarrow> string + unit"
  pf_viewer_bind :: "string \<Rightarrow> int \<Rightarrow> string + unit"
  pf_with_onnx :: bool
  pf_engine :: "nat \<Rightarrow> 'm engine_api"
  pf_capture :: "('c, 'm) capture_api"
  pf_capture_new :: 'c
  pf_now :: int

text \<open>\<^verbatim>\<open>nullptr\<close> is \<open>None\<close>.\<close>

definition make_engine :: "bool \<Rightarrow> inference_backend \<Rightarrow> onnx_engine option" where
  "make_engine with_onnx b =
     (let kind = (if b = kTensorRT then Onnx_Engine.kTensorRT else Onnx_Engine.kOnnxRuntime)
      in result_value (make_inference_engine with_onnx kind))"

definition make_source :: "'c \<Rightarrow> camera_entry \<Rightarrow> 'c camera_source" where
  "make_source cap cam =
     (if ce_source_type cam = kVideoFile then File_Source (file_new (ce_video_file cam) cap)
      else Rtsp_Source (rtsp_new (ce_rtsp cam) cap))"

text \<open>A pipeline with what it was built from, its threads and their trace.\<close>

record ('c, 'm) camera_pipe =
  cp_cfg :: pipeline_config
  cp_deps :: "'m pipeline_deps"
  cp_source :: "'c camera_source"
  cp_state :: "('c camera_source, 'm) pipeline \<times> 'm trace"

definition make_deps ::
  "('n, 'c, 'm) platform \<Rightarrow> system_config \<Rightarrow> ws_publisher \<Rightarrow> nat \<Rightarrow> onnx_engine \<Rightarrow> 'c camera_source \<Rightarrow>
   'm pipeline_deps"
where
  "make_deps pf cfg publisher k engine source =
     \<lparr>pd_camera_id = so_camera_id (camera_ops (pf_capture pf)) source,
      pd_infer = onnx_infer (pf_engine pf k) engine,
      pd_risk = cfg_safety_zone cfg,
      pd_publish = (\<lambda>a. fst (ws_publish 0 a publisher)),
      pd_stream = False, pd_detection_stream = False, pd_zone_service = None,
      pd_mat_empty = vc_mat_empty (pf_capture pf),
      pd_mat_size = (\<lambda>m. (ea_cols (pf_engine pf k) m, ea_rows (pf_engine pf k) m))\<rparr>"

text \<open>One round of the loop over the cameras; \<open>None\<close> is \<open>return 2\<close>.\<close>

definition setup_camera ::
  "('n, 'c, 'm) platform \<Rightarrow> system_config \<Rightarrow> ws_publisher \<Rightarrow> bool \<Rightarrow> nat \<Rightarrow> camera_entry \<Rightarrow>
   ('c, 'm) camera_pipe option"
where
  "setup_camera pf cfg publisher viewer k cam =
     (let source = make_source (pf_capture_new pf) cam
      in case make_engine (pf_with_onnx pf) (cfg_backend cfg) of
           None \<Rightarrow> None
         | Some engine \<Rightarrow>
             (case onnx_initialize (pf_engine pf k) (cfg_inference cfg) engine of (r, engine') \<Rightarrow>
                if \<not> vr_ok r then None
                else let deps = make_deps pf cfg publisher k engine' source;
                         deps' = (if viewer \<and> pc_enable_viewer (ce_pipeline cam)
                                  then enable_viewer True True (Some (cfg_safety_zone cfg)) deps else deps)
                     in Some \<lparr>cp_cfg = ce_pipeline cam, cp_deps = deps', cp_source = source,
                              cp_state = (pl_start (ce_pipeline cam) (pl_new (ce_pipeline cam) source), no_trace)\<rparr>))"

text \<open>The loop keeps the pipelines started so far when it returns early.\<close>

fun setup_cameras ::
  "('n, 'c, 'm) platform \<Rightarrow> system_config \<Rightarrow> ws_publisher \<Rightarrow> bool \<Rightarrow> camera_entry list \<Rightarrow>
   ('c, 'm) camera_pipe list \<Rightarrow> bool \<times> ('c, 'm) camera_pipe list"
where
  "setup_cameras pf cfg publisher viewer [] pipes = (True, pipes)"
| "setup_cameras pf cfg publisher viewer (cam # cams) pipes =
     (case setup_camera pf cfg publisher viewer (length pipes) cam of
        None \<Rightarrow> (False, pipes)
      | Some p \<Rightarrow> setup_cameras pf cfg publisher viewer cams (pipes @ [p]))"

datatype main_pc =
    Main_Wait
  | Main_Stop_Pipeline nat
  | Main_Stop_Publisher
  | Main_Flush
  | Main_Return int

text \<open>\<open>sy_stop\<close> is \<^verbatim>\<open>g_stop\<close>; \<open>sy_exit\<close> is the code \<open>main\<close> is going to return.\<close>

record ('c, 'm) system =
  sy_pipes :: "('c, 'm) camera_pipe list"
  sy_viewer :: "mjpeg_server option"
  sy_ws :: ws_history
  sy_main :: main_pc
  sy_stop :: bool
  sy_exit :: int

definition setup_viewer :: "(string \<Rightarrow> int \<Rightarrow> string + unit) \<Rightarrow> viewer_config \<Rightarrow> mjpeg_server option" where
  "setup_viewer bind vcfg =
     (if vw_enabled vcfg
      then case mjpeg_start bind (mjpeg_new vcfg) of (r, v) \<Rightarrow> if \<not> vr_ok r then None else Some v
      else None)"

text \<open>
  \<open>main\<close> up to the wait loop: the exit code \<open>1\<close>, or the system.  After a failed camera \<open>return 2\<close> destroys the
  pipelines, the viewer and the publisher, whose destructors call \<open>stop\<close>: the shutdown of the wait
  loop's end, in the same order, with another code.
\<close>

definition main_setup :: "('n, 'c, 'm) platform \<Rightarrow> string list \<Rightarrow> int + ('c, 'm) system" where
  "main_setup pf argv =
     (case load_from_yaml (pf_have_yaml pf) (pf_yaml pf) (find_arg argv ''--config'' ''conf/system.yaml'') of
        Inl e \<Rightarrow> Inl 1
      | Inr cfg \<Rightarrow>
          if cfg_cameras cfg = [] then Inl 1
          else (case ws_start (pf_ws_bind pf) (ws_new (cfg_websocket cfg) (pf_now pf)) of (r, publisher) \<Rightarrow>
            if \<not> vr_ok r then Inl 1
            else let viewer = setup_viewer (pf_viewer_bind pf) (cfg_viewer cfg)
                 in case setup_cameras pf cfg publisher (viewer \<noteq> None) (cfg_cameras cfg) [] of
                      (done, pipes) \<Rightarrow>
                        Inr \<lparr>sy_pipes = pipes, sy_viewer = viewer, sy_ws = ([], [], publisher),
                             sy_main = (if \<not> done then Main_Stop_Pipeline 0 else Main_Wait),
                             sy_stop = False, sy_exit = (if \<not> done then 2 else 0)\<rparr>))"

subsection \<open>The running system\<close>

definition set_pipe :: "nat \<Rightarrow> ('c camera_source, 'm) pipeline \<times> 'm trace \<Rightarrow> ('c, 'm) system \<Rightarrow> ('c, 'm) system" where
  "set_pipe k h sy = sy\<lparr>sy_pipes := (sy_pipes sy)[k := (sy_pipes sy ! k)\<lparr>cp_state := h\<rparr>]\<rparr>"

text \<open>The alerts of an iteration reach the publisher, in order, with the clock reading of its warnings.\<close>

fun publish_all :: "int \<Rightarrow> alert list \<Rightarrow> ws_history \<Rightarrow> ws_history" where
  "publish_all now [] h = h"
| "publish_all now (a # as) (pub, dr, s) =
     publish_all now as (pub @ [serialize a], dr, snd (snd (ws_publish now a s)))"

text \<open>The effects of an iteration on the viewer; building the detection text may fault.\<close>

fun view_all ::
  "('m \<Rightarrow> bool) \<Rightarrow> (int \<Rightarrow> 'm \<Rightarrow> string option) \<Rightarrow> 'm effect list \<Rightarrow> mjpeg_server \<Rightarrow> mjpeg_server run"
where
  "view_all mat_empty encode [] v = Inr v"
| "view_all mat_empty encode (Stream_Frame f # es) v =
     view_all mat_empty encode es (mjpeg_publish mat_empty encode f v)"
| "view_all mat_empty encode (Stream_Detections cam ds zs w h # es) v =
     (case mjpeg_publish_detections cam ds zs w h v of
        Inl e \<Rightarrow> Inl e | Inr v' \<Rightarrow> view_all mat_empty encode es v')"
| "view_all mat_empty encode (_ # es) v = view_all mat_empty encode es v"

definition view_effects ::
  "('m \<Rightarrow> bool) \<Rightarrow> (int \<Rightarrow> 'm \<Rightarrow> string option) \<Rightarrow> 'm effect list \<Rightarrow> mjpeg_server option \<Rightarrow> mjpeg_server option run"
where
  "view_effects mat_empty encode es v =
     (case v of None \<Rightarrow> Inr None
      | Some s \<Rightarrow> (case view_all mat_empty encode es s of Inl e \<Rightarrow> Inl e | Inr s' \<Rightarrow> Inr (Some s')))"

text \<open>
  The steps: a thread of a pipeline, the network (a handler of the publisher), the signal handler, which
  is installed when all cameras are set up, and \<open>main\<close>, which when it sees the flag stops the pipelines
  one after the other, then the viewer, then the publisher.
\<close>

inductive system_step ::
  "('c, 'm) capture_api \<Rightarrow> (int \<Rightarrow> 'm \<Rightarrow> string option) \<Rightarrow> ('c, 'm) system \<Rightarrow> ('c, 'm) system \<Rightarrow> bool"
  for api encode
where
  capture: "k < length (sy_pipes sy) \<Longrightarrow> cp_state (sy_pipes sy ! k) = (p, tr) \<Longrightarrow>
    capture_step (camera_ops api) t p = Some p' \<Longrightarrow>
    system_step api encode sy (set_pipe k (p', trace_capture p p' tr) sy)"
| worker: "k < length (sy_pipes sy) \<Longrightarrow> cp_state (sy_pipes sy ! k) = (p, tr) \<Longrightarrow> i < length (pl_workers p) \<Longrightarrow>
    inference_step (cp_cfg (sy_pipes sy ! k)) (cp_deps (sy_pipes sy ! k)) now ts i p = Some (p', out) \<Longrightarrow>
    view_effects (vc_mat_empty api) encode out (sy_viewer sy) = Inr v \<Longrightarrow>
    system_step api encode sy
      ((set_pipe k (p', trace_worker i now ts (pl_workers p ! i) (pl_workers p' ! i) out tr) sy)
        \<lparr>sy_viewer := v, sy_ws := publish_all warn_now (alerts_of out) (sy_ws sy)\<rparr>)"
| network: "sy_ws sy = (pub, dr, s) \<Longrightarrow> ws_step (pub, dr, s) (pub, dr', s') \<Longrightarrow>
    wp_running s' = wp_running s \<Longrightarrow> wp_stopped s' = wp_stopped s \<Longrightarrow>
    system_step api encode sy (sy\<lparr>sy_ws := (pub, dr', s')\<rparr>)"
| signal: "sy_exit sy = 0 \<Longrightarrow> system_step api encode sy (sy\<lparr>sy_stop := True\<rparr>)"
| wait: "sy_main sy = Main_Wait \<Longrightarrow> sy_stop sy \<Longrightarrow>
    system_step api encode sy (sy\<lparr>sy_main := Main_Stop_Pipeline 0\<rparr>)"
| stop: "sy_main sy = Main_Stop_Pipeline k \<Longrightarrow> k < length (sy_pipes sy) \<Longrightarrow>
    cp_state (sy_pipes sy ! k) = (p, tr) \<Longrightarrow> stop_step (camera_ops api) p = Some p' \<Longrightarrow>
    system_step api encode sy (set_pipe k (p', tr) sy)"
| stopped: "sy_main sy = Main_Stop_Pipeline k \<Longrightarrow> k < length (sy_pipes sy) \<Longrightarrow>
    pl_stop (fst (cp_state (sy_pipes sy ! k))) = Stop_Returned \<Longrightarrow>
    system_step api encode sy (sy\<lparr>sy_main := Main_Stop_Pipeline (Suc k)\<rparr>)"
| viewer: "sy_main sy = Main_Stop_Pipeline (length (sy_pipes sy)) \<Longrightarrow>
    system_step api encode sy
      (sy\<lparr>sy_viewer := map_option mjpeg_stop (sy_viewer sy), sy_main := Main_Stop_Publisher\<rparr>)"
| publisher: "sy_main sy = Main_Stop_Publisher \<Longrightarrow> sy_ws sy = (pub, dr, s) \<Longrightarrow>
    system_step api encode sy (sy\<lparr>sy_ws := (pub, dr, ws_stop_begin s), sy_main := Main_Flush\<rparr>)"
| return: "sy_main sy = Main_Flush \<Longrightarrow> sy_ws sy = (pub, dr, s) \<Longrightarrow>
    system_step api encode sy (sy\<lparr>sy_ws := (pub, dr, ws_stop_end s), sy_main := Main_Return (sy_exit sy)\<rparr>)"

inductive system_reachable ::
  "('n, 'c, 'm) platform \<Rightarrow> (int \<Rightarrow> 'm \<Rightarrow> string option) \<Rightarrow> string list \<Rightarrow> ('c, 'm) system \<Rightarrow> bool"
  for pf encode argv
where
  start: "main_setup pf argv = Inr sy \<Longrightarrow> system_reachable pf encode argv sy"
| step: "system_reachable pf encode argv sy \<Longrightarrow> system_step (pf_capture pf) encode sy sy' \<Longrightarrow>
    system_reachable pf encode argv sy'"

subsection \<open>What the set-up builds\<close>

text \<open>The engine of the configured backend exists in this build and opens the model.\<close>

definition engine_works :: "('n, 'c, 'm) platform \<Rightarrow> system_config \<Rightarrow> nat \<Rightarrow> bool" where
  "engine_works pf cfg k =
     (pf_with_onnx pf \<and> cfg_backend cfg = kOnnxRuntime \<and>
      (\<exists>names. ea_open (pf_engine pf k) (ic_device (cfg_inference cfg)) (ic_model_path (cfg_inference cfg)) = Inr names))"

definition camera_name :: "camera_entry \<Rightarrow> string" where
  "camera_name cam =
     (if ce_source_type cam = kVideoFile then fc_camera_id (ce_video_file cam) else rc_camera_id (ce_rtsp cam))"

definition pipe_of :: "system_config \<Rightarrow> bool \<Rightarrow> camera_entry \<Rightarrow> ('c, 'm) camera_pipe \<Rightarrow> bool" where
  "pipe_of cfg viewer cam cp =
     (let deps = cp_deps cp
      in cp_cfg cp = ce_pipeline cam \<and>
         cp_state cp = (pl_start (cp_cfg cp) (pl_new (cp_cfg cp) (cp_source cp)), no_trace) \<and>
         camera_seq (cp_source cp) = 0 \<and>
         pd_camera_id deps = camera_name cam \<and> pd_risk deps = cfg_safety_zone cfg \<and>
         (pd_stream deps \<longleftrightarrow> viewer \<and> pc_enable_viewer (ce_pipeline cam)) \<and>
         pd_detection_stream deps = pd_stream deps \<and>
         pd_zone_service deps = (if pd_stream deps then Some (cfg_safety_zone cfg) else None))"

lemma make_engine_some:
  "make_engine with_onnx b = (if with_onnx \<and> b = kOnnxRuntime then Some onnx_new else None)"
  by (cases b) (simp_all add: make_engine_def make_inference_engine_def)

lemma make_source_simps [simp]:
  "camera_seq (make_source cap cam) = 0"
  "so_camera_id (camera_ops api) (make_source cap cam) = camera_name cam"
  by (simp_all add: make_source_def camera_seq_def camera_ops_def rtsp_ops_def file_ops_def rtsp_new_def
      file_new_def camera_name_def)

lemma setup_camera_pipe:
  "setup_camera pf cfg publisher viewer k cam = Some cp \<Longrightarrow> pipe_of cfg viewer cam cp"
  by (auto simp: setup_camera_def pipe_of_def Let_def make_deps_def enable_viewer_def
      split: option.splits prod.splits if_splits)

lemma setup_camera_works: "setup_camera pf cfg publisher viewer k cam \<noteq> None \<longleftrightarrow> engine_works pf cfg k"
  by (auto simp: setup_camera_def engine_works_def onnx_initialize_def Let_def make_engine_some split: sum.splits)

text \<open>The loop gets as far as the first engine that does not work.\<close>

lemma setup_cameras_works:
  "\<exists>n cps. setup_cameras pf cfg publisher viewer cams pipes = (n = length cams, pipes @ cps) \<and>
     n \<le> length cams \<and> list_all2 (pipe_of cfg viewer) (take n cams) cps \<and>
     list_all (engine_works pf cfg) [length pipes..<length pipes + n] \<and>
     (n = length cams \<or> \<not> engine_works pf cfg (length pipes + n))"
proof (induction cams arbitrary: pipes)
  case (Cons cam cams)
  let ?k = "length pipes"
  show ?case
  proof (cases "setup_camera pf cfg publisher viewer ?k cam")
    case None
    then have "\<not> engine_works pf cfg ?k" using setup_camera_works by blast
    with None show ?thesis by (intro exI [of _ 0] exI [of _ "[]"]) simp
  next
    case (Some cp)
    then have cp: "engine_works pf cfg ?k" "pipe_of cfg viewer cam cp"
      using setup_camera_works setup_camera_pipe by blast+
    from Cons.IH [of "pipes @ [cp]"] obtain n cps where IH:
      "setup_cameras pf cfg publisher viewer cams (pipes @ [cp]) = (n = length cams, (pipes @ [cp]) @ cps)"
      "n \<le> length cams" "list_all2 (pipe_of cfg viewer) (take n cams) cps"
      "list_all (engine_works pf cfg) [Suc ?k..<Suc ?k + n]"
      "n = length cams \<or> \<not> engine_works pf cfg (Suc ?k + n)" by auto
    have "[?k..<?k + Suc n] = ?k # [Suc ?k..<Suc ?k + n]" by (simp add: upt_rec)
    then show ?thesis using Some cp IH by (intro exI [of _ "Suc n"] exI [of _ "cp # cps"]) simp
  qed
qed simp

lemma setup_viewer_runs:
  "setup_viewer bind vcfg \<noteq> None \<longleftrightarrow> vw_enabled vcfg \<and> bind (vw_host vcfg) (vw_port vcfg) = Inr ()"
  "setup_viewer bind vcfg = Some v \<Longrightarrow> ms_running v"
  by (auto simp: setup_viewer_def mjpeg_start_def mjpeg_new_def split: sum.splits if_splits)

lemma ws_start_new:
  "ws_start bind (ws_new cfg now) =
     (case bind (wc_host cfg) (wc_port cfg) of
        Inl what \<Rightarrow> (vr_failure (mk_error 10 (''ws bind failed: '' @ what)), ws_new cfg now)
      | Inr _ \<Rightarrow> (vr_success, (ws_new cfg now)\<lparr>wp_running := True\<rparr>))"
proof -
  have "wp_cfg (ws_new cfg now) = cfg" "\<not> wp_running (ws_new cfg now)" by (simp_all add: ws_new_def)
  then show ?thesis by (simp add: ws_start_def)
qed


subsection \<open>Invariants of the running system\<close>

text \<open>The alerts a pipeline's workers have published.\<close>

definition pipe_alerts :: "('c, 'm) camera_pipe \<Rightarrow> alert multiset" where
  "pipe_alerts cp = (case cp_state cp of (p, tr) \<Rightarrow>
     \<Sum>i < length (pl_workers p). mset (alerts_of (tr_out tr i)))"

definition system_alerts :: "('c, 'm) system \<Rightarrow> alert multiset" where
  "system_alerts sy = (\<Sum>k < length (sy_pipes sy). pipe_alerts (sy_pipes sy ! k))"

definition pipes_inv :: "('c, 'm) capture_api \<Rightarrow> ('c, 'm) system \<Rightarrow> bool" where
  "pipes_inv api sy = (\<forall>cp \<in> set (sy_pipes sy). camera_seq (cp_source cp) = 0 \<and>
     pipe_reachable (cp_cfg cp) (cp_deps cp) (camera_ops api) (cp_source cp) (cp_state cp))"

definition alerts_inv :: "('c, 'm) system \<Rightarrow> bool" where
  "alerts_inv sy = ((\<exists>cfg now. ws_reachable cfg now (sy_ws sy)) \<and>
     mset (fst (sy_ws sy)) = image_mset serialize (system_alerts sy))"

text \<open>How many pipelines \<open>main\<close> has stopped.\<close>

definition stopped_upto :: "('c, 'm) system \<Rightarrow> nat" where
  "stopped_upto sy = (case sy_main sy of
     Main_Wait \<Rightarrow> 0 | Main_Stop_Pipeline k \<Rightarrow> k | _ \<Rightarrow> length (sy_pipes sy))"

definition viewer_off :: "mjpeg_server option \<Rightarrow> bool" where
  "viewer_off v = (\<forall>s. v = Some s \<longrightarrow> \<not> ms_running s)"

definition main_inv :: "('c, 'm) system \<Rightarrow> bool" where
  "main_inv sy =
     (stopped_upto sy \<le> length (sy_pipes sy) \<and>
      (\<forall>k < stopped_upto sy. pl_stop (fst (cp_state (sy_pipes sy ! k))) = Stop_Returned) \<and>
      (sy_main sy \<in> {Main_Stop_Publisher, Main_Flush} \<or> (\<exists>c. sy_main sy = Main_Return c) \<longrightarrow>
        viewer_off (sy_viewer sy)) \<and>
      (sy_main sy = Main_Flush \<or> (\<exists>c. sy_main sy = Main_Return c) \<longrightarrow> \<not> wp_running (snd (snd (sy_ws sy)))) \<and>
      (\<forall>c. sy_main sy = Main_Return c \<longrightarrow> c = sy_exit sy \<and> wp_stopped (snd (snd (sy_ws sy)))) \<and>
      sy_exit sy \<in> {0, 2} \<and> (sy_main sy = Main_Wait \<longrightarrow> sy_exit sy = 0) \<and>
      (sy_main sy \<noteq> Main_Wait \<and> sy_exit sy = 0 \<longrightarrow> sy_stop sy))"

lemma set_pipe_simps [simp]:
  "length (sy_pipes (set_pipe k h sy)) = length (sy_pipes sy)"
  "sy_viewer (set_pipe k h sy) = sy_viewer sy" "sy_ws (set_pipe k h sy) = sy_ws sy"
  "sy_main (set_pipe k h sy) = sy_main sy" "sy_stop (set_pipe k h sy) = sy_stop sy"
  "sy_exit (set_pipe k h sy) = sy_exit sy"
  "k < length (sy_pipes sy) \<Longrightarrow> sy_pipes (set_pipe k h sy) ! j =
     (if j = k then (sy_pipes sy ! k)\<lparr>cp_state := h\<rparr> else sy_pipes sy ! j)"
  by (auto simp: set_pipe_def nth_list_update)

lemma pipes_inv_set:
  assumes "pipes_inv api sy" "k < length (sy_pipes sy)"
    and "pipe_step (cp_cfg (sy_pipes sy ! k)) (cp_deps (sy_pipes sy ! k)) (camera_ops api)
      (cp_state (sy_pipes sy ! k)) h"
  shows "pipes_inv api (set_pipe k h sy)"
proof -
  have cp: "camera_seq (cp_source (sy_pipes sy ! k)) = 0"
    "pipe_reachable (cp_cfg (sy_pipes sy ! k)) (cp_deps (sy_pipes sy ! k)) (camera_ops api)
      (cp_source (sy_pipes sy ! k)) (cp_state (sy_pipes sy ! k))"
    using assms(1) nth_mem [OF assms(2)] unfolding pipes_inv_def by blast+
  from cp(1) pipe_reachable.step [OF cp(2) assms(3)] assms(1) show ?thesis
    unfolding pipes_inv_def set_pipe_def
    by (auto dest!: subsetD [OF set_update_subset_insert])
qed

lemma pipes_inv_pipes: "sy_pipes sy' = sy_pipes sy \<Longrightarrow> pipes_inv api sy \<Longrightarrow> pipes_inv api sy'"
  by (simp add: pipes_inv_def)

lemma pipes_inv_step: "system_step api encode sy sy' \<Longrightarrow> pipes_inv api sy \<Longrightarrow> pipes_inv api sy'"
proof (induction rule: system_step.induct)
  case (capture k sy p tr t p')
  then show ?case by (intro pipes_inv_set) (auto intro: pipe_step.capture)
next
  case (worker k sy p tr i now ts p' out v warn_now)
  have "pipes_inv api (set_pipe k (p', trace_worker i now ts (pl_workers p ! i) (pl_workers p' ! i) out tr) sy)"
    using worker by (intro pipes_inv_set) (auto intro: pipe_step.worker)
  then show ?case by (rule pipes_inv_pipes [rotated]) simp
next
  case (stop sy k p tr p')
  then show ?case by (intro pipes_inv_set) (auto intro: pipe_step.stop)
qed (auto intro: pipes_inv_pipes)

subsubsection \<open>Alerts\<close>

lemma publish_all_simps:
  "fst (publish_all now as h) = fst h @ map serialize as"
  "wp_running (snd (snd (publish_all now as h))) = wp_running (snd (snd h))"
  "wp_stopped (snd (snd (publish_all now as h))) = wp_stopped (snd (snd h))"
  by (induction as h rule: publish_all.induct) (simp_all add: ws_publish_def Let_def)

lemma publish_all_reachable: "ws_reachable cfg now0 h \<Longrightarrow> ws_reachable cfg now0 (publish_all now as h)"
  by (induction as h rule: publish_all.induct)
    (auto intro: ws_reachable.step [OF _ ws_step.publish])

lemma trace_worker_alerts:
  assumes "inference_step cfg deps now ts i p = Some (p', out)" "i < length (pl_workers p)"
  shows "alerts_of (tr_out (trace_worker i now ts (pl_workers p ! i) (pl_workers p' ! i) out tr) j) =
      alerts_of (tr_out tr j) @ (if j = i then alerts_of out else [])"
    "length (pl_workers p') = length (pl_workers p)"
  using assms by (auto elim!: inference_step_cases simp: trace_worker_def)

lemma pipe_alerts_worker:
  assumes "cp_state cp = (p, tr)" "inference_step cfg deps now ts i p = Some (p', out)" "i < length (pl_workers p)"
  shows "pipe_alerts (cp\<lparr>cp_state := (p', trace_worker i now ts (pl_workers p ! i) (pl_workers p' ! i) out tr)\<rparr>) =
    pipe_alerts cp + mset (alerts_of out)"
proof -
  let ?tr = "trace_worker i now ts (pl_workers p ! i) (pl_workers p' ! i) out tr"
  have "(\<Sum>j < length (pl_workers p). mset (alerts_of (tr_out ?tr j))) + {#} =
      (\<Sum>j < length (pl_workers p). mset (alerts_of (tr_out tr j))) + mset (alerts_of out)"
    by (rule sum_change_one [OF assms(3)]) (simp_all add: trace_worker_alerts [OF assms(2,3)])
  then show ?thesis
    using assms(1) by (simp add: pipe_alerts_def trace_worker_alerts [OF assms(2,3)])
qed

lemma system_alerts_set:
  assumes "k < length (sy_pipes sy)" "pipe_alerts ((sy_pipes sy ! k)\<lparr>cp_state := h\<rparr>) = pipe_alerts (sy_pipes sy ! k) + as"
  shows "system_alerts (set_pipe k h sy) = system_alerts sy + as"
proof -
  have "(\<Sum>j < length (sy_pipes sy). pipe_alerts (sy_pipes (set_pipe k h sy) ! j)) + {#} =
      (\<Sum>j < length (sy_pipes sy). pipe_alerts (sy_pipes sy ! j)) + as"
    using assms by (intro sum_change_one [OF assms(1)]) auto
  then show ?thesis by (simp add: system_alerts_def)
qed

lemma system_alerts_pipes [simp]:
  "system_alerts (sy\<lparr>sy_ws := w\<rparr>) = system_alerts sy" "system_alerts (sy\<lparr>sy_main := m\<rparr>) = system_alerts sy"
  "system_alerts (sy\<lparr>sy_viewer := v\<rparr>) = system_alerts sy" "system_alerts (sy\<lparr>sy_stop := b\<rparr>) = system_alerts sy"
  by (simp_all add: system_alerts_def)

lemma alerts_inv_step: "system_step api encode sy sy' \<Longrightarrow> alerts_inv sy \<Longrightarrow> alerts_inv sy'"
proof (induction rule: system_step.induct)
  case (capture k sy p tr t p')
  have "pl_workers p' = pl_workers p" "tr_out (trace_capture p p' tr) = tr_out tr"
    using capture(3) by (auto elim!: capture_step_cases simp: trace_capture_def)
  then have "system_alerts (set_pipe k (p', trace_capture p p' tr) sy) = system_alerts sy + {#}"
    using capture(1,2) by (intro system_alerts_set) (simp_all add: pipe_alerts_def)
  with capture show ?case by (simp add: alerts_inv_def)
next
  case (worker k sy p tr i now ts p' out v warn_now)
  from system_alerts_set [OF worker(1) pipe_alerts_worker [OF worker(2,4,3)]] worker(6)
  show ?case
    by (auto simp: alerts_inv_def publish_all_simps intro: publish_all_reachable)
next
  case (network sy pub dr s dr' s')
  then show ?case by (auto simp: alerts_inv_def intro: ws_reachable.step)
next
  case (stop sy k p tr p')
  have "pl_workers p' = pl_workers p" using stop(4) by (auto elim!: stop_step_cases)
  then have "system_alerts (set_pipe k (p', tr) sy) = system_alerts sy + {#}"
    using stop(2,3) by (intro system_alerts_set) (simp_all add: pipe_alerts_def)
  with stop show ?case by (simp add: alerts_inv_def)
next
  case (publisher sy pub dr s)
  then show ?case by (auto simp: alerts_inv_def intro: ws_reachable.step [OF _ ws_step.stop_begin])
next
  case (return sy pub dr s)
  then show ?case by (auto simp: alerts_inv_def intro: ws_reachable.step [OF _ ws_step.stop_end])
qed (simp_all add: alerts_inv_def)

subsubsection \<open>Shutdown\<close>

text \<open>The worker is a client of the viewer's port.\<close>

fun calls_of :: "'m effect list \<Rightarrow> 'm stream_call list" where
  "calls_of [] = []"
| "calls_of (Stream_Frame f # es) = Publish_Frame f # calls_of es"
| "calls_of (Stream_Detections cam ds zs w h # es) = Publish_Detections cam ds zs w h # calls_of es"
| "calls_of (_ # es) = calls_of es"

lemma view_all_calls:
  "view_all mat_empty encode es v = stream_calls (mjpeg_publish mat_empty encode) mjpeg_publish_detections (calls_of es) v"
  by (induction mat_empty encode es v rule: view_all.induct) (auto split: sum.splits)

lemma view_all_running: "view_all mat_empty encode es v = Inr v' \<Longrightarrow> ms_running v' = ms_running v"
  unfolding view_all_calls by (rule viewer.calls_running)

lemma view_effects_off:
  "view_effects mat_empty encode es v = Inr v' \<Longrightarrow> viewer_off v \<Longrightarrow> viewer_off v'"
  by (auto simp: view_effects_def viewer_off_def split: option.splits sum.splits dest: view_all_running)

lemma viewer_off_stop [simp]: "viewer_off (map_option mjpeg_stop v)"
proof -
  have "\<not> ms_running (mjpeg_stop s)" for s by (simp add: mjpeg_stop_def)
  then show ?thesis by (auto simp: viewer_off_def)
qed

lemma main_inv_step: "system_step api encode sy sy' \<Longrightarrow> main_inv sy \<Longrightarrow> main_inv sy'"
proof (induction rule: system_step.induct)
  case (capture k sy p tr t p')
  from step_keeps_stop(1) [OF capture(3)] capture(1,2,4) show ?case
    by (auto simp: main_inv_def stopped_upto_def split: main_pc.splits)
next
  case (worker k sy p tr i now ts p' out v warn_now)
  from step_keeps_stop(2) [OF worker(4)] view_effects_off [OF worker(5)] worker(1,2,6) show ?case
    by (auto simp: main_inv_def stopped_upto_def publish_all_simps split: main_pc.splits)
next
  case (network sy pub dr s dr' s')
  from network(1,3-5) show ?case by (auto simp: main_inv_def stopped_upto_def split: main_pc.splits)
next
  case (wait sy)
  then show ?case by (auto simp: main_inv_def stopped_upto_def)
next
  case (stop sy k p tr p')
  then show ?case by (auto simp: main_inv_def stopped_upto_def)
next
  case (stopped sy k)
  then show ?case by (auto simp: main_inv_def stopped_upto_def less_Suc_eq)
next
  case (viewer sy)
  then show ?case by (auto simp: main_inv_def stopped_upto_def)
next
  case (publisher sy pub dr s)
  then show ?case by (auto simp: main_inv_def stopped_upto_def ws_stop_begin_def)
next
  case (return sy pub dr s)
  then show ?case by (auto simp: main_inv_def stopped_upto_def ws_stop_end_def)
qed (simp add: main_inv_def stopped_upto_def split: main_pc.splits)

lemma main_setup_Inr:
  assumes "main_setup pf argv = Inr sy"
  obtains cfg publisher where
    "load_from_yaml (pf_have_yaml pf) (pf_yaml pf) (find_arg argv ''--config'' ''conf/system.yaml'') = Inr cfg"
    "list_all2 (pipe_of cfg (sy_viewer sy \<noteq> None)) (take (length (sy_pipes sy)) (cfg_cameras cfg)) (sy_pipes sy)"
    "(sy_main sy, sy_exit sy) \<in> {(Main_Wait, 0), (Main_Stop_Pipeline 0, 2)}"
    "sy_ws sy = ([], [], snd (ws_start (pf_ws_bind pf) (ws_new (cfg_websocket cfg) (pf_now pf))))"
proof -
  obtain cfg where cfg:
    "load_from_yaml (pf_have_yaml pf) (pf_yaml pf) (find_arg argv ''--config'' ''conf/system.yaml'') = Inr cfg"
  proof (cases "load_from_yaml (pf_have_yaml pf) (pf_yaml pf) (find_arg argv ''--config'' ''conf/system.yaml'')")
    case (Inl e)
    with assms show ?thesis by (simp add: main_setup_def)
  qed (rule that)
  obtain r publisher where pub: "ws_start (pf_ws_bind pf) (ws_new (cfg_websocket cfg) (pf_now pf)) = (r, publisher)"
    by (rule prod.exhaust)
  let ?viewer = "setup_viewer (pf_viewer_bind pf) (cfg_viewer cfg)"
  from setup_cameras_works [of pf cfg publisher "?viewer \<noteq> None" "cfg_cameras cfg" "[]"]
  obtain n cps where run: "setup_cameras pf cfg publisher (?viewer \<noteq> None) (cfg_cameras cfg) [] = (n = length (cfg_cameras cfg), cps)"
    and cps: "n \<le> length (cfg_cameras cfg)" "list_all2 (pipe_of cfg (?viewer \<noteq> None)) (take n (cfg_cameras cfg)) cps"
    by auto
  have "length cps = n" using list_all2_lengthD [OF cps(2)] cps(1) by simp
  with assms cps run show ?thesis
    by (intro that [of cfg]) (auto simp: main_setup_def cfg pub Let_def simp del: not_None_eq split: if_splits)
qed

lemma pipe_of_start:
  assumes "pipe_of cfg viewer cam cp"
  shows "camera_seq (cp_source cp) = 0 \<and>
     pipe_reachable (cp_cfg cp) (cp_deps cp) (camera_ops api) (cp_source cp) (cp_state cp) \<and>
     pipe_alerts cp = {#}"
proof -
  have state: "cp_state cp = (pl_start (cp_cfg cp) (pl_new (cp_cfg cp) (cp_source cp)), no_trace)"
    and seq: "camera_seq (cp_source cp) = 0"
    using assms by (simp_all add: pipe_of_def Let_def)
  from state have "pipe_alerts cp = {#}" by (simp add: pipe_alerts_def no_trace_def)
  with seq show ?thesis by (simp add: state pipe_reachable.start)
qed

lemma main_setup_inv:
  assumes "main_setup pf argv = Inr sy"
  shows "pipes_inv (pf_capture pf) sy" "alerts_inv sy" "main_inv sy"
proof -
  from main_setup_Inr [OF assms] obtain cfg where
    pipes: "list_all2 (pipe_of cfg (sy_viewer sy \<noteq> None)) (take (length (sy_pipes sy)) (cfg_cameras cfg)) (sy_pipes sy)"
    and main: "(sy_main sy, sy_exit sy) \<in> {(Main_Wait, 0), (Main_Stop_Pipeline 0, 2)}"
    and ws: "sy_ws sy = ([], [], snd (ws_start (pf_ws_bind pf) (ws_new (cfg_websocket cfg) (pf_now pf))))"
    by blast
  have start: "list_all (\<lambda>cp. camera_seq (cp_source cp) = 0 \<and>
      pipe_reachable (cp_cfg cp) (cp_deps cp) (camera_ops (pf_capture pf)) (cp_source cp) (cp_state cp) \<and>
      pipe_alerts cp = {#}) (sy_pipes sy)"
    by (rule list_all2_all [OF pipes]) (rule pipe_of_start)
  then show "pipes_inv (pf_capture pf) sy" by (auto simp: pipes_inv_def list_all_iff)
  have "system_alerts sy = {#}" using start by (simp add: system_alerts_def list_all_length)
  then show "alerts_inv sy"
    using ws_reachable.step [OF ws_reachable.init ws_step.start] by (simp add: alerts_inv_def ws) blast
  show "main_inv sy" using main by (auto simp: main_inv_def stopped_upto_def)
qed

lemma system_inv:
  assumes "system_reachable pf encode argv sy"
  shows "pipes_inv (pf_capture pf) sy" "alerts_inv sy" "main_inv sy"
  using assms
  by (induction rule: system_reachable.induct)
    (auto simp: main_setup_inv intro: pipes_inv_step alerts_inv_step main_inv_step)

subsection \<open>Properties of the running system\<close>

text \<open>
  No alert is lost or doubled between the pipelines and the publisher: in every state of the running
  system the texts handed to the publisher are, with multiplicity, the texts of the alerts the
  workers of all cameras have published, and what is drained to the clients and what waits is a
  subsequence of them.
\<close>

theorem alerts_reach_publisher:
  assumes "system_reachable pf encode argv sy" "sy_ws sy = (pub, dr, s)"
  shows "mset pub = image_mset serialize (system_alerts sy) \<and> subseq (dr @ wp_queue s) pub \<and>
    length (wp_queue s) \<le> 256"
proof -
  obtain cfg now where ws: "ws_reachable cfg now (pub, dr, s)"
    using system_inv(2) [OF assms(1)] by (auto simp: alerts_inv_def assms(2))
  from ws_inv_reachable [OF this] system_inv(2) [OF assms(1)] assms(2) show ?thesis
    by (simp add: ws_inv_def alerts_inv_def kMaxQueue_def)
qed

text \<open>
  Orderly shutdown: from the moment \<open>main\<close> stops the publisher, every pipeline has stopped, its
  capture thread has exited and its workers are finished, so that no thread can take a step and
  no alert can be published any more, and the viewer is stopped; when \<open>main\<close> returns, the publisher is
  stopped too and the code is zero after a signal, or two without one when a camera has failed.
\<close>

theorem orderly_shutdown:
  assumes "system_reachable pf encode argv sy" "sy_main sy \<notin> {Main_Wait} \<union> range Main_Stop_Pipeline"
  shows "(\<forall>cp \<in> set (sy_pipes sy).
      let p = fst (cp_state cp)
      in pl_stop p = Stop_Returned \<and> pl_capture p = Cap_Exited \<and> (\<forall>w \<in> set (pl_workers p). worker_finished w) \<and>
         capture_step (camera_ops (pf_capture pf)) t p = None \<and>
         (i < length (pl_workers p) \<longrightarrow> inference_step (cp_cfg cp) (cp_deps cp) now ts i p = None)) \<and>
    viewer_off (sy_viewer sy) \<and>
    (\<forall>c. sy_main sy = Main_Return c \<longrightarrow>
       (if sy_exit sy = 0 then c = 0 \<and> sy_stop sy else c = 2) \<and>
       \<not> wp_running (snd (snd (sy_ws sy))) \<and> wp_stopped (snd (snd (sy_ws sy))))"
proof -
  have phase: "sy_main sy = Main_Stop_Publisher \<or> sy_main sy = Main_Flush \<or> (\<exists>c. sy_main sy = Main_Return c)"
    using assms(2) by (cases "sy_main sy") auto
  then have "stopped_upto sy = length (sy_pipes sy)" by (auto simp: stopped_upto_def)
  then have "\<forall>k < length (sy_pipes sy). pl_stop (fst (cp_state (sy_pipes sy ! k))) = Stop_Returned"
    using system_inv(3) [OF assms(1)] by (simp add: main_inv_def)
  then have returned: "pl_stop (fst (cp_state cp)) = Stop_Returned" if "cp \<in> set (sy_pipes sy)" for cp
    using that by (auto simp: in_set_conv_nth)
  have quiet: "pl_capture p = Cap_Exited \<and> (\<forall>w \<in> set (pl_workers p). worker_finished w)"
    if cp: "cp \<in> set (sy_pipes sy)" and p: "p = fst (cp_state cp)" for cp p
  proof -
    have "pipe_reachable (cp_cfg cp) (cp_deps cp) (camera_ops (pf_capture pf)) (cp_source cp) (cp_state cp)"
      using system_inv(1) [OF assms(1)] cp by (simp add: pipes_inv_def)
    then have "stop_inv (cp_cfg cp) (cp_state cp)" by (rule stop_inv_reachable)
    then show ?thesis using returned [OF cp] p by (auto simp: stop_inv_def split: prod.splits)
  qed
  have none: "inference_step cfg deps now ts i p = None"
    if "\<forall>w \<in> set (pl_workers p). worker_finished w" "i < length (pl_workers p)"
    for cfg and deps :: "'c pipeline_deps" and p :: "('b camera_source, 'c) pipeline"
    using that finished_stays [of cfg deps now ts i p] nth_mem [of i "pl_workers p"]
    by (cases "inference_step cfg deps now ts i p") auto
  have "let p = fst (cp_state cp)
      in pl_stop p = Stop_Returned \<and> pl_capture p = Cap_Exited \<and> (\<forall>w \<in> set (pl_workers p). worker_finished w) \<and>
         capture_step (camera_ops (pf_capture pf)) t p = None \<and>
         (i < length (pl_workers p) \<longrightarrow> inference_step (cp_cfg cp) (cp_deps cp) now ts i p = None)"
    if cp: "cp \<in> set (sy_pipes sy)" for cp
  proof -
    note q = quiet [OF cp refl]
    have "capture_step (camera_ops (pf_capture pf)) t (fst (cp_state cp)) = None"
      using q by (simp add: capture_step_def)
    with q returned [OF cp] none show ?thesis by (simp add: Let_def)
  qed
  moreover have "main_inv sy" by (rule system_inv(3) [OF assms(1)])
  ultimately show ?thesis using phase by (auto simp: main_inv_def)
qed

text \<open>
  Each camera's frames: in the running system, whichever kind of source a camera has and however the
  threads interleave, the frames of its pipeline carry the camera's configured name and are
  numbered from one without a gap.
\<close>

theorem system_frames_numbered:
  assumes "system_reachable pf encode argv sy" "cp \<in> set (sy_pipes sy)" "cp_state cp = (p, tr)"
    and "0 < pc_frame_queue_capacity (cp_cfg cp)" "length (tr_pushed tr) < 2 ^ 64"
  shows "map fr_sequence (tr_pushed tr) = map of_nat [1..<Suc (length (tr_pushed tr))] \<and>
    list_all (\<lambda>f. fr_camera_id f = so_camera_id (camera_ops (pf_capture pf)) (cp_source cp)) (tr_pushed tr)"
proof -
  have r: "pipe_reachable (cp_cfg cp) (cp_deps cp) (camera_ops (pf_capture pf)) (cp_source cp) (p, tr)"
    "camera_seq (cp_source cp) = 0"
    using system_inv(1) [OF assms(1)] assms(2,3) by (auto simp: pipes_inv_def)
  show ?thesis
    using camera.frames_in_order(1) [OF r assms(4,5)] camera.seq_inv_reachable [OF r]
    by (simp add: camera.seq_inv_def Let_def list_all_iff)
qed

text \<open>
  A contact on any camera reaches the publisher: when a worker of the running system has processed
  a frame in which a person and a forklift share a pixel, the publisher has been given the text of
  an alert for that forklift's track that is less than the cooldown older than the frame.
\<close>

theorem contact_reaches_publisher:
  assumes sys: "system_reachable pf encode argv sy" "cp \<in> set (sy_pipes sy)" "cp_state cp = (p, tr)"
    and took: "i < length (pl_workers p)" "tr_done tr i = past @ [(now, ts, fr)]"
    and cd: "0 < pc_alert_cooldown_ms (cp_cfg cp)"
    and frame: "\<not> frame_empty (pd_mat_empty (cp_deps cp)) fr" "pd_infer (cp_deps cp) fr = Inr (Inr ds)"
    and mem: "f \<in> set ds" "det_cls f = kForklift" "m \<in> set ds" "det_cls m = kPerson"
    and box: "det_box f = pixel_box x y w h" "det_box m = pixel_box x' y' w' h'"
    and pad: "pads_on_grid (pd_risk (cp_deps cp)) e (det_box f) px' py'"
    and ok: "scaled_box_ok (2 ^ (149 - e)) x y w h" "scaled_box_ok (2 ^ (149 - e)) x' y' w' h'"
    and shared: "(a, b) \<in> pixels (det_box f) \<inter> pixels (det_box m)" "0 \<le> a" "0 \<le> b"
  shows "\<exists>alert. serialize alert \<in> set (fst (sy_ws sy)) \<and> al_forklift_track_id alert = det_track_id f \<and>
    ts - al_timestamp alert < pc_alert_cooldown_ms (cp_cfg cp) * 1000000"
proof -
  have "pipe_reachable (cp_cfg cp) (cp_deps cp) (camera_ops (pf_capture pf)) (cp_source cp) (p, tr)"
    using system_inv(1) [OF sys(1)] sys(2,3) by (auto simp: pipes_inv_def)
  from worker_inv_reachable [OF this] took obtain seen where
    run: "inference_run (cp_cfg cp) (cp_deps cp) (past @ [(now, ts, fr)]) Map.empty = Inr (seen, tr_out tr i)"
    by (auto simp: worker_inv_def)
  from contact_is_reported [OF run cd frame mem box pad ok shared]
  obtain alert where alert: "alert \<in> set (alerts_of (tr_out tr i))" "al_forklift_track_id alert = det_track_id f"
    "ts - al_timestamp alert < pc_alert_cooldown_ms (cp_cfg cp) * 1000000" by blast
  have "alert \<in># pipe_alerts cp"
    using alert(1) took(1) by (auto simp: pipe_alerts_def sys(3) set_mset_sum)
  then have "alert \<in># system_alerts sy"
    using sys(2) by (auto simp: system_alerts_def set_mset_sum in_set_conv_nth)
  then have "serialize alert \<in># mset (fst (sy_ws sy))"
    using system_inv(2) [OF sys(1)] by (simp add: alerts_inv_def)
  with alert show ?thesis by auto
qed

text \<open>The publisher never makes a worker report a failure.\<close>

lemma system_publishes_without_failure:
  "Log_Publish_Failed msg \<notin> set (snd (alerts_loop pcfg (pd_publish (make_deps pf cfg publisher k engine source)) ts as seen []))"
  using ws_port.no_publish_failure [of msg pcfg 0 publisher ts as seen "[]"]
  by (auto simp: make_deps_def)

subsection \<open>Schedules of one pipeline\<close>

text \<open>What a pipeline can do alone it can do in the system, its stop when \<open>main\<close> is there.\<close>

lemma pipe_move_system:
  assumes "system_reachable pf encode argv sy" "k < length (sy_pipes sy)" "sy_viewer sy = None"
    and "m = Move_Stop \<Longrightarrow> sy_main sy = Main_Stop_Pipeline k"
    and "pipe_move (cp_cfg (sy_pipes sy ! k)) (cp_deps (sy_pipes sy ! k)) (camera_ops (pf_capture pf)) m
      (cp_state (sy_pipes sy ! k)) = Some h"
  shows "\<exists>sy'. system_reachable pf encode argv sy' \<and> sy_viewer sy' = None \<and> sy_main sy' = sy_main sy \<and>
    sy_stop sy' = sy_stop sy \<and> sy_exit sy' = sy_exit sy \<and> sy_pipes sy' = sy_pipes (set_pipe k h sy)"
proof -
  obtain p tr where state: "cp_state (sy_pipes sy ! k) = (p, tr)" by (rule prod.exhaust)
  show ?thesis
  proof (cases m)
    case (Move_Capture t)
    with assms(5) obtain p' where "capture_step (camera_ops (pf_capture pf)) (t, t) p = Some p'"
      "h = (p', trace_capture p p' tr)" by (auto simp: state)
    with system_reachable.step [OF assms(1) system_step.capture [OF assms(2) state]] assms(3) show ?thesis
      by - (rule exI, intro conjI, assumption, simp_all add: \<open>h = _\<close>)
  next
    case (Move_Worker i ts)
    with assms(5) obtain p' out where step: "i < length (pl_workers p)"
      "inference_step (cp_cfg (sy_pipes sy ! k)) (cp_deps (sy_pipes sy ! k)) 0 ts i p = Some (p', out)"
      "h = (p', trace_worker i 0 ts (pl_workers p ! i) (pl_workers p' ! i) out tr)"
      by (auto simp: state split: if_splits)
    have "view_effects (vc_mat_empty (pf_capture pf)) encode out (sy_viewer sy) = Inr None"
      by (simp add: view_effects_def assms(3))
    from system_reachable.step [OF assms(1) system_step.worker [OF assms(2) state step(1,2) this, of 0]]
    show ?thesis unfolding step(3) [symmetric] by - (rule exI, intro conjI, assumption, simp_all)
  next
    case Move_Stop
    with assms(5) obtain p' where step: "stop_step (camera_ops (pf_capture pf)) p = Some p'" "h = (p', tr)"
      by (auto simp: state)
    from system_reachable.step [OF assms(1) system_step.stop [OF assms(4) [OF Move_Stop] assms(2) state step(1)]]
    show ?thesis unfolding step(2) [symmetric] using assms(3) by (intro exI conjI; (assumption | simp))
  qed
qed

lemma pipe_run_system:
  assumes "system_reachable pf encode argv sy" "k < length (sy_pipes sy)" "sy_viewer sy = None"
    and "Move_Stop \<in> set ms \<Longrightarrow> sy_main sy = Main_Stop_Pipeline k"
    and "pipe_run (cp_cfg (sy_pipes sy ! k)) (cp_deps (sy_pipes sy ! k)) (camera_ops (pf_capture pf)) ms
      (cp_state (sy_pipes sy ! k)) = Some h"
  shows "\<exists>sy'. system_reachable pf encode argv sy' \<and> sy_viewer sy' = None \<and> sy_main sy' = sy_main sy \<and>
    sy_stop sy' = sy_stop sy \<and> sy_exit sy' = sy_exit sy \<and> sy_pipes sy' = sy_pipes (set_pipe k h sy)"
  using assms
proof (induction ms arbitrary: sy)
  case Nil
  then have "(sy_pipes sy ! k)\<lparr>cp_state := h\<rparr> = sy_pipes sy ! k" by (cases "sy_pipes sy ! k") simp
  then have "sy_pipes (set_pipe k h sy) = sy_pipes sy" by (simp add: set_pipe_def)
  with Nil show ?case by metis
next
  case (Cons m ms)
  obtain h1 where h1: "pipe_move (cp_cfg (sy_pipes sy ! k)) (cp_deps (sy_pipes sy ! k)) (camera_ops (pf_capture pf)) m
      (cp_state (sy_pipes sy ! k)) = Some h1"
    "pipe_run (cp_cfg (sy_pipes sy ! k)) (cp_deps (sy_pipes sy ! k)) (camera_ops (pf_capture pf)) ms h1 = Some h"
    using Cons.prems(5) by (auto split: option.splits)
  have "m = Move_Stop \<Longrightarrow> sy_main sy = Main_Stop_Pipeline k" using Cons.prems(4) by simp
  from pipe_move_system [OF Cons.prems(1-3) this h1(1)] obtain sy1 where
    sy1: "system_reachable pf encode argv sy1" "sy_viewer sy1 = None" "sy_main sy1 = sy_main sy"
      "sy_pipes sy1 = sy_pipes (set_pipe k h1 sy)" "sy_stop sy1 = sy_stop sy" "sy_exit sy1 = sy_exit sy" by blast
  have k: "k < length (sy_pipes sy1)" using sy1(4) Cons.prems(2) by simp
  have "sy_pipes sy1 ! k = (sy_pipes sy ! k)\<lparr>cp_state := h1\<rparr>" using sy1(4) Cons.prems(2) by simp
  then have "\<exists>sy'. system_reachable pf encode argv sy' \<and> sy_viewer sy' = None \<and> sy_main sy' = sy_main sy1 \<and>
      sy_stop sy' = sy_stop sy1 \<and> sy_exit sy' = sy_exit sy1 \<and> sy_pipes sy' = sy_pipes (set_pipe k h sy1)"
    using Cons.IH [OF sy1(1) k sy1(2)] Cons.prems(4) h1(2) sy1(3) by simp
  moreover have "sy_pipes (set_pipe k h sy1) = sy_pipes (set_pipe k h sy)"
    using sy1(4) Cons.prems(2) by (simp add: set_pipe_def)
  ultimately show ?case using sy1(3,5,6) by metis
qed

subsection \<open>A concrete system\<close>

text \<open>One RTSP camera whose model sees a person in front of a forklift in every frame.\<close>

definition scene_raw :: "nat \<Rightarrow> f32" where
  "scene_raw k =
     px ([160, 150, 160, 150, 20, 100, 20, 100, 1, 0, 0, 1] ! k)"

definition scene_engine_api :: "unit engine_api" where
  "scene_engine_api =
     \<lparr>ea_open = (\<lambda>_ path. if path = [] then Inl ''no model'' else Inr ([''images''], [''output0''])),
      ea_run = (\<lambda>ins outs blob shape. Inr [([1, 6, 2], scene_raw)]),
      ea_resize_rgb = (\<lambda>_ w h. Inr (\<lambda>r k. f_zero)), ea_cols = (\<lambda>_. 1), ea_rows = (\<lambda>_. 1),
      ea_nms = demo_nms\<rparr>"

definition scene_document :: demo_node where
  "scene_document = Demo_Map [
     (''inference'', Demo_Map [(''model_path'', Demo_Str ''m.onnx''), (''input_width'', Demo_Int 1),
        (''input_height'', Demo_Int 1)]),
     (''cameras'', Demo_Seq [Demo_Map [(''id'', Demo_Str ''dock''), (''rtsp_url'', Demo_Str ''rtsp://dock'')]])]"

definition scene_platform :: "(demo_node, bool, unit) platform" where
  "scene_platform =
     \<lparr>pf_have_yaml = True, pf_yaml = demo_yaml scene_document, pf_ws_bind = (\<lambda>_ _. Inr ()),
      pf_viewer_bind = (\<lambda>_ _. Inr ()), pf_with_onnx = True, pf_engine = (\<lambda>_. scene_engine_api),
      pf_capture = demo_api, pf_capture_new = False, pf_now = 0\<rparr>"

definition scene_argv :: "string list" where
  "scene_argv = [''forklift_safety'', ''--config'', ''system.yaml'']"

definition scene_engine :: onnx_engine where
  "scene_engine = snd (onnx_initialize scene_engine_api demo_inference_config onnx_new)"

definition scene_source :: "bool camera_source" where
  "scene_source =
     Rtsp_Source (rtsp_new (default_rtsp_config\<lparr>rc_camera_id := ''dock'', rc_rtsp_url := ''rtsp://dock''\<rparr>) False)"

definition scene_deps :: "unit pipeline_deps" where
  "scene_deps =
     \<lparr>pd_camera_id = ''dock'', pd_infer = onnx_infer scene_engine_api scene_engine,
      pd_risk = default_safety_zone_config, pd_publish = (\<lambda>a. vr_success),
      pd_stream = False, pd_detection_stream = False, pd_zone_service = None,
      pd_mat_empty = (\<lambda>_. False), pd_mat_size = (\<lambda>m. (1, 1))\<rparr>"

definition scene_pipe :: "(bool, unit) camera_pipe" where
  "scene_pipe =
     \<lparr>cp_cfg = default_pipeline_config, cp_deps = scene_deps, cp_source = scene_source,
      cp_state = (pl_start default_pipeline_config (pl_new default_pipeline_config scene_source), no_trace)\<rparr>"

definition scene_start :: "(bool, unit) system" where
  "scene_start =
     \<lparr>sy_pipes = [scene_pipe], sy_viewer = None,
      sy_ws = ([], [], snd (ws_start (\<lambda>_ _. Inr ()) (ws_new default_ws_config 0))), sy_main = Main_Wait,
      sy_stop = False, sy_exit = 0\<rparr>"

definition scene_config :: system_config where
  "scene_config =
     default_system_config\<lparr>cfg_inference := demo_inference_config,
       cfg_cameras := [default_camera_entry\<lparr>ce_rtsp :=
         default_rtsp_config\<lparr>rc_camera_id := ''dock'', rc_rtsp_url := ''rtsp://dock''\<rparr>\<rparr>]\<rparr>"

lemma scene_load: "load_from_yaml True (demo_yaml scene_document) ''system.yaml'' = Inr scene_config"
  by code_simp

lemma scene_setup: "main_setup scene_platform scene_argv = Inr scene_start"
proof -
  have "find_arg scene_argv ''--config'' ''conf/system.yaml'' = ''system.yaml''"
    by (simp add: find_arg_def scene_argv_def)
  moreover have "setup_camera scene_platform scene_config p False 0 (hd (cfg_cameras scene_config)) = Some scene_pipe" for p
    by (simp add: setup_camera_def scene_platform_def scene_config_def make_engine_some default_system_config_def
        scene_pipe_def scene_deps_def scene_source_def scene_engine_def make_source_def default_camera_entry_def
        onnx_initialize_def scene_engine_api_def demo_inference_config_def Let_def make_deps_def demo_api_def
        camera_ops_def rtsp_ops_def rtsp_new_def ws_publish_def fun_eq_iff)
  moreover obtain cam where "cfg_cameras scene_config = [cam]"
    by (simp add: scene_config_def)
  moreover have "cfg_websocket scene_config = default_ws_config" "\<not> vw_enabled (cfg_viewer scene_config)"
    by (simp_all add: scene_config_def default_system_config_def default_viewer_config_def)
  moreover have "pf_have_yaml scene_platform" "pf_yaml scene_platform = demo_yaml scene_document"
    "pf_ws_bind scene_platform = (\<lambda>_ _. Inr ())" "pf_now scene_platform = 0"
    by (simp_all add: scene_platform_def)
  ultimately show ?thesis
    using scene_load
    by (simp add: main_setup_def scene_start_def setup_viewer_def ws_start_def ws_new_def Let_def)
qed

definition scene_moves :: "move list" where
  "scene_moves =
     [Move_Capture 0, Move_Capture 1, Move_Capture 2,
      Move_Worker 0 0, Move_Worker 0 0, Move_Worker 0 0, Move_Worker 0 5]"

definition scene_stop_moves :: "move list" where
  "scene_stop_moves =
     [Move_Stop, Move_Capture 0, Move_Worker 0 0, Move_Stop, Move_Stop, Move_Stop, Move_Stop]"

lemma scene_facts:
  "case pipe_run default_pipeline_config scene_deps (camera_ops demo_api) scene_moves (cp_state scene_pipe) of
     None \<Rightarrow> False
   | Some (p, tr) \<Rightarrow>
       length (pl_workers p) = 1 \<and> length (tr_pushed tr) = 1 \<and> map (fst \<circ> snd) (tr_done tr 0) = [5] \<and>
       map al_timestamp (alerts_of (tr_out tr 0)) = [5] \<and>
       (case pipe_run default_pipeline_config scene_deps (camera_ops demo_api) scene_stop_moves (p, tr) of
          None \<Rightarrow> False | Some h' \<Rightarrow> pl_stop (fst h') = Stop_Returned)"
  by code_simp

lemma scene_simps [simp]:
  "sy_pipes scene_start = [scene_pipe]" "sy_viewer scene_start = None" "sy_main scene_start = Main_Wait"
  "sy_exit scene_start = 0"
  "cp_cfg scene_pipe = default_pipeline_config" "cp_deps scene_pipe = scene_deps"
  "cp_source scene_pipe = scene_source" "pf_capture scene_platform = demo_api"
  "so_camera_id (camera_ops demo_api) scene_source = ''dock''"
  by (simp_all add: scene_start_def scene_pipe_def scene_platform_def scene_source_def camera_ops_def
      rtsp_ops_def rtsp_new_def)

text \<open>The system after one frame, and after its shutdown.\<close>

lemma scene_reachable:
  obtains sy p tr where "system_reachable scene_platform encode scene_argv sy" "sy_main sy = Main_Wait" "sy_exit sy = 0"
    "sy_viewer sy = None" "sy_pipes sy = [scene_pipe\<lparr>cp_state := (p, tr)\<rparr>]" "length (pl_workers p) = 1"
    "length (tr_pushed tr) = 1" "map (fst \<circ> snd) (tr_done tr 0) = [5]" "map al_timestamp (alerts_of (tr_out tr 0)) = [5]"
    "pipe_run default_pipeline_config scene_deps (camera_ops demo_api) scene_moves (cp_state scene_pipe) = Some (p, tr)"
proof -
  obtain p tr where run:
    "pipe_run default_pipeline_config scene_deps (camera_ops demo_api) scene_moves (cp_state scene_pipe) = Some (p, tr)"
    and facts: "length (pl_workers p) = 1" "length (tr_pushed tr) = 1" "map (fst \<circ> snd) (tr_done tr 0) = [5]"
      "map al_timestamp (alerts_of (tr_out tr 0)) = [5]"
    using scene_facts by (auto split: option.splits)
  have "\<exists>sy'. system_reachable scene_platform encode scene_argv sy' \<and> sy_viewer sy' = None \<and>
      sy_main sy' = sy_main scene_start \<and> sy_stop sy' = sy_stop scene_start \<and> sy_exit sy' = sy_exit scene_start \<and> sy_pipes sy' = sy_pipes (set_pipe 0 (p, tr) scene_start)"
    using run by (intro pipe_run_system [OF system_reachable.start [OF scene_setup], of 0 scene_moves])
      (simp_all add: scene_moves_def)
  then show ?thesis using that facts run by (auto simp: set_pipe_def)
qed

lemma scene_stopped:
  obtains sy where "system_reachable scene_platform encode scene_argv sy" "sy_main sy = Main_Return 0"
    "length (sy_pipes sy) = 1"
proof -
  obtain sy p tr where sy: "system_reachable scene_platform encode scene_argv sy" "sy_main sy = Main_Wait"
    "sy_viewer sy = None" "sy_pipes sy = [scene_pipe\<lparr>cp_state := (p, tr)\<rparr>]" "sy_exit sy = 0"
    and run: "pipe_run default_pipeline_config scene_deps (camera_ops demo_api) scene_moves (cp_state scene_pipe) = Some (p, tr)"
    by (rule scene_reachable)
  obtain h' where stop: "pipe_run default_pipeline_config scene_deps (camera_ops demo_api) scene_stop_moves (p, tr) = Some h'"
    "pl_stop (fst h') = Stop_Returned"
    using scene_facts run by (auto split: option.splits)
  let ?s0 = "sy\<lparr>sy_stop := True\<rparr>"
  let ?s1 = "?s0\<lparr>sy_main := Main_Stop_Pipeline 0\<rparr>"
  have s0: "system_reachable scene_platform encode scene_argv ?s0"
    by (rule system_reachable.step [OF sy(1) system_step.signal [OF sy(5)]])
  have s1: "system_reachable scene_platform encode scene_argv ?s1"
    by (rule system_reachable.step [OF s0 system_step.wait]) (simp_all add: sy(2))
  have "\<exists>sy'. system_reachable scene_platform encode scene_argv sy' \<and> sy_viewer sy' = None \<and>
      sy_main sy' = sy_main ?s1 \<and> sy_stop sy' = sy_stop ?s1 \<and> sy_exit sy' = sy_exit ?s1 \<and>
      sy_pipes sy' = sy_pipes (set_pipe 0 h' ?s1)"
    using stop(1) sy(3,4) by (intro pipe_run_system [OF s1, of 0 scene_stop_moves]) simp_all
  then obtain s2 where s2: "system_reachable scene_platform encode scene_argv s2" "sy_main s2 = Main_Stop_Pipeline 0" "sy_exit s2 = 0"
    "sy_pipes s2 = [scene_pipe\<lparr>cp_state := h'\<rparr>]" using sy(4,5) by (auto simp: set_pipe_def)
  let ?s3 = "s2\<lparr>sy_main := Main_Stop_Pipeline (Suc 0)\<rparr>"
  have s3: "system_reachable scene_platform encode scene_argv ?s3"
    by (rule system_reachable.step [OF s2(1) system_step.stopped [OF s2(2)]]) (simp_all add: s2(4) stop(2))
  let ?s4 = "?s3\<lparr>sy_viewer := map_option mjpeg_stop (sy_viewer ?s3), sy_main := Main_Stop_Publisher\<rparr>"
  have s4: "system_reachable scene_platform encode scene_argv ?s4"
    by (rule system_reachable.step [OF s3 system_step.viewer]) (simp add: s2(4))
  obtain pub dr s where ws: "sy_ws ?s4 = (pub, dr, s)" by (rule prod_cases3)
  let ?s5 = "?s4\<lparr>sy_ws := (pub, dr, ws_stop_begin s), sy_main := Main_Flush\<rparr>"
  have s5: "system_reachable scene_platform encode scene_argv ?s5"
    by (rule system_reachable.step [OF s4 system_step.publisher [OF _ ws]]) simp
  have "system_reachable scene_platform encode scene_argv
      (?s5\<lparr>sy_ws := (pub, dr, ws_stop_end (ws_stop_begin s)), sy_main := Main_Return 0\<rparr>)"
    using system_reachable.step [OF s5 system_step.return [of ?s5 pub dr "ws_stop_begin s"]] s2(3) by simp
  then show ?thesis by (rule that) (simp_all add: s2(4))
qed

text \<open>A JPEG encoder for the statements.\<close>

definition scene_encode :: "int \<Rightarrow> unit \<Rightarrow> string option" where
  "scene_encode q m = None"

theorem alerts_reach_publisher_witness:
  "\<exists>sy pub dr s. system_reachable scene_platform scene_encode scene_argv sy \<and> sy_ws sy = (pub, dr, s) \<and>
     mset pub = image_mset serialize (system_alerts sy) \<and> size (system_alerts sy) = 1"
proof -
  obtain sy p tr where sy: "system_reachable scene_platform scene_encode scene_argv sy"
    "sy_pipes sy = [scene_pipe\<lparr>cp_state := (p, tr)\<rparr>]" "length (pl_workers p) = 1"
    "map al_timestamp (alerts_of (tr_out tr 0)) = [5]"
    by (rule scene_reachable)
  obtain pub dr s where ws: "sy_ws sy = (pub, dr, s)" by (rule prod_cases3)
  have "size (system_alerts sy) = 1"
    using sy(2,3) arg_cong [OF sy(4), of length] by (simp add: system_alerts_def pipe_alerts_def)
  with alerts_reach_publisher [OF sy(1) ws] sy(1) ws show ?thesis by blast
qed

theorem orderly_shutdown_witness:
  "\<exists>sy. system_reachable scene_platform scene_encode scene_argv sy \<and> length (sy_pipes sy) = 1 \<and>
     pl_capture (fst (cp_state (hd (sy_pipes sy)))) = Cap_Exited \<and> wp_stopped (snd (snd (sy_ws sy)))"
proof -
  obtain sy where sy: "system_reachable scene_platform scene_encode scene_argv sy" "sy_main sy = Main_Return 0"
    "length (sy_pipes sy) = 1" by (rule scene_stopped)
  then have hd: "hd (sy_pipes sy) \<in> set (sy_pipes sy)" by (cases "sy_pipes sy") auto
  have "sy_main sy \<notin> {Main_Wait} \<union> range Main_Stop_Pipeline" using sy(2) by auto
  from orderly_shutdown [OF sy(1) this] hd sy(2)
  have "pl_capture (fst (cp_state (hd (sy_pipes sy)))) = Cap_Exited" "wp_stopped (snd (snd (sy_ws sy)))"
    by (simp_all add: Let_def)
  with sy(1,3) show ?thesis by blast
qed

theorem system_frames_numbered_witness:
  "\<exists>sy p tr. system_reachable scene_platform scene_encode scene_argv sy \<and>
     sy_pipes sy = [scene_pipe\<lparr>cp_state := (p, tr)\<rparr>] \<and>
     map fr_sequence (tr_pushed tr) = [1] \<and> map fr_camera_id (tr_pushed tr) = [''dock'']"
proof -
  obtain sy p tr where sy: "system_reachable scene_platform scene_encode scene_argv sy"
    "sy_pipes sy = [scene_pipe\<lparr>cp_state := (p, tr)\<rparr>]" and n: "length (tr_pushed tr) = 1"
    by (rule scene_reachable)
  have "map fr_sequence (tr_pushed tr) = map of_nat [1..<Suc (length (tr_pushed tr))] \<and>
    list_all (\<lambda>f. fr_camera_id f = so_camera_id (camera_ops (pf_capture scene_platform)) scene_source) (tr_pushed tr)"
    using system_frames_numbered [OF sy(1), of "scene_pipe\<lparr>cp_state := (p, tr)\<rparr>" p tr] sy(2) n
    by (simp add: default_pipeline_config_def)
  moreover from n obtain f where "tr_pushed tr = [f]" by (cases "tr_pushed tr") auto
  ultimately have "map fr_sequence (tr_pushed tr) = [1]" "map fr_camera_id (tr_pushed tr) = [''dock'']" by simp_all
  with sy show ?thesis by (intro exI conjI)
qed

definition scene_person :: detection where
  "scene_person =
     \<lparr>det_box = pixel_box 150 150 20 20, det_cls = kPerson, det_confidence = f_one, det_track_id = -1\<rparr>"

definition scene_forklift :: detection where
  "scene_forklift =
     \<lparr>det_box = pixel_box 100 100 100 100, det_cls = kForklift, det_confidence = f_one, det_track_id = -1\<rparr>"

lemma scene_infer: "pd_infer scene_deps fr = Inr (Inr [scene_person, scene_forklift])"
proof -
  have "onnx_infer scene_engine_api scene_engine fr = onnx_infer scene_engine_api scene_engine blank_frame"
    by (simp only: onnx_infer_def unit_eq [of "fr_image fr"] unit_eq [of "fr_image blank_frame"])
  also have "\<dots> = Inr (Inr [scene_person, scene_forklift])" by code_simp
  finally show ?thesis by (simp add: scene_deps_def)
qed

text \<open>The two boxes meet.\<close>

lemma scene_contact:
  "\<not> frame_empty (pd_mat_empty scene_deps) fr"
  "pads_on_grid (pd_risk scene_deps) 148 (det_box scene_forklift) 100 100"
  "scaled_box_ok (2 ^ (149 - 148)) 100 100 100 100" "scaled_box_ok (2 ^ (149 - 148)) 150 150 20 20"
  "(155, 155) \<in> pixels (det_box scene_forklift) \<inter> pixels (det_box scene_person)"
  "det_box scene_forklift = pixel_box 100 100 100 100" "det_box scene_person = pixel_box 150 150 20 20"
  "det_cls scene_forklift = kForklift" "det_cls scene_person = kPerson" "det_track_id scene_forklift = -1"
  using default_pads_on_grid [of 100 100 100 100]
  by (simp_all add: frame_empty_def scene_deps_def scene_forklift_def scene_person_def scaled_box_ok_def
      pixel_box_ok_defs pixels_pixel_box)

theorem contact_reaches_publisher_witness:
  "\<exists>sy alert. system_reachable scene_platform scene_encode scene_argv sy \<and>
     serialize alert \<in> set (fst (sy_ws sy)) \<and> al_forklift_track_id alert = -1 \<and> 5 - al_timestamp alert < 2000000000"
proof -
  obtain sy p tr where sy: "system_reachable scene_platform scene_encode scene_argv sy"
    "sy_pipes sy = [scene_pipe\<lparr>cp_state := (p, tr)\<rparr>]" "length (pl_workers p) = 1"
    and ts: "map (fst \<circ> snd) (tr_done tr 0) = [5]"
    by (rule scene_reachable)
  obtain now fr where took: "tr_done tr 0 = [] @ [(now, 5, fr)]" using ts by auto
  have "\<exists>alert. serialize alert \<in> set (fst (sy_ws sy)) \<and> al_forklift_track_id alert = -1 \<and>
      5 - al_timestamp alert < 2000000000"
    using contact_reaches_publisher [OF sy(1), of "scene_pipe\<lparr>cp_state := (p, tr)\<rparr>" p tr 0 "[]" now 5 fr,
        OF _ _ _ took _ _ _ _ _ _ _ _ _ _ scene_contact(3,4,5)] sy(2,3) scene_contact scene_infer
    by simp
  with sy(1) show ?thesis by blast
qed

end
