(* ===== verification/Interleaving.thy ===== *)
theory Interleaving
  imports Application
begin

text \<open>
  The running system with the effects of an iteration one by one: a worker first computes what its iteration
  does, then hands over one update of the viewer or one alert at a time, so that other workers, cameras,
  the network and \<^verbatim>\<open>main\<close> run in between (the loop of
  \<^verbatim>\<open>FrameProcessingPipeline::inference_loop\<close> holds no lock while it publishes).  The system of
  \<open>Application\<close> is the special case in which nothing runs in between.
\<close>

subsection \<open>Steps\<close>

text \<open>The effects each worker, a pipeline and an index in it, still has to hand over.\<close>

type_synonym 'm todo = "nat \<times> nat \<Rightarrow> 'm effect list"

definition workers_of :: "('c, 'm) system \<Rightarrow> 'm worker_pc list list" where
  "workers_of sy = map (\<lambda>cp. pl_workers (fst (cp_state cp))) (sy_pipes sy)"

text \<open>
  A step that leaves all workers alone is one of the capture threads, the network, the signal or \<open>main\<close>.  A
  worker goes on only when it has handed everything over.
\<close>

inductive fine_step ::
  "('c, 'm) capture_api \<Rightarrow> (int \<Rightarrow> 'm \<Rightarrow> string option) \<Rightarrow>
   ('c, 'm) system \<times> 'm todo \<Rightarrow> ('c, 'm) system \<times> 'm todo \<Rightarrow> bool"
  for api encode
where
  other: "system_step api encode sy sy' \<Longrightarrow> workers_of sy' = workers_of sy \<Longrightarrow>
    fine_step api encode (sy, todo) (sy', todo)"
| compute: "k < length (sy_pipes sy) \<Longrightarrow> cp_state (sy_pipes sy ! k) = (p, tr) \<Longrightarrow> i < length (pl_workers p) \<Longrightarrow>
    todo (k, i) = [] \<Longrightarrow>
    inference_step (cp_cfg (sy_pipes sy ! k)) (cp_deps (sy_pipes sy ! k)) now ts i p = Some (p', out) \<Longrightarrow>
    fine_step api encode (sy, todo)
      (set_pipe k (p', trace_worker i now ts (pl_workers p ! i) (pl_workers p' ! i) out tr) sy, todo((k, i) := out))"
| hand_over: "todo w = e # es \<Longrightarrow> view_effects (vc_mat_empty api) encode [e] (sy_viewer sy) = Inr v \<Longrightarrow>
    fine_step api encode (sy, todo)
      (sy\<lparr>sy_viewer := v, sy_ws := publish_all warn_now (alerts_of [e]) (sy_ws sy)\<rparr>, todo(w := es))"

inductive fine_reachable ::
  "('n, 'c, 'm) platform \<Rightarrow> (int \<Rightarrow> 'm \<Rightarrow> string option) \<Rightarrow> string list \<Rightarrow> ('c, 'm) system \<times> 'm todo \<Rightarrow> bool"
  for pf encode argv
where
  start: "main_setup pf argv = Inr sy \<Longrightarrow> fine_reachable pf encode argv (sy, \<lambda>w. [])"
| step: "fine_reachable pf encode argv h \<Longrightarrow> fine_step (pf_capture pf) encode h h' \<Longrightarrow>
    fine_reachable pf encode argv h'"

subsection \<open>The atomic iterations are a special case\<close>

lemma view_effects_Cons:
  assumes "view_effects me encode (e # es) v = Inr v'"
  obtains v1 where "view_effects me encode [e] v = Inr v1" "view_effects me encode es v1 = Inr v'"
  using assms by (cases v; cases e) (auto simp: view_effects_def split: sum.splits)

lemma publish_all_append: "publish_all now (as @ bs) h = publish_all now bs (publish_all now as h)"
  by (induction now as h rule: publish_all.induct) auto

lemma alerts_of_Cons: "alerts_of (e # es) = alerts_of [e] @ alerts_of es"
  using alerts_of_append [of "[e]" es] by simp

text \<open>A step of \<open>fine_step\<close> that leaves pipelines and \<open>main\<close> alone.\<close>

definition outside_step ::
  "('c, 'm) capture_api \<Rightarrow> (int \<Rightarrow> 'm \<Rightarrow> string option) \<Rightarrow>
   ('c, 'm) system \<times> 'm todo \<Rightarrow> ('c, 'm) system \<times> 'm todo \<Rightarrow> bool"
where
  "outside_step api encode f f' =
     (fine_step api encode f f' \<and> sy_pipes (fst f') = sy_pipes (fst f) \<and> sy_main (fst f') = sy_main (fst f))"

lemma hand_over_steps:
  assumes "view_effects (vc_mat_empty api) encode es (sy_viewer sy) = Inr v"
  shows "(outside_step api encode)\<^sup>*\<^sup>* (sy, todo(w := es))
    (sy\<lparr>sy_viewer := v, sy_ws := publish_all warn_now (alerts_of es) (sy_ws sy)\<rparr>, todo(w := []))"
  using assms
proof (induction es arbitrary: sy)
  case Nil
  then have "sy\<lparr>sy_viewer := v, sy_ws := publish_all warn_now (alerts_of []) (sy_ws sy)\<rparr> = sy"
    by (auto simp: view_effects_def split: option.splits)
  then show ?case by simp
next
  case (Cons e es)
  from view_effects_Cons [OF Cons.prems] obtain v1 where
    v1: "view_effects (vc_mat_empty api) encode [e] (sy_viewer sy) = Inr v1"
      "view_effects (vc_mat_empty api) encode es v1 = Inr v" by blast
  let ?sy = "sy\<lparr>sy_viewer := v1, sy_ws := publish_all warn_now (alerts_of [e]) (sy_ws sy)\<rparr>"
  have "(todo(w := e # es)) w = e # es" by simp
  from fine_step.hand_over [of "todo(w := e # es)" w e es, OF this v1(1), of warn_now]
  have "outside_step api encode (sy, todo(w := e # es)) (?sy, todo(w := es))"
    by (simp add: outside_step_def)
  moreover have "(outside_step api encode)\<^sup>*\<^sup>* (?sy, todo(w := es))
      (?sy\<lparr>sy_viewer := v, sy_ws := publish_all warn_now (alerts_of es) (sy_ws ?sy)\<rparr>, todo(w := []))"
    using v1(2) by (intro Cons.IH) simp
  ultimately have "(outside_step api encode)\<^sup>*\<^sup>* (sy, todo(w := e # es))
      (?sy\<lparr>sy_viewer := v, sy_ws := publish_all warn_now (alerts_of es) (sy_ws ?sy)\<rparr>, todo(w := []))"
    by (rule converse_rtranclp_into_rtranclp)
  then show ?case
    by (simp add: alerts_of_Cons [of e es] publish_all_append [symmetric] del: alerts_of.simps fun_upd_apply)
qed

lemma outside_reachable:
  "(outside_step (pf_capture pf) encode)\<^sup>*\<^sup>* f f' \<Longrightarrow> fine_reachable pf encode argv f \<Longrightarrow> fine_reachable pf encode argv f'"
  by (induction rule: rtranclp_induct) (auto simp: outside_step_def intro: fine_reachable.step)

lemma inference_step_moves:
  "inference_step cfg deps now ts i p = Some (p', out) \<Longrightarrow> i < length (pl_workers p) \<Longrightarrow>
   pl_workers p' ! i \<noteq> pl_workers p ! i"
  by (elim inference_step_cases) (auto split: if_splits)

lemma system_step_split:
  assumes "system_step api encode sy sy'"
  obtains (other) "workers_of sy' = workers_of sy"
    | (worker) k p tr i now ts p' out v warn_now where "k < length (sy_pipes sy)" "cp_state (sy_pipes sy ! k) = (p, tr)"
        "i < length (pl_workers p)"
        "inference_step (cp_cfg (sy_pipes sy ! k)) (cp_deps (sy_pipes sy ! k)) now ts i p = Some (p', out)"
        "view_effects (vc_mat_empty api) encode out (sy_viewer sy) = Inr v"
        "sy' = (set_pipe k (p', trace_worker i now ts (pl_workers p ! i) (pl_workers p' ! i) out tr) sy)
          \<lparr>sy_viewer := v, sy_ws := publish_all warn_now (alerts_of out) (sy_ws sy)\<rparr>"
  using assms
proof cases
  case (capture k p tr t p')
  then have "pl_workers p' = pl_workers p" by (auto elim: capture_step_cases)
  with capture other show thesis
    by (auto simp: workers_of_def set_pipe_def map_update list_update_same_conv)
next
  case (stop k p tr p')
  then have "pl_workers p' = pl_workers p" by (auto elim: stop_step_cases)
  with stop other show thesis
    by (auto simp: workers_of_def set_pipe_def map_update list_update_same_conv)
qed (auto simp: workers_of_def intro: other worker)

lemma system_reachable_fine:
  "system_reachable pf encode argv sy \<Longrightarrow> fine_reachable pf encode argv (sy, \<lambda>w. [])"
proof (induction rule: system_reachable.induct)
  case (start sy)
  then show ?case by (rule fine_reachable.start)
next
  case (step sy sy')
  from step(2) show ?case
  proof (cases rule: system_step_split)
    case other
    from fine_reachable.step [OF step(3) fine_step.other [OF step(2) other]] show ?thesis .
  next
    case (worker k p tr i now ts p' out v warn_now)
    from fine_reachable.step [OF step(3) fine_step.compute [OF worker(1-3) _ worker(4)]]
    have "fine_reachable pf encode argv
        (set_pipe k (p', trace_worker i now ts (pl_workers p ! i) (pl_workers p' ! i) out tr) sy, (\<lambda>w. [])((k, i) := out))"
      by simp
    from outside_reachable [OF hand_over_steps this] worker(5,6) show ?thesis by (simp add: fun_upd_idem)
  qed
qed


subsection \<open>What the publisher receives\<close>

text \<open>The texts come from streams of alerts, one per worker, each in its order.\<close>

definition interleaved :: "(nat \<times> nat \<Rightarrow> alert list) \<Rightarrow> string list \<Rightarrow> bool" where
  "interleaved streams texts =
     (\<exists>log. texts = map (\<lambda>e. serialize (snd e)) log \<and> (\<forall>w. map snd (filter (\<lambda>e. fst e = w) log) = streams w))"

lemma interleaved_Nil: "interleaved (\<lambda>w. []) []"
  by (simp add: interleaved_def)

lemma interleaved_snoc:
  assumes "interleaved streams texts"
  shows "interleaved (streams(w := streams w @ [a])) (texts @ [serialize a])"
proof -
  obtain log where "texts = map (\<lambda>e. serialize (snd e)) log" "\<forall>w. map snd (filter (\<lambda>e. fst e = w) log) = streams w"
    using assms by (auto simp: interleaved_def)
  then show ?thesis unfolding interleaved_def by (intro exI [of _ "log @ [(w, a)]"]) auto
qed

lemma interleaved_append:
  "interleaved streams texts \<Longrightarrow> interleaved (streams(w := streams w @ as)) (texts @ map serialize as)"
proof (induction as rule: rev_induct)
  case (snoc a as)
  from interleaved_snoc [OF snoc.IH [OF snoc.prems], of w a] show ?case
    by (simp add: fun_upd_same del: fun_upd_apply)
qed (simp add: fun_upd_idem)

lemma interleaved_mem: "interleaved streams texts \<Longrightarrow> a \<in> set (streams w) \<Longrightarrow> serialize a \<in> set texts"
proof -
  assume a: "a \<in> set (streams w)"
  assume "interleaved streams texts"
  then obtain log where log: "texts = map (\<lambda>e. serialize (snd e)) log" "map snd (filter (\<lambda>e. fst e = w) log) = streams w"
    unfolding interleaved_def by blast
  from a have "a \<in> set (map snd (filter (\<lambda>e. fst e = w) log))" by (simp only: log(2))
  then show ?thesis by (force simp: log(1))
qed

text \<open>The alerts of a worker, none for one that does not exist.\<close>

definition worker_alerts :: "('c, 'm) system \<Rightarrow> nat \<times> nat \<Rightarrow> alert list" where
  "worker_alerts sy w = (case w of (k, i) \<Rightarrow>
     if k < length (sy_pipes sy) \<and> i < length (pl_workers (fst (cp_state (sy_pipes sy ! k))))
     then alerts_of (tr_out (snd (cp_state (sy_pipes sy ! k))) i) else [])"

definition worker_at :: "('c, 'm) system \<Rightarrow> nat \<times> nat \<Rightarrow> 'm worker_pc option" where
  "worker_at sy w = (case w of (k, i) \<Rightarrow>
     if k < length (sy_pipes sy) \<and> i < length (pl_workers (fst (cp_state (sy_pipes sy ! k))))
     then Some (pl_workers (fst (cp_state (sy_pipes sy ! k))) ! i) else None)"

definition fine_inv :: "('c, 'm) capture_api \<Rightarrow> ('c, 'm) system \<times> 'm todo \<Rightarrow> bool" where
  "fine_inv api h = (case h of (sy, todo) \<Rightarrow>
     pipes_inv api sy \<and> main_inv sy \<and> (\<exists>cfg now. ws_reachable cfg now (sy_ws sy)) \<and>
     (\<exists>streams. interleaved streams (fst (sy_ws sy)) \<and>
        (\<forall>w. streams w @ alerts_of (todo w) = worker_alerts sy w)) \<and>
     (\<forall>w. todo w \<noteq> [] \<longrightarrow> (\<exists>m. worker_at sy w = Some (Wk_Check m))))"

lemma fine_invI:
  assumes "pipes_inv api sy" "main_inv sy" "ws_reachable cfg now (sy_ws sy)" "interleaved streams (fst (sy_ws sy))"
    and "\<And>w. streams w @ alerts_of (todo w) = worker_alerts sy w"
    and "\<And>w. todo w \<noteq> [] \<Longrightarrow> \<exists>m. worker_at sy w = Some (Wk_Check m)"
  shows "fine_inv api (sy, todo)"
  unfolding fine_inv_def prod.case using assms by blast

lemma fine_invE:
  assumes "fine_inv api (sy, todo)"
  obtains cfg now streams where "pipes_inv api sy" "main_inv sy" "ws_reachable cfg now (sy_ws sy)"
    "interleaved streams (fst (sy_ws sy))" "\<And>w. streams w @ alerts_of (todo w) = worker_alerts sy w"
    "\<And>w. todo w \<noteq> [] \<Longrightarrow> \<exists>m. worker_at sy w = Some (Wk_Check m)"
  using assms unfolding fine_inv_def prod.case by blast

text \<open>Every other step leaves alerts and workers as they are.\<close>

lemma workers_of_eq:
  assumes "workers_of sy' = workers_of sy"
  shows "length (sy_pipes sy') = length (sy_pipes sy)"
    "k < length (sy_pipes sy) \<Longrightarrow> pl_workers (fst (cp_state (sy_pipes sy' ! k))) = pl_workers (fst (cp_state (sy_pipes sy ! k)))"
    "worker_at sy' = worker_at sy"
proof -
  show len: "length (sy_pipes sy') = length (sy_pipes sy)"
    using arg_cong [OF assms, of length] by (simp add: workers_of_def)
  have eq: "pl_workers (fst (cp_state (sy_pipes sy' ! k))) = pl_workers (fst (cp_state (sy_pipes sy ! k)))"
    if "k < length (sy_pipes sy)" for k
    using arg_cong [OF assms, of "\<lambda>xs. xs ! k"] that len by (simp add: workers_of_def)
  then show "k < length (sy_pipes sy) \<Longrightarrow>
    pl_workers (fst (cp_state (sy_pipes sy' ! k))) = pl_workers (fst (cp_state (sy_pipes sy ! k)))" .
  show "worker_at sy' = worker_at sy" using eq by (auto simp: worker_at_def len fun_eq_iff)
qed

lemma other_step:
  assumes "system_step api encode sy sy'" "workers_of sy' = workers_of sy"
  shows "worker_alerts sy' = worker_alerts sy" "fst (sy_ws sy') = fst (sy_ws sy)"
    "ws_reachable cfg now (sy_ws sy) \<Longrightarrow> ws_reachable cfg now (sy_ws sy')"
proof -
  have same: "worker_alerts (set_pipe k (p', tr') sy) = worker_alerts sy"
    if "cp_state (sy_pipes sy ! k) = (p, tr)" "tr_out tr' = tr_out tr" "pl_workers p' = pl_workers p"
      "k < length (sy_pipes sy)" for k p tr p' tr'
    using that by (auto simp: worker_alerts_def fun_eq_iff)
  have "worker_alerts sy' = worker_alerts sy \<and> fst (sy_ws sy') = fst (sy_ws sy) \<and>
    (ws_reachable cfg now (sy_ws sy) \<longrightarrow> ws_reachable cfg now (sy_ws sy'))"
    using assms(1)
  proof cases
    case (capture k p tr t p')
    then show ?thesis
      using same [OF capture(3), of "trace_capture p p' tr" p'] by (auto elim!: capture_step_cases simp: trace_capture_def)
  next
    case (worker k p tr i n ts p' out v warn_now)
    then have "pl_workers p' = pl_workers p"
      using workers_of_eq(2) [OF assms(2) worker(2)] by simp
    with inference_step_moves [OF worker(5,4)] show ?thesis by simp
  next
    case (stop k p tr p')
    then show ?thesis using same [OF stop(4), of tr p'] by (auto elim!: stop_step_cases)
  qed (auto simp: worker_alerts_def intro: ws_reachable.step ws_step.stop_begin ws_step.stop_end)
  then show "worker_alerts sy' = worker_alerts sy" "fst (sy_ws sy') = fst (sy_ws sy)"
    "ws_reachable cfg now (sy_ws sy) \<Longrightarrow> ws_reachable cfg now (sy_ws sy')" by simp_all
qed


lemma compute_alerts:
  assumes "k < length (sy_pipes sy)" "cp_state (sy_pipes sy ! k) = (p, tr)" "i < length (pl_workers p)"
    and "inference_step cfg deps now ts i p = Some (p', out)"
  shows "worker_alerts (set_pipe k (p', trace_worker i now ts (pl_workers p ! i) (pl_workers p' ! i) out tr) sy) =
    (worker_alerts sy)((k, i) := worker_alerts sy (k, i) @ alerts_of out)"
  using assms(1-3) trace_worker_alerts [OF assms(4,3)] by (auto simp: worker_alerts_def fun_eq_iff)

lemma compute_workers:
  assumes "k < length (sy_pipes sy)" "cp_state (sy_pipes sy ! k) = (p, tr)" "i < length (pl_workers p)"
    and "inference_step cfg deps now ts i p = Some (p', out)"
  shows "w \<noteq> (k, i) \<Longrightarrow> worker_at (set_pipe k (p', tr') sy) w = worker_at sy w"
    "out \<noteq> [] \<Longrightarrow> \<exists>m. worker_at (set_pipe k (p', tr') sy) (k, i) = Some (Wk_Check m)"
  using assms by (auto simp: worker_at_def nth_list_update elim!: inference_step_cases split: prod.splits if_splits)

lemma fine_inv_step: "fine_step api encode h h' \<Longrightarrow> fine_inv api h \<Longrightarrow> fine_inv api h'"
proof (induction rule: fine_step.induct)
  case (other sy sy' todo)
  from other(3) show ?case
  proof (rule fine_invE)
    fix cfg now streams
    assume inv: "pipes_inv api sy" "main_inv sy" "ws_reachable cfg now (sy_ws sy)"
      "interleaved streams (fst (sy_ws sy))" "\<And>w. streams w @ alerts_of (todo w) = worker_alerts sy w"
      "\<And>w. todo w \<noteq> [] \<Longrightarrow> \<exists>m. worker_at sy w = Some (Wk_Check m)"
    show ?thesis
      using pipes_inv_step [OF other(1) inv(1)] main_inv_step [OF other(1) inv(2)] other_step(3) [OF other(1,2) inv(3)] inv(4-6)
      by (intro fine_invI [of api sy' cfg now streams])
        (simp_all add: other_step(1,2) [OF other(1,2)] workers_of_eq(3) [OF other(2)])
  qed
next
  case (compute k sy p tr i todo now ts p' out)
  let ?sy = "set_pipe k (p', trace_worker i now ts (pl_workers p ! i) (pl_workers p' ! i) out tr) sy"
  from compute(6) show ?case
  proof (rule fine_invE)
    fix cfg now0 streams
    assume inv: "pipes_inv api sy" "main_inv sy" "ws_reachable cfg now0 (sy_ws sy)"
      "interleaved streams (fst (sy_ws sy))" "\<And>w. streams w @ alerts_of (todo w) = worker_alerts sy w"
      "\<And>w. todo w \<noteq> [] \<Longrightarrow> \<exists>m. worker_at sy w = Some (Wk_Check m)"
    show ?thesis
    proof (rule fine_invI)
      show "pipes_inv api ?sy"
        using compute(1,2,3,5) inv(1) by (intro pipes_inv_set) (auto intro: pipe_step.worker)
      show "main_inv ?sy"
        using step_keeps_stop(2) [OF compute(5)] compute(1,2) inv(2)
        by (auto simp: main_inv_def stopped_upto_def split: main_pc.splits)
      show "streams w @ alerts_of ((todo((k, i) := out)) w) = worker_alerts ?sy w" for w
        using inv(5) [of w] compute(4) by (cases "w = (k, i)") (simp_all add: compute_alerts [OF compute(1-3,5)])
      show "\<exists>m. worker_at ?sy w = Some (Wk_Check m)" if "(todo((k, i) := out)) w \<noteq> []" for w
        using that inv(6) [of w] compute_workers [OF compute(1-3,5)] by (cases "w = (k, i)") simp_all
    qed (use inv(3,4) in simp_all)
  qed
next
  case (hand_over todo w e es sy v warn_now)
  let ?sy = "sy\<lparr>sy_viewer := v, sy_ws := publish_all warn_now (alerts_of [e]) (sy_ws sy)\<rparr>"
  have same: "worker_alerts ?sy = worker_alerts sy" "worker_at ?sy = worker_at sy"
    by (simp_all add: worker_alerts_def worker_at_def fun_eq_iff)
  from hand_over(3) show ?case
  proof (rule fine_invE)
    fix cfg now streams
    assume inv: "pipes_inv api sy" "main_inv sy" "ws_reachable cfg now (sy_ws sy)"
      "interleaved streams (fst (sy_ws sy))" "\<And>w. streams w @ alerts_of (todo w) = worker_alerts sy w"
      "\<And>w. todo w \<noteq> [] \<Longrightarrow> \<exists>m. worker_at sy w = Some (Wk_Check m)"
    show ?thesis
    proof (rule fine_invI)
      show "main_inv ?sy"
        using inv(2) view_effects_off [OF hand_over(2)]
        by (auto simp: main_inv_def stopped_upto_def publish_all_simps split: main_pc.splits)
      show "ws_reachable cfg now (sy_ws ?sy)" using publish_all_reachable [OF inv(3)] by simp
      show "interleaved (streams(w := streams w @ alerts_of [e])) (fst (sy_ws ?sy))"
        using interleaved_append [OF inv(4)] by (simp add: publish_all_simps del: alerts_of.simps)
      show "(streams(w := streams w @ alerts_of [e])) u @ alerts_of ((todo(w := es)) u) = worker_alerts ?sy u" for u
        using inv(5) [of u] hand_over(1) alerts_of_Cons [of e es]
        by (cases "u = w") (simp_all add: same del: alerts_of.simps)
      show "\<exists>m. worker_at ?sy u = Some (Wk_Check m)" if "(todo(w := es)) u \<noteq> []" for u
        using that inv(6) [of u] hand_over(1) by (cases "u = w") (simp_all add: same)
    qed (use inv(1) in \<open>simp add: pipes_inv_def\<close>)
  qed
qed

lemma fine_inv_reachable: "fine_reachable pf encode argv h \<Longrightarrow> fine_inv (pf_capture pf) h"
proof (induction rule: fine_reachable.induct)
  case (start sy)
  note inv = main_setup_inv [OF start]
  from inv(2) have "image_mset serialize (system_alerts sy) = mset (fst (sy_ws sy))" by (simp add: alerts_inv_def)
  moreover have "fst (sy_ws sy) = []" by (rule main_setup_Inr [OF start]) simp
  ultimately have "system_alerts sy = {#}" by simp
  then have "pipe_alerts (sy_pipes sy ! k) = {#}" if "k < length (sy_pipes sy)" for k
    using that by (simp add: system_alerts_def sum_eq_empty_iff)
  then have none: "alerts_of (tr_out tr i) = []"
    if "k < length (sy_pipes sy)" "cp_state (sy_pipes sy ! k) = (p, tr)" "i < length (pl_workers p)" for k p tr i
    using that(2,3) \<open>\<And>k. _ \<Longrightarrow> pipe_alerts (sy_pipes sy ! k) = {#}\<close> [OF that(1)]
    by (simp add: pipe_alerts_def sum_eq_empty_iff)
  have "worker_alerts sy w = []" for w
    using none [OF _ prod.collapse [symmetric]] by (auto simp: worker_alerts_def split: prod.splits)
  with inv interleaved_Nil show ?case
    using \<open>fst (sy_ws sy) = []\<close> by (auto simp: fine_inv_def alerts_inv_def intro!: exI [of _ "\<lambda>w. []"])
next
  case (step h h')
  from fine_inv_step [OF step(2,3)] show ?case .
qed

text \<open>Once \<open>main\<close> has stopped the pipelines nothing is left to hand over.\<close>

lemma nothing_left:
  assumes "fine_reachable pf encode argv (sy, todo)" "sy_main sy \<notin> {Main_Wait} \<union> range Main_Stop_Pipeline"
  shows "todo w = []"
proof (rule ccontr)
  have inv: "pipes_inv (pf_capture pf) sy" "main_inv sy"
    "\<And>w. todo w \<noteq> [] \<Longrightarrow> \<exists>m. worker_at sy w = Some (Wk_Check m)"
    using fine_invE [OF fine_inv_reachable [OF assms(1)]] by metis+
  assume "todo w \<noteq> []"
  then obtain m where at: "worker_at sy w = Some (Wk_Check m)" using inv(3) by blast
  obtain k i where "w = (k, i)" by (rule prod.exhaust)
  with at have w: "k < length (sy_pipes sy)" "i < length (pl_workers (fst (cp_state (sy_pipes sy ! k))))"
    "pl_workers (fst (cp_state (sy_pipes sy ! k))) ! i = Wk_Check m"
    by (simp_all add: worker_at_def split: if_splits)
  have "stopped_upto sy = length (sy_pipes sy)"
    using assms(2) by (cases "sy_main sy") (auto simp: stopped_upto_def)
  then have "pl_stop (fst (cp_state (sy_pipes sy ! k))) = Stop_Returned"
    using inv(2) w(1) by (simp add: main_inv_def)
  moreover have "stop_inv (cp_cfg (sy_pipes sy ! k)) (cp_state (sy_pipes sy ! k))"
    using inv(1) nth_mem [OF w(1)] by (auto simp: pipes_inv_def intro: stop_inv_reachable)
  ultimately have "worker_finished (pl_workers (fst (cp_state (sy_pipes sy ! k))) ! i)"
    using nth_mem [OF w(2)] by (auto simp: stop_inv_def split: prod.splits)
  with w(3) show False by (simp add: worker_finished_def)
qed

text \<open>
  C3: The publisher receives an interleaving of what the workers publish: in every state, with any
  interleaving of the single effects of all workers of all cameras, the network, the signal and \<open>main\<close>, the texts given to
  the publisher are the alerts of each worker in the worker's order, none lost, doubled or from elsewhere,
  up to those the worker still has to hand over; what is drained and what waits is a subsequence
  of them; and once \<open>main\<close> has stopped the pipelines nothing is left to hand over.
\<close>

theorem alerts_interleaved:
  assumes "fine_reachable pf encode argv (sy, todo)" "sy_ws sy = (pub, dr, s)"
  shows "\<exists>streams. interleaved streams pub \<and> (\<forall>w. streams w @ alerts_of (todo w) = worker_alerts sy w) \<and>
    subseq (dr @ wp_queue s) pub \<and> length (wp_queue s) \<le> 256 \<and>
    (if sy_main sy \<in> {Main_Wait} \<union> range Main_Stop_Pipeline then True else \<forall>w. todo w = [])"
proof -
  obtain cfg now streams where inv: "pipes_inv (pf_capture pf) sy" "main_inv sy" "ws_reachable cfg now (sy_ws sy)"
    "interleaved streams (fst (sy_ws sy))" "\<And>w. streams w @ alerts_of (todo w) = worker_alerts sy w"
    "\<And>w. todo w \<noteq> [] \<Longrightarrow> \<exists>m. worker_at sy w = Some (Wk_Check m)"
    using fine_invE [OF fine_inv_reachable [OF assms(1)]] by metis
  have "todo w = []" if "sy_main sy \<notin> {Main_Wait} \<union> range Main_Stop_Pipeline" for w
    by (rule nothing_left [OF assms(1) that])
  with inv(4,5) ws_inv_reachable [OF inv(3)] assms(2) show ?thesis
    by (auto simp: ws_inv_def kMaxQueue_def intro!: exI [of _ streams])
qed



subsection \<open>A concrete interleaving\<close>

text \<open>The signal arrives while a worker has computed an alert and not yet handed it over.\<close>

lemma scene_pending_facts:
  "case pipe_run default_pipeline_config scene_deps (camera_ops demo_api) (butlast scene_moves) (cp_state scene_pipe) of
     None \<Rightarrow> False
   | Some (p, tr) \<Rightarrow>
       (case inference_step default_pipeline_config scene_deps 0 5 0 p of
          None \<Rightarrow> False
        | Some (p', out) \<Rightarrow> length (pl_workers p) = 1 \<and> length (alerts_of out) = 1)"
  by code_simp

theorem alerts_interleaved_witness:
  "\<exists>sy todo streams. fine_reachable scene_platform scene_encode scene_argv (sy, todo) \<and> sy_stop sy \<and>
     length (alerts_of (todo (0, 0))) = 1 \<and> interleaved streams (fst (sy_ws sy)) \<and>
     streams (0, 0) @ alerts_of (todo (0, 0)) = worker_alerts sy (0, 0)"
proof -
  obtain p tr where run:
    "pipe_run default_pipeline_config scene_deps (camera_ops demo_api) (butlast scene_moves) (cp_state scene_pipe) = Some (p, tr)"
    using scene_pending_facts by (auto split: option.splits)
  note facts = scene_pending_facts [unfolded run option.case prod.case]
  obtain p' out where step: "inference_step default_pipeline_config scene_deps 0 5 0 p = Some (p', out)"
    "length (pl_workers p) = 1" "length (alerts_of out) = 1"
    using facts by (cases "inference_step default_pipeline_config scene_deps 0 5 0 p") auto
  have "\<exists>sy'. system_reachable scene_platform scene_encode scene_argv sy' \<and> sy_viewer sy' = None \<and>
      sy_main sy' = sy_main scene_start \<and> sy_stop sy' = sy_stop scene_start \<and> sy_exit sy' = sy_exit scene_start \<and>
      sy_pipes sy' = sy_pipes (set_pipe 0 (p, tr) scene_start)"
    using run by (intro pipe_run_system [OF system_reachable.start [OF scene_setup], of 0 "butlast scene_moves"])
      (simp_all add: scene_moves_def)
  then obtain sy where sy: "system_reachable scene_platform scene_encode scene_argv sy" "sy_exit sy = 0"
    "sy_pipes sy = [scene_pipe\<lparr>cp_state := (p, tr)\<rparr>]" by (auto simp: set_pipe_def)
  let ?sy = "set_pipe 0 (p', trace_worker 0 0 5 (pl_workers p ! 0) (pl_workers p' ! 0) out tr) sy"
  have "fine_reachable scene_platform scene_encode scene_argv (?sy, (\<lambda>w. [])((0, 0) := out))"
    using step sy(3) by (intro fine_reachable.step [OF system_reachable_fine [OF sy(1)]] fine_step.compute) auto
  from fine_reachable.step [OF this fine_step.other [OF system_step.signal]] sy(2)
  have r: "fine_reachable scene_platform scene_encode scene_argv (?sy\<lparr>sy_stop := True\<rparr>, (\<lambda>w. [])((0, 0) := out))"
    by (simp add: workers_of_def)
  obtain pub dr s where ws: "sy_ws (?sy\<lparr>sy_stop := True\<rparr>) = (pub, dr, s)" by (rule prod_cases3)
  from alerts_interleaved [OF r ws] obtain streams where "interleaved streams pub"
    and streams: "\<forall>w. streams w @ alerts_of (((\<lambda>w. [])((0, 0) := out)) w) = worker_alerts (?sy\<lparr>sy_stop := True\<rparr>) w"
    by (elim exE conjE)
  with spec [OF streams, of "(0, 0)"] r ws step(3) show ?thesis
    by (intro exI [of _ "?sy\<lparr>sy_stop := True\<rparr>"] exI [of _ "(\<lambda>w. [])((0, 0) := out)"] exI [of _ streams]) simp
qed


end
