(* ===== verification/System_Pools.thy ===== *)
theory System_Pools
  imports Interleaving Pool_Stop
begin

text \<open>
  The whole system on its real thread pools: the running system of \<open>Interleaving\<close>, in which each pipeline's
  workers are tasks that the threads of that pipeline's own \<^verbatim>\<open>ThreadPool\<close> take and run, and \<^verbatim>\<open>main\<close> stops a pipeline through
  \<^verbatim>\<open>shutdown\<close> of its pool.  It refines \<open>Interleaving\<close>, so that what is proved there holds on the pools.
\<close>

subsection \<open>Steps\<close>

text \<open>The pool of each pipeline.\<close>

type_synonym ('c, 'm) deployed = "(('c, 'm) system \<times> 'm todo) \<times> (nat \<Rightarrow> nat pool)"

text \<open>No worker that has been started moves: the step is not one of an inference loop.\<close>

definition no_iteration :: "('s, 'm) pipeline \<Rightarrow> ('s, 'm) pipeline \<Rightarrow> bool" where
  "no_iteration p p' = (\<forall>i < length (pl_workers p). pl_workers p' ! i \<noteq> pl_workers p ! i \<longrightarrow> pl_workers p ! i = Wk_Queued)"

text \<open>
  A step outside the pipelines: effects handed over, the network, the signal and \<open>main\<close>, which leaves a phase
  only when every \<open>start\<close> has returned; an iteration of a loop on the thread that runs it; every other step
  of a pipeline with its pool, where only \<open>main\<close>, when it has got there, calls \<open>stop\<close> and, inside it, \<open>shutdown\<close>.
\<close>

inductive deployed_step ::
  "bool \<Rightarrow> ('c, 'm) capture_api \<Rightarrow> (int \<Rightarrow> 'm \<Rightarrow> string option) \<Rightarrow>
   ('c, 'm) deployed \<Rightarrow> ('c, 'm) deployed \<Rightarrow> bool"
  for spurious api encode
where
  outside: "fine_step api encode (sy, todo) (sy', todo') \<Longrightarrow> sy_pipes sy' = sy_pipes sy \<Longrightarrow>
    (sy_main sy' \<noteq> sy_main sy \<Longrightarrow> \<forall>k < length (sy_pipes sy). all_submitted (cp_cfg (sy_pipes sy ! k)) (pools k)) \<Longrightarrow>
    deployed_step spurious api encode ((sy, todo), pools) ((sy', todo'), pools)"
| iteration: "k < length (sy_pipes sy) \<Longrightarrow> cp_state (sy_pipes sy ! k) = (p, tr) \<Longrightarrow>
    j < tp_count (pools k) \<Longrightarrow> tp_workers (pools k) j = Running i \<Longrightarrow> i < length (pl_workers p) \<Longrightarrow> todo (k, i) = [] \<Longrightarrow>
    inference_step (cp_cfg (sy_pipes sy ! k)) (cp_deps (sy_pipes sy ! k)) now ts i p = Some (p', out) \<Longrightarrow>
    deployed_step spurious api encode ((sy, todo), pools)
      ((set_pipe k (p', trace_worker i now ts (pl_workers p ! i) (pl_workers p' ! i) out tr) sy, todo((k, i) := out)), pools)"
| pipe: "k < length (sy_pipes sy) \<Longrightarrow> cp_state (sy_pipes sy ! k) = (p, tr) \<Longrightarrow>
    pool_step spurious (cp_cfg (sy_pipes sy ! k)) (cp_deps (sy_pipes sy ! k)) (camera_ops api)
      ((p, tr), pools k) ((p', tr'), s') \<Longrightarrow>
    no_iteration p p' \<Longrightarrow>
    (pl_stop p' \<noteq> pl_stop p \<or> tp_owner s' \<noteq> tp_owner (pools k) \<Longrightarrow> sy_main sy = Main_Stop_Pipeline k) \<Longrightarrow>
    deployed_step spurious api encode ((sy, todo), pools) ((set_pipe k (p', tr') sy, todo), pools(k := s'))"

inductive deployed_reachable ::
  "bool \<Rightarrow> ('n, 'c, 'm) platform \<Rightarrow> (int \<Rightarrow> 'm \<Rightarrow> string option) \<Rightarrow> string list \<Rightarrow> ('c, 'm) deployed \<Rightarrow> bool"
  for spurious pf encode argv
where
  start: "main_setup pf argv = Inr sy \<Longrightarrow>
    deployed_reachable spurious pf encode argv
      ((sy, \<lambda>w. []), \<lambda>k. tp_new (pc_inference_workers (cp_cfg (sy_pipes sy ! k))))"
| step: "deployed_reachable spurious pf encode argv h \<Longrightarrow> deployed_step spurious (pf_capture pf) encode h h' \<Longrightarrow>
    deployed_reachable spurious pf encode argv h'"

subsection \<open>Refinement of the interleaved system\<close>

text \<open>Each pipeline with its pool is in a reachable state of \<open>Pipeline_Pool\<close>.\<close>

definition pools_inv ::
  "bool \<Rightarrow> ('c, 'm) capture_api \<Rightarrow> ('c, 'm) system \<Rightarrow> (nat \<Rightarrow> nat pool) \<Rightarrow> bool"
where
  "pools_inv spurious api sy pools =
     (\<forall>k < length (sy_pipes sy).
        pool_reachable spurious (cp_cfg (sy_pipes sy ! k)) (cp_deps (sy_pipes sy ! k)) (camera_ops api)
          (cp_source (sy_pipes sy ! k)) (cp_state (sy_pipes sy ! k), pools k))"

lemma pools_inv_set:
  assumes "pools_inv spurious api sy pools" "k < length (sy_pipes sy)"
    and "pool_step spurious (cp_cfg (sy_pipes sy ! k)) (cp_deps (sy_pipes sy ! k)) (camera_ops api)
      (cp_state (sy_pipes sy ! k), pools k) (h, s)"
  shows "pools_inv spurious api (set_pipe k h sy) (pools(k := s))"
  using assms by (auto simp: pools_inv_def nth_list_update intro: pool_reachable.step)

lemma pools_inv_step:
  assumes "deployed_step spurious api encode ((sy, todo), pools) ((sy', todo'), pools')" "pools_inv spurious api sy pools"
  shows "pools_inv spurious api sy' pools'"
  using assms(1)
proof cases
  case outside
  with assms(2) show ?thesis by (simp add: pools_inv_def)
next
  case (iteration k p tr j i now ts p' out)
  from pool_step.run [OF iteration(6,7,8,10), of spurious "camera_ops api" tr] iteration(5)
  have "pool_step spurious (cp_cfg (sy_pipes sy ! k)) (cp_deps (sy_pipes sy ! k)) (camera_ops api)
      (cp_state (sy_pipes sy ! k), pools k)
      ((p', trace_worker i now ts (pl_workers p ! i) (pl_workers p' ! i) out tr), pools k)" by simp
  from pools_inv_set [OF assms(2) iteration(4) this] iteration(1,3) show ?thesis by simp
next
  case (pipe k p tr p' tr' s')
  with pools_inv_set [OF assms(2) pipe(4)] show ?thesis by simp
qed

lemma pools_inv_pooled:
  "pools_inv spurious api sy pools \<Longrightarrow> k < length (sy_pipes sy) \<Longrightarrow>
   pooled_inv (cp_cfg (sy_pipes sy ! k)) (cp_state (sy_pipes sy ! k), pools k)"
  unfolding pools_inv_def by (drule spec, drule mp, assumption, erule pooled_inv_reachable)

text \<open>A step of a pipeline with its pool is a step of the interleaved system or none.\<close>

lemma pipe_step_fine:
  assumes "pipe_step (cp_cfg (sy_pipes sy ! k)) (cp_deps (sy_pipes sy ! k)) (camera_ops api) (p, tr) (p', tr')"
    and "k < length (sy_pipes sy)" "cp_state (sy_pipes sy ! k) = (p, tr)" "no_iteration p p'"
    and "pl_stop p' \<noteq> pl_stop p \<Longrightarrow> sy_main sy = Main_Stop_Pipeline k"
    and idle: "\<And>i. i < length (pl_workers p) \<Longrightarrow> pl_workers p ! i = Wk_Queued \<Longrightarrow> todo (k, i) = []"
  shows "fine_step api encode (sy, todo) (set_pipe k (p', tr') sy, todo)"
  using assms(1)
proof cases
  case (capture t)
  then have "pl_workers p' = pl_workers p" by (auto elim: capture_step_cases)
  then have "workers_of (set_pipe k (p', tr') sy) = workers_of sy"
    using assms(2,3) by (auto simp: workers_of_def set_pipe_def map_update list_update_same_conv)
  with system_step.capture [OF assms(2,3) capture(2)] capture(1) show ?thesis by (auto intro: fine_step.other)
next
  case (worker i now ts out)
  from inference_step_moves [OF worker(3,2)] assms(4) worker(2) have queued: "pl_workers p ! i = Wk_Queued"
    by (auto simp: no_iteration_def)
  then have "out = []" using worker(3) by (auto simp: inference_step_def)
  with fine_step.compute [where todo = todo, OF assms(2,3) worker(2) idle [OF worker(2) queued] worker(3)] worker(1) idle [OF worker(2) queued]
  show ?thesis by (simp add: fun_upd_idem)
next
  case stop
  then have "pl_workers p' = pl_workers p" "pl_stop p' \<noteq> pl_stop p" by (auto elim: stop_step_cases)
  then have "workers_of (set_pipe k (p', tr') sy) = workers_of sy"
    using assms(2,3) by (auto simp: workers_of_def set_pipe_def map_update list_update_same_conv)
  with system_step.stop [OF assms(5) assms(2,3)] stop \<open>pl_stop p' \<noteq> pl_stop p\<close> show ?thesis
    by (auto intro: fine_step.other)
qed

lemma deployed_step_fine:
  assumes "deployed_step spurious api encode ((sy, todo), pools) ((sy', todo'), pools')"
    and "pools_inv spurious api sy pools" "fine_inv api (sy, todo)"
  shows "(sy', todo') = (sy, todo) \<or> fine_step api encode (sy, todo) (sy', todo')"
  using assms(1)
proof cases
  case (iteration k p tr j i now ts p' out)
  with fine_step.compute [where todo = todo, OF iteration(4,5,8,9,10)] show ?thesis by simp
next
  case (pipe k p tr p' tr' s')
  have "pooled_inv (cp_cfg (sy_pipes sy ! k)) ((p, tr), pools k)"
    using pools_inv_pooled [OF assms(2) pipe(4)] pipe(5) by simp
  from pool_step_simulated [OF pipe(6) this]
  consider "(p', tr') = (p, tr)"
    | "pipe_step (cp_cfg (sy_pipes sy ! k)) (cp_deps (sy_pipes sy ! k)) (camera_ops api) (p, tr) (p', tr')" by blast
  then show ?thesis
  proof cases
    case 1
    then have "(sy_pipes sy ! k)\<lparr>cp_state := (p', tr')\<rparr> = sy_pipes sy ! k"
      using pipe(5) by (cases "sy_pipes sy ! k") simp
    then have "set_pipe k (p', tr') sy = sy" by (simp add: set_pipe_def)
    with pipe(1,2) show ?thesis by simp
  next
    case 2
    have idle: "todo (k, i) = []" if "i < length (pl_workers p)" "pl_workers p ! i = Wk_Queued" for i
    proof (rule ccontr)
      assume "todo (k, i) \<noteq> []"
      moreover have "worker_at sy (k, i) = Some Wk_Queued" using that pipe(4,5) by (simp add: worker_at_def)
      ultimately show False using fine_invE [OF assms(3)] by (metis option.inject worker_pc.distinct(1))
    qed
    have "pl_stop p' \<noteq> pl_stop p \<Longrightarrow> sy_main sy = Main_Stop_Pipeline k" using pipe(8) by blast
    from pipe_step_fine [where todo = todo, OF 2 pipe(4,5,7) this idle] show ?thesis unfolding pipe(1,2) by blast
  qed
qed (use assms(1) in auto)

lemma deployed_refines:
  "deployed_reachable spurious pf encode argv h \<Longrightarrow>
   fine_reachable pf encode argv (fst h) \<and> pools_inv spurious (pf_capture pf) (fst (fst h)) (snd h)"
proof (induction rule: deployed_reachable.induct)
  case (start sy)
  from main_setup_Inr [OF start] obtain cfg where
    pipes: "list_all2 (pipe_of cfg (sy_viewer sy \<noteq> None)) (take (length (sy_pipes sy)) (cfg_cameras cfg)) (sy_pipes sy)"
    by blast
  have "list_all (\<lambda>cp. cp_state cp = (pl_start (cp_cfg cp) (pl_new (cp_cfg cp) (cp_source cp)), no_trace)) (sy_pipes sy)"
    by (rule list_all2_all [OF pipes]) (simp add: pipe_of_def Let_def)
  then have "pools_inv spurious (pf_capture pf) sy (\<lambda>k. tp_new (pc_inference_workers (cp_cfg (sy_pipes sy ! k))))"
    by (auto simp: pools_inv_def list_all_length intro: pool_reachable.start)
  with fine_reachable.start [OF start] show ?case by simp
next
  case (step h h')
  obtain sy todo pools sy' todo' pools' where h: "h = ((sy, todo), pools)" "h' = ((sy', todo'), pools')"
    by (metis surj_pair)
  from step(3) have inv: "fine_reachable pf encode argv (sy, todo)" "pools_inv spurious (pf_capture pf) sy pools"
    by (simp_all add: h)
  from deployed_step_fine [OF step(2) [unfolded h] inv(2) fine_inv_reachable [OF inv(1)]]
  have "fine_reachable pf encode argv (sy', todo')" using inv(1) by (auto intro: fine_reachable.step)
  with pools_inv_step [OF step(2) [unfolded h] inv(2)] show ?case by (simp add: h)
qed

subsection \<open>Shutdown\<close>

text \<open>Once its \<open>stop\<close> has returned a pipeline and its pool are at rest.\<close>

lemma returned_at_rest:
  assumes "pool_reachable spurious cfg deps ops src ((p, tr), s)" "pl_stop p = Stop_Returned"
  shows "pl_capture p = Cap_Exited" "list_all worker_finished (pl_workers p)" "tp_owner s = Joined"
    "\<forall>j < tp_count s. tp_workers s j = Exited" "tp_tasks s = []" "\<not> pool_step spurious' cfg deps ops ((p, tr), s) h"
proof -
  have inv: "tasks_inv cfg (pl_workers p) s" "phase_inv cfg (pl_stop p) s"
    using pooled_inv_reachable [OF assms(1)] by (simp_all add: pooled_inv_def)
  show capture: "pl_capture p = Cap_Exited" and "list_all worker_finished (pl_workers p)"
    using pool_stop_inv [OF assms(1)] assms(2) by (simp_all add: stop_inv_def list_all_iff)
  show joined: "tp_owner s = Joined" using inv(2) assms(2) by (simp add: phase_inv_def)
  with inv(2) show exited: "\<forall>j < tp_count s. tp_workers s j = Exited" by (simp add: phase_inv_def)
  show tasks: "tp_tasks s = []"
  proof (cases "tp_count s")
    case 0
    with inv(1) show ?thesis by (auto simp: tasks_inv_def)
  next
    case (Suc n)
    with exited inv(2) show ?thesis by (auto simp: phase_inv_def)
  qed
  have sub: "length (tp_submitted s) = pc_inference_workers cfg" "tp_notifies s = 0"
    using inv(2) assms(2) by (auto simp: phase_inv_def all_submitted_def)
  have thread: "\<not> Thread_Pool.worker_step j s s'" for j s'
    using exited by (auto elim!: Thread_Pool.worker_step.cases)
  show "\<not> pool_step spurious' cfg deps ops ((p, tr), s) h"
  proof
    assume "pool_step spurious' cfg deps ops ((p, tr), s) h"
    then show False
      by cases (use assms(2) capture joined exited sub thread in \<open>auto simp: capture_step_def stop_step_def\<close>)
  qed
qed

text \<open>
  C6: Orderly shutdown on the real pools: from the moment \<open>main\<close> stops the publisher, every \<open>stop\<close> has returned,
  all capture threads have exited and all workers are finished, the threads of every pool have been joined with no task left,
  so that neither a pipeline nor its pool can take a step, every effect has been handed over and the viewer is
  stopped; when \<open>main\<close> returns, the publisher is stopped too and the code is zero after a signal, or two without one
  when a camera has failed.
\<close>

theorem deployed_shutdown:
  assumes "deployed_reachable spurious pf encode argv ((sy, todo), pools)"
    and "sy_main sy \<notin> {Main_Wait} \<union> range Main_Stop_Pipeline"
  shows "(\<forall>k < length (sy_pipes sy).
      let cp = sy_pipes sy ! k; p = fst (cp_state cp); s = pools k
      in pl_stop p = Stop_Returned \<and> pl_capture p = Cap_Exited \<and> list_all worker_finished (pl_workers p) \<and>
         tp_owner s = Joined \<and> (\<forall>j < tp_count s. tp_workers s j = Exited) \<and> tp_tasks s = [] \<and>
         (\<forall>h. \<not> pool_step spurious (cp_cfg cp) (cp_deps cp) (camera_ops (pf_capture pf)) (cp_state cp, s) h)) \<and>
    (\<forall>w. todo w = []) \<and> viewer_off (sy_viewer sy) \<and>
    (\<forall>c. sy_main sy = Main_Return c \<longrightarrow>
       (if sy_exit sy = 0 then c = 0 \<and> sy_stop sy else c = 2) \<and>
       \<not> wp_running (snd (snd (sy_ws sy))) \<and> wp_stopped (snd (snd (sy_ws sy))))"
proof -
  from deployed_refines [OF assms(1)] have fine: "fine_reachable pf encode argv (sy, todo)"
    and pools: "pools_inv spurious (pf_capture pf) sy pools" by simp_all
  have main: "main_inv sy" using fine_inv_reachable [OF fine] by (simp add: fine_inv_def)
  have phase: "sy_main sy = Main_Stop_Publisher \<or> sy_main sy = Main_Flush \<or> (\<exists>c. sy_main sy = Main_Return c)"
    using assms(2) by (cases "sy_main sy") auto
  then have "stopped_upto sy = length (sy_pipes sy)" by (auto simp: stopped_upto_def)
  with main have returned: "pl_stop (fst (cp_state (sy_pipes sy ! k))) = Stop_Returned" if "k < length (sy_pipes sy)" for k
    using that by (simp add: main_inv_def)
  have "let cp = sy_pipes sy ! k; p = fst (cp_state cp); s = pools k
      in pl_stop p = Stop_Returned \<and> pl_capture p = Cap_Exited \<and> list_all worker_finished (pl_workers p) \<and>
         tp_owner s = Joined \<and> (\<forall>j < tp_count s. tp_workers s j = Exited) \<and> tp_tasks s = [] \<and>
         (\<forall>h. \<not> pool_step spurious (cp_cfg cp) (cp_deps cp) (camera_ops (pf_capture pf)) (cp_state cp, s) h)"
    if k: "k < length (sy_pipes sy)" for k
  proof -
    obtain p tr where state: "cp_state (sy_pipes sy ! k) = (p, tr)" by (rule prod.exhaust)
    then have r: "pool_reachable spurious (cp_cfg (sy_pipes sy ! k)) (cp_deps (sy_pipes sy ! k)) (camera_ops (pf_capture pf))
        (cp_source (sy_pipes sy ! k)) ((p, tr), pools k)"
      using pools k by (auto simp: pools_inv_def)
    have "pl_stop p = Stop_Returned" using returned [OF k] state by simp
    note rest = returned_at_rest [OF r this]
    from \<open>pl_stop p = Stop_Returned\<close> rest show ?thesis by (simp add: Let_def state)
  qed
  moreover have "todo w = []" for w by (rule nothing_left [OF fine assms(2)])
  ultimately show ?thesis using phase main by (auto simp: main_inv_def)
qed

subsection \<open>Schedules of one pipeline and its pool\<close>

text \<open>What a pipeline and its pool can do alone they can do in the system.\<close>

lemma act_cases:
  assumes "pool_act cfg deps ops a ((p, tr), s) = Some ((p', tr'), s')" "pooled_inv cfg ((p, tr), s)"
  obtains (quiet) "no_iteration p p'" "a \<noteq> Act_Stop \<Longrightarrow> pl_stop p' = pl_stop p \<and> tp_owner s' = tp_owner s"
    | (run) j i out where "j < tp_count s" "tp_workers s j = Running i" "i < length (pl_workers p)"
        "inference_step cfg deps 0 0 i p = Some (p', out)"
        "tr' = trace_worker i 0 0 (pl_workers p ! i) (pl_workers p' ! i) out tr" "s' = s"
proof (cases a)
  case Act_Capture
  with assms(1) have step: "capture_step ops (0, 0) p = Some p'" "s' = s" by auto
  then have "pl_workers p' = pl_workers p" by (auto elim: capture_step_cases)
  with step_keeps_stop(1) [OF step(1)] step(2) show thesis by (intro quiet) (auto simp: no_iteration_def)
next
  case Act_Submit
  with assms(1) have "submit_act cfg s = Some s'" "p' = p" by auto
  then show thesis
    by (intro quiet) (auto simp: no_iteration_def submit_act_def Thread_Pool.set_worker_def split: if_splits option.splits)
next
  case (Act_Thread j)
  with assms(1) have act: "thread_act cfg deps j ((p, tr), s) = Some ((p', tr'), s')" by simp
  then have j: "j < tp_count s" by (auto simp: thread_act_def split: if_splits)
  have rest: thesis if "p' = p" "tp_owner s' = tp_owner s"
    using that by (intro quiet) (auto simp: no_iteration_def)
  show thesis
  proof (cases "tp_workers s j")
    case Testing
    show thesis
    proof (cases "tp_tasks s")
      case (Cons i ts)
      from assms(2) have "tasks_inv cfg (pl_workers p) s" by (simp add: pooled_inv_def)
      from tasks_inv_take(2) [OF Thread_Pool.worker_step.take [OF j Testing Cons] _ this]
      have "pl_workers p ! i = Wk_Queued" by simp
      then have "no_iteration p (take_task i p)"
        by (auto simp: no_iteration_def take_task_def Pipeline.set_worker_def) (metis nth_list_update_neq)
      with act j Testing Cons show thesis
        by (intro quiet) (auto simp: thread_act_def take_task_def Pipeline.set_worker_def Thread_Pool.set_worker_def)
    qed (use act j Testing rest in \<open>auto simp: thread_act_def Thread_Pool.set_worker_def split: if_splits\<close>)
  next
    case (Running i)
    show thesis
    proof (cases "worker_finished (pl_workers p ! i)")
      case True
      with act j Running rest show thesis
        by (auto simp: thread_act_def Thread_Pool.set_worker_def split: if_splits)
    next
      case False
      from act have i: "i < length (pl_workers p)" by (auto simp: thread_act_def Running False split: if_splits)
      with act j Running False obtain out where
        "inference_step cfg deps 0 0 i p = Some (p', out)"
        "tr' = trace_worker i 0 0 (pl_workers p ! i) (pl_workers p' ! i) out tr" "s' = s"
        by (auto simp: thread_act_def)
      from run [OF j Running i this] show thesis .
    qed
  qed (use act j rest in \<open>auto simp: thread_act_def Thread_Pool.set_worker_def split: if_splits\<close>)
next
  case Act_Stop
  with assms(1) have "stop_act cfg ops ((p, tr), s) = Some ((p', tr'), s')" by simp
  then have "pl_workers p' = pl_workers p"
    by (auto simp: stop_act_def elim: stop_step_cases split: if_splits owner.splits)
  with Act_Stop show thesis by (intro quiet) (auto simp: no_iteration_def)
qed

lemma outside_deployed:
  "(outside_step (pf_capture pf) encode)\<^sup>*\<^sup>* f f' \<Longrightarrow> deployed_reachable spurious pf encode argv (f, pools) \<Longrightarrow>
   deployed_reachable spurious pf encode argv (f', pools)"
proof (induction rule: rtranclp_induct)
  case (step f1 f2)
  obtain sy todo sy' todo' where "f1 = (sy, todo)" "f2 = (sy', todo')" by (metis surj_pair)
  with step show ?case
    by (auto simp: outside_step_def intro: deployed_reachable.step deployed_step.outside)
qed

definition same_phase :: "('c, 'm) system \<Rightarrow> ('c, 'm) system \<Rightarrow> bool" where
  "same_phase sy sy' =
     (sy_viewer sy' = sy_viewer sy \<and> sy_main sy' = sy_main sy \<and> sy_stop sy' = sy_stop sy \<and> sy_exit sy' = sy_exit sy \<and>
      wp_running (snd (snd (sy_ws sy'))) = wp_running (snd (snd (sy_ws sy))))"

lemma deployed_act:
  assumes r: "deployed_reachable spurious pf encode argv ((sy, \<lambda>w. []), pools)"
    and k: "k < length (sy_pipes sy)" "sy_viewer sy = None" "a = Act_Stop \<Longrightarrow> sy_main sy = Main_Stop_Pipeline k"
    and act: "pool_act (cp_cfg (sy_pipes sy ! k)) (cp_deps (sy_pipes sy ! k)) (camera_ops (pf_capture pf)) a
      (cp_state (sy_pipes sy ! k), pools k) = Some (h, s)"
  shows "\<exists>sy'. deployed_reachable spurious pf encode argv ((sy', \<lambda>w. []), pools(k := s)) \<and> same_phase sy sy' \<and>
    sy_pipes sy' = sy_pipes (set_pipe k h sy)"
proof -
  obtain p tr where state: "cp_state (sy_pipes sy ! k) = (p, tr)" by (rule prod.exhaust)
  obtain p' tr' where h: "h = (p', tr')" by (rule prod.exhaust)
  have "pools_inv spurious (pf_capture pf) sy pools" using deployed_refines [OF r] by simp
  note inv = pools_inv_pooled [OF this k(1), unfolded state]
  from act [unfolded state h] inv show ?thesis
  proof (cases rule: act_cases)
    case quiet
    have "pl_stop p' \<noteq> pl_stop p \<or> tp_owner s \<noteq> tp_owner (pools k) \<Longrightarrow> sy_main sy = Main_Stop_Pipeline k"
      using quiet(2) k(3) by blast
    note step = deployed_step.pipe [where todo = "\<lambda>w. []" and pools = pools, OF k(1) state pool_act_step [OF act [unfolded state h]] quiet(1) this]
    from deployed_reachable.step [OF r step] show ?thesis
      by (intro exI [of _ "set_pipe k (p', tr') sy"]) (simp add: same_phase_def h)
  next
    case (run j i out)
    let ?sy = "set_pipe k (p', tr') sy"
    have "deployed_step spurious (pf_capture pf) encode ((sy, \<lambda>w. []), pools) ((?sy, (\<lambda>w. [])((k, i) := out)), pools)"
      unfolding run(5) by (rule deployed_step.iteration [where todo = "\<lambda>w. []" and pools = pools, OF k(1) state run(1-3) _ run(4)]) simp
    from deployed_reachable.step [OF r this]
    have r': "deployed_reachable spurious pf encode argv ((?sy, (\<lambda>w. [])((k, i) := out)), pools)" .
    have "view_effects (vc_mat_empty (pf_capture pf)) encode out (sy_viewer ?sy) = Inr None"
      by (simp add: view_effects_def k(2))
    from outside_deployed [OF hand_over_steps [OF this, of "\<lambda>w. []" "(k, i)" 0] r'] run(6) k(2) show ?thesis
      by (intro exI [of _ "?sy\<lparr>sy_viewer := None, sy_ws := publish_all 0 (alerts_of out) (sy_ws ?sy)\<rparr>"])
        (simp add: same_phase_def h fun_upd_idem publish_all_simps)
  qed
qed

lemma deployed_acts:
  assumes "deployed_reachable spurious pf encode argv ((sy, \<lambda>w. []), pools)"
    and "k < length (sy_pipes sy)" "sy_viewer sy = None" "Act_Stop \<in> set as \<Longrightarrow> sy_main sy = Main_Stop_Pipeline k"
    and "pool_acts (cp_cfg (sy_pipes sy ! k)) (cp_deps (sy_pipes sy ! k)) (camera_ops (pf_capture pf)) as
      (cp_state (sy_pipes sy ! k), pools k) = Some (h, s)"
  shows "\<exists>sy'. deployed_reachable spurious pf encode argv ((sy', \<lambda>w. []), pools(k := s)) \<and> same_phase sy sy' \<and>
    sy_pipes sy' = sy_pipes (set_pipe k h sy)"
  using assms
proof (induction as arbitrary: sy pools)
  case Nil
  then have "(sy_pipes sy ! k)\<lparr>cp_state := h\<rparr> = sy_pipes sy ! k" by (cases "sy_pipes sy ! k") simp
  then have "sy_pipes (set_pipe k h sy) = sy_pipes sy" by (simp add: set_pipe_def)
  moreover have "pools(k := s) = pools" using Nil(5) by (simp add: fun_upd_idem)
  ultimately show ?case using Nil(1) by (intro exI [of _ sy]) (simp add: same_phase_def)
next
  case (Cons a as)
  obtain h1 s1 where h1: "pool_act (cp_cfg (sy_pipes sy ! k)) (cp_deps (sy_pipes sy ! k)) (camera_ops (pf_capture pf)) a
      (cp_state (sy_pipes sy ! k), pools k) = Some (h1, s1)"
    "pool_acts (cp_cfg (sy_pipes sy ! k)) (cp_deps (sy_pipes sy ! k)) (camera_ops (pf_capture pf)) as (h1, s1) = Some (h, s)"
    using Cons.prems(5) by (auto split: option.splits)
  have "a = Act_Stop \<Longrightarrow> sy_main sy = Main_Stop_Pipeline k" using Cons.prems(4) by simp
  from deployed_act [OF Cons.prems(1-3) this h1(1)] obtain sy1 where
    sy1: "deployed_reachable spurious pf encode argv ((sy1, \<lambda>w. []), pools(k := s1))" "same_phase sy sy1"
      "sy_pipes sy1 = sy_pipes (set_pipe k h1 sy)" by blast
  have k: "k < length (sy_pipes sy1)" "sy_pipes sy1 ! k = (sy_pipes sy ! k)\<lparr>cp_state := h1\<rparr>"
    using sy1(3) Cons.prems(2) by simp_all
  have "\<exists>sy'. deployed_reachable spurious pf encode argv ((sy', \<lambda>w. []), (pools(k := s1))(k := s)) \<and> same_phase sy1 sy' \<and>
      sy_pipes sy' = sy_pipes (set_pipe k h sy1)"
    using sy1(2) Cons.prems(3,4) h1(2)
    by (intro Cons.IH [OF sy1(1) k(1)]) (simp_all add: k(2) same_phase_def)
  then obtain sy' where "deployed_reachable spurious pf encode argv ((sy', \<lambda>w. []), pools(k := s))" "same_phase sy1 sy'"
    "sy_pipes sy' = sy_pipes (set_pipe k h sy1)" by (auto simp del: fun_upd_apply)
  moreover have "sy_pipes (set_pipe k h sy1) = sy_pipes (set_pipe k h sy)"
    using sy1(3) Cons.prems(2) by (simp add: set_pipe_def)
  ultimately show ?case
    using sy1(2) by (intro exI [of _ sy']) (simp add: same_phase_def del: fun_upd_apply)
qed

subsection \<open>A lost wake-up is final\<close>

definition hangs_at :: "nat \<Rightarrow> ('c, 'm) system \<Rightarrow> (nat \<Rightarrow> nat pool) \<Rightarrow> bool" where
  "hangs_at k sy pools =
     (k < length (sy_pipes sy) \<and> sy_main sy = Main_Stop_Pipeline k \<and>
      pl_stop (fst (cp_state (sy_pipes sy ! k))) = Stop_Shutdown \<and> wakeup_lost (pools k))"

lemma outside_keeps_main:
  assumes "fine_step api encode (sy, todo) (sy', todo')" "sy_main sy = Main_Stop_Pipeline k" "k < length (sy_pipes sy)"
    and "pl_stop (fst (cp_state (sy_pipes sy ! k))) \<noteq> Stop_Returned"
  shows "sy_main sy' = Main_Stop_Pipeline k"
  using assms(1)
proof cases
  case other
  from other(2) show ?thesis by cases (use assms(2-4) in \<open>auto simp: set_pipe_def\<close>)
qed (use assms(2) in \<open>simp_all add: set_pipe_def\<close>)

lemma hangs_at_step:
  assumes "deployed_step False api encode ((sy, todo), pools) ((sy', todo'), pools')" "hangs_at k sy pools"
    and "pools_inv spurious api sy pools"
  shows "hangs_at k sy' pools'"
proof -
  have k: "k < length (sy_pipes sy)" "sy_main sy = Main_Stop_Pipeline k" "wakeup_lost (pools k)"
    "pl_stop (fst (cp_state (sy_pipes sy ! k))) = Stop_Shutdown"
    using assms(2) by (simp_all add: hangs_at_def)
  from assms(1) show ?thesis
  proof cases
    case outside
    have "sy_main sy' = Main_Stop_Pipeline k"
      by (rule outside_keeps_main [OF outside(2) k(2,1)]) (simp add: k(4))
    with assms(2) outside show ?thesis by (simp add: hangs_at_def)
  next
    case (iteration l p tr j i now ts p' out)
    have "l \<noteq> k" using iteration(6,7) k(3) by (auto simp: wakeup_lost_def)
    with assms(2) iteration(1,3) show ?thesis by (simp add: hangs_at_def set_pipe_def)
  next
    case (pipe l p tr p' tr' s')
    have "l \<noteq> k"
    proof
      assume "l = k"
      with pipe have r: "pool_reachable spurious (cp_cfg (sy_pipes sy ! k)) (cp_deps (sy_pipes sy ! k)) (camera_ops api)
          (cp_source (sy_pipes sy ! k)) ((p, tr), pools k)"
        using assms(3) by (auto simp: pools_inv_def)
      have stop: "pl_stop p = Stop_Shutdown" using k(4) pipe(5) \<open>l = k\<close> by simp
      then have "pl_capture p = Cap_Exited" using pool_stop_inv [OF r] by (simp add: stop_inv_def)
      from lost_stuck [OF pooled_inv_reachable [OF r] stop this k(3)] pipe(6) show False
        unfolding \<open>l = k\<close> by (rule notE)
    qed
    with assms(2) pipe(1,3) show ?thesis by (simp add: hangs_at_def set_pipe_def)
  qed
qed

lemma hangs_forever:
  assumes "(deployed_step False (pf_capture pf) encode)\<^sup>*\<^sup>* x y" "deployed_reachable False pf encode argv x"
    and "hangs_at k (fst (fst x)) (snd x)"
  shows "deployed_reachable False pf encode argv y \<and> hangs_at k (fst (fst y)) (snd y)"
  using assms
proof (induction rule: rtranclp_induct)
  case (step y z)
  then have y: "deployed_reachable False pf encode argv y" "hangs_at k (fst (fst y)) (snd y)" by blast+
  obtain sy todo pools sy' todo' pools' where h: "y = ((sy, todo), pools)" "z = ((sy', todo'), pools')"
    by (metis surj_pair)
  have "pools_inv False (pf_capture pf) sy pools" using deployed_refines [OF y(1)] by (simp add: h)
  from hangs_at_step [OF step(2) [unfolded h] _ this] y step(2) show ?case
    by (auto simp: h intro: deployed_reachable.step)
qed simp

subsection \<open>The steps of \<open>main\<close>\<close>

lemma deployed_other:
  assumes "deployed_reachable spurious pf encode argv ((sy, todo), pools)" "system_step (pf_capture pf) encode sy sy'"
    and "sy_pipes sy' = sy_pipes sy"
    and "sy_main sy' \<noteq> sy_main sy \<Longrightarrow> \<forall>k < length (sy_pipes sy). all_submitted (cp_cfg (sy_pipes sy ! k)) (pools k)"
  shows "deployed_reachable spurious pf encode argv ((sy', todo), pools)"
proof (rule deployed_reachable.step [OF assms(1) deployed_step.outside])
  show "fine_step (pf_capture pf) encode (sy, todo) (sy', todo)"
    by (rule fine_step.other [OF assms(2)]) (simp add: workers_of_def assms(3))
qed (use assms(3,4) in simp_all)

lemma deployed_return:
  assumes r: "deployed_reachable spurious pf encode argv ((sy, todo), pools)"
    and main: "sy_main sy = Main_Stop_Pipeline (length (sy_pipes sy))"
    and sub: "\<forall>k < length (sy_pipes sy). all_submitted (cp_cfg (sy_pipes sy ! k)) (pools k)"
  shows "\<exists>sy'. deployed_reachable spurious pf encode argv ((sy', todo), pools) \<and>
    sy_main sy' = Main_Return (sy_exit sy) \<and> sy_pipes sy' = sy_pipes sy"
proof -
  obtain pub dr s where ws: "sy_ws sy = (pub, dr, s)" by (rule prod_cases3)
  let ?s1 = "sy\<lparr>sy_viewer := map_option mjpeg_stop (sy_viewer sy), sy_main := Main_Stop_Publisher\<rparr>"
  let ?s2 = "?s1\<lparr>sy_ws := (pub, dr, ws_stop_begin s), sy_main := Main_Flush\<rparr>"
  let ?s3 = "?s2\<lparr>sy_ws := (pub, dr, ws_stop_end (ws_stop_begin s)), sy_main := Main_Return (sy_exit ?s2)\<rparr>"
  have s1: "deployed_reachable spurious pf encode argv ((?s1, todo), pools)"
    by (rule deployed_other [OF r system_step.viewer [OF main]]) (simp_all add: sub)
  have s2: "deployed_reachable spurious pf encode argv ((?s2, todo), pools)"
    by (rule deployed_other [OF s1 system_step.publisher [of ?s1 pub dr s]]) (simp_all add: sub ws)
  have "deployed_reachable spurious pf encode argv ((?s3, todo), pools)"
    by (rule deployed_other [OF s2 system_step.return [of ?s2 pub dr "ws_stop_begin s"]]) (simp_all add: sub)
  then show ?thesis by (intro exI [of _ ?s3]) simp
qed

subsection \<open>A concrete run\<close>

definition frame_acts :: "pool_action list" where
  "frame_acts = [Act_Submit, Act_Submit, Act_Capture, Act_Capture, Act_Capture] @ replicate 5 (Act_Thread 0)"

definition quit_acts :: "pool_action list" where
  "quit_acts =
     [Act_Stop, Act_Stop, Act_Capture, Act_Stop, Act_Thread 0, Act_Thread 0, Act_Stop, Act_Stop,
      Act_Thread 0, Act_Thread 0, Act_Stop, Act_Stop, Act_Stop]"

text \<open>The wake-up is lost: the thread has looked for a task just before the flag is set.\<close>

definition lost_acts :: "pool_action list" where
  "lost_acts =
     [Act_Stop, Act_Stop, Act_Capture, Act_Stop, Act_Thread 0, Act_Thread 0, Act_Thread 0, Act_Thread 0,
      Act_Stop, Act_Stop, Act_Thread 0]"

definition scene_pooled :: "(bool camera_source, unit) pooled" where
  "scene_pooled = (cp_state scene_pipe, tp_new (pc_inference_workers default_pipeline_config))"

lemma scene_acts_facts:
  "case pool_acts default_pipeline_config scene_deps (camera_ops demo_api) frame_acts scene_pooled of
     None \<Rightarrow> False
   | Some h \<Rightarrow> all_submitted default_pipeline_config (snd h) \<and>
       length (pl_workers (fst (fst h))) = 1 \<and> tp_started (snd h) = [0] \<and>
       map al_timestamp (alerts_of (tr_out (snd (fst h)) 0)) = [0] \<and>
       (case pool_acts default_pipeline_config scene_deps (camera_ops demo_api) quit_acts h of
          None \<Rightarrow> False
        | Some h' \<Rightarrow> pl_stop (fst (fst h')) = Stop_Returned \<and> all_submitted default_pipeline_config (snd h')) \<and>
       (case pool_acts default_pipeline_config scene_deps (camera_ops demo_api) lost_acts h of
          None \<Rightarrow> False
        | Some ((p, tr), s) \<Rightarrow> pl_stop p = Stop_Shutdown \<and> tp_count s = 1 \<and> tp_owner s = Joining \<and> tp_mutex s = None \<and>
            tp_workers s 0 = Asleep \<and> length (pl_workers p) = 1 \<and> map al_timestamp (alerts_of (tr_out tr 0)) = [0])"
  by code_simp

text \<open>After one frame the signal arrives and \<open>main\<close> begins to stop the pipeline.\<close>

lemma scene_signalled:
  obtains sy pools h s where "deployed_reachable spurious scene_platform encode scene_argv ((sy, \<lambda>w. []), pools)"
    "sy_main sy = Main_Stop_Pipeline 0" "sy_stop sy" "sy_exit sy = 0" "sy_viewer sy = None"
    "sy_pipes sy = [scene_pipe\<lparr>cp_state := h\<rparr>]" "pools 0 = s"
    "pool_acts default_pipeline_config scene_deps (camera_ops demo_api) frame_acts scene_pooled = Some (h, s)"
proof -
  obtain h s where run: "pool_acts default_pipeline_config scene_deps (camera_ops demo_api) frame_acts scene_pooled = Some (h, s)"
    using scene_acts_facts by (auto split: option.splits)
  note facts = scene_acts_facts [unfolded run option.case]
  let ?pools = "\<lambda>k. tp_new (pc_inference_workers (cp_cfg (sy_pipes scene_start ! k)))"
  have "\<exists>sy'. deployed_reachable spurious scene_platform encode scene_argv ((sy', \<lambda>w. []), ?pools(0 := s)) \<and>
      same_phase scene_start sy' \<and> sy_pipes sy' = sy_pipes (set_pipe 0 h scene_start)"
    using run by (intro deployed_acts [OF deployed_reachable.start [OF scene_setup], of 0 frame_acts])
      (simp_all add: scene_pooled_def frame_acts_def)
  then obtain sy where sy: "deployed_reachable spurious scene_platform encode scene_argv ((sy, \<lambda>w. []), ?pools(0 := s))"
    "same_phase scene_start sy" "sy_pipes sy = [scene_pipe\<lparr>cp_state := h\<rparr>]"
    by (auto simp: set_pipe_def simp del: fun_upd_apply)
  have sub: "all_submitted default_pipeline_config s" using facts by simp
  let ?s1 = "sy\<lparr>sy_stop := True\<rparr>"
  have s1: "deployed_reachable spurious scene_platform encode scene_argv ((?s1, \<lambda>w. []), ?pools(0 := s))"
    by (rule deployed_other [OF sy(1) system_step.signal]) (use sy(2) in \<open>simp_all add: same_phase_def\<close>)
  have "deployed_reachable spurious scene_platform encode scene_argv
      ((?s1\<lparr>sy_main := Main_Stop_Pipeline 0\<rparr>, \<lambda>w. []), ?pools(0 := s))"
    by (rule deployed_other [OF s1 system_step.wait]) (use sy(2,3) sub in \<open>simp_all add: same_phase_def\<close>)
  then show thesis by (rule that) (use sy(2,3) run in \<open>simp_all add: same_phase_def\<close>)
qed

text \<open>An alert that a worker with nothing left to hand over has published is with the publisher.\<close>

lemma handed_over:
  assumes "fine_reachable pf encode argv (sy, todo)" "k < length (sy_pipes sy)" "cp_state (sy_pipes sy ! k) = (p, tr)"
    and "i < length (pl_workers p)" "todo (k, i) = []" "a \<in> set (alerts_of (tr_out tr i))"
  shows "serialize a \<in> set (fst (sy_ws sy))"
proof -
  obtain streams where "interleaved streams (fst (sy_ws sy))" "\<And>w. streams w @ alerts_of (todo w) = worker_alerts sy w"
    using fine_invE [OF fine_inv_reachable [OF assms(1)]] by metis
  from this(1) this(2) [of "(k, i)"] assms(2-6) show ?thesis
    by (intro interleaved_mem [of streams _ a "(k, i)"]) (simp_all add: worker_alerts_def)
qed

text \<open>
  C15: The program can hang when it is asked to stop: there is a run in which a frame is processed, an alert is
  handed to the publisher and the signal arrives, after which \<open>main\<close> never gets past the first pipeline, whatever
  happens then: it stays inside \<^verbatim>\<open>shutdown\<close> of the pool, whose thread sleeps, so that the process does not return
  and the viewer and the publisher are never told to stop.
\<close>

theorem shutdown_can_hang:
  "\<exists>sy pools. deployed_reachable False scene_platform scene_encode scene_argv ((sy, \<lambda>w. []), pools) \<and>
     sy_stop sy \<and> fst (sy_ws sy) \<noteq> [] \<and>
     (\<forall>sy' todo' pools'. (deployed_step False demo_api scene_encode)\<^sup>*\<^sup>* ((sy, \<lambda>w. []), pools) ((sy', todo'), pools') \<longrightarrow>
        sy_main sy' = Main_Stop_Pipeline 0 \<and> pl_stop (fst (cp_state (sy_pipes sy' ! 0))) = Stop_Shutdown \<and>
        wakeup_lost (pools' 0))"
proof -
  obtain sy pools h s where sy: "deployed_reachable False scene_platform scene_encode scene_argv ((sy, \<lambda>w. []), pools)"
    "sy_main sy = Main_Stop_Pipeline 0" "sy_stop sy" "sy_viewer sy = None" "sy_pipes sy = [scene_pipe\<lparr>cp_state := h\<rparr>]" "pools 0 = s"
    and run: "pool_acts default_pipeline_config scene_deps (camera_ops demo_api) frame_acts scene_pooled = Some (h, s)"
    by (rule scene_signalled)
  note facts = scene_acts_facts [unfolded run option.case]
  obtain p tr s' where lost: "pool_acts default_pipeline_config scene_deps (camera_ops demo_api) lost_acts (h, s) = Some ((p, tr), s')"
    using facts by (auto split: option.splits)
  note facts = facts [unfolded lost option.case prod.case]
  have "\<exists>sy'. deployed_reachable False scene_platform scene_encode scene_argv ((sy', \<lambda>w. []), pools(0 := s')) \<and>
      same_phase sy sy' \<and> sy_pipes sy' = sy_pipes (set_pipe 0 (p, tr) sy)"
    using lost sy(2,4-6) by (intro deployed_acts [OF sy(1), of 0 lost_acts]) simp_all
  then obtain sy' where sy': "deployed_reachable False scene_platform scene_encode scene_argv ((sy', \<lambda>w. []), pools(0 := s'))"
    "same_phase sy sy'" "sy_pipes sy' = [scene_pipe\<lparr>cp_state := (p, tr)\<rparr>]"
    using sy(5) by (auto simp: set_pipe_def simp del: fun_upd_apply)
  have hangs: "hangs_at 0 sy' (pools(0 := s'))"
    using facts sy'(2,3) sy(2) by (simp add: hangs_at_def same_phase_def wakeup_lost_def)
  have fine: "fine_reachable scene_platform scene_encode scene_argv (sy', \<lambda>w. [])"
    using deployed_refines [OF sy'(1)] by simp
  obtain a where "a \<in> set (alerts_of (tr_out tr 0))" using facts by (cases "alerts_of (tr_out tr 0)") auto
  then have "serialize a \<in> set (fst (sy_ws sy'))"
    by (intro handed_over [OF fine, of 0 p tr 0]) (use sy'(3) facts in simp_all)
  then have "fst (sy_ws sy') \<noteq> []" by auto
  moreover have "hangs_at 0 sy'' pools''"
    if "(deployed_step False demo_api scene_encode)\<^sup>*\<^sup>* ((sy', \<lambda>w. []), pools(0 := s')) ((sy'', todo''), pools'')" for sy'' todo'' pools''
    using hangs_forever [of scene_platform scene_encode, simplified, OF that sy'(1)] hangs by simp
  moreover have "sy_stop sy'" using sy'(2) sy(3) by (simp add: same_phase_def)
  ultimately show ?thesis
    using sy'(1) unfolding hangs_at_def
    by (intro exI [of _ sy'] exI [of _ "pools(0 := s')"] conjI allI impI) (assumption | blast)+
qed

theorem shutdown_can_hang_witness:
  "\<exists>sy pools. deployed_reachable False scene_platform scene_encode scene_argv ((sy, \<lambda>w. []), pools) \<and>
     sy_stop sy \<and> sy_main sy = Main_Stop_Pipeline 0 \<and> wakeup_lost (pools 0)"
  using shutdown_can_hang by blast

theorem deployed_shutdown_witness:
  "\<exists>sy pools. deployed_reachable False scene_platform scene_encode scene_argv ((sy, \<lambda>w. []), pools) \<and>
     sy_main sy = Main_Return 0 \<and> length (sy_pipes sy) = 1 \<and> tp_owner (pools 0) = Joined \<and>
     pl_capture (fst (cp_state (sy_pipes sy ! 0))) = Cap_Exited \<and> wp_stopped (snd (snd (sy_ws sy)))"
proof -
  obtain sy pools h s where sy: "deployed_reachable False scene_platform scene_encode scene_argv ((sy, \<lambda>w. []), pools)"
    "sy_main sy = Main_Stop_Pipeline 0" "sy_exit sy = 0" "sy_viewer sy = None" "sy_pipes sy = [scene_pipe\<lparr>cp_state := h\<rparr>]" "pools 0 = s"
    and run: "pool_acts default_pipeline_config scene_deps (camera_ops demo_api) frame_acts scene_pooled = Some (h, s)"
    by (rule scene_signalled)
  note facts = scene_acts_facts [unfolded run option.case]
  obtain h' s' where quit: "pool_acts default_pipeline_config scene_deps (camera_ops demo_api) quit_acts (h, s) = Some (h', s')"
    using facts by (auto split: option.splits)
  note facts = facts [unfolded quit option.case]
  have "\<exists>sy'. deployed_reachable False scene_platform scene_encode scene_argv ((sy', \<lambda>w. []), pools(0 := s')) \<and>
      same_phase sy sy' \<and> sy_pipes sy' = sy_pipes (set_pipe 0 h' sy)"
    using quit sy(2,4-6) by (intro deployed_acts [OF sy(1), of 0 quit_acts]) simp_all
  then obtain s1 where s1: "deployed_reachable False scene_platform scene_encode scene_argv ((s1, \<lambda>w. []), pools(0 := s'))"
    "same_phase sy s1" "sy_pipes s1 = [scene_pipe\<lparr>cp_state := h'\<rparr>]"
    using sy(5) by (auto simp: set_pipe_def simp del: fun_upd_apply)
  let ?s2 = "s1\<lparr>sy_main := Main_Stop_Pipeline (Suc 0)\<rparr>"
  have s2: "deployed_reachable False scene_platform scene_encode scene_argv ((?s2, \<lambda>w. []), pools(0 := s'))"
    by (rule deployed_other [OF s1(1) system_step.stopped]) (use s1(2,3) sy(2) facts in \<open>simp_all add: same_phase_def\<close>)
  have "sy_exit ?s2 = 0" using s1(2) sy(3) by (simp add: same_phase_def)
  have "sy_main ?s2 = Main_Stop_Pipeline (length (sy_pipes ?s2))" using s1(3) by simp
  moreover have "\<forall>k < length (sy_pipes ?s2). all_submitted (cp_cfg (sy_pipes ?s2 ! k)) ((pools(0 := s')) k)"
    using s1(3) facts by simp
  ultimately obtain s3 where
    "deployed_reachable False scene_platform scene_encode scene_argv ((s3, \<lambda>w. []), pools(0 := s'))"
    "sy_main s3 = Main_Return (sy_exit ?s2)" "sy_pipes s3 = sy_pipes ?s2"
    using deployed_return [OF s2] by blast
  with \<open>sy_exit ?s2 = 0\<close> s1(3) have s3:
    "deployed_reachable False scene_platform scene_encode scene_argv ((s3, \<lambda>w. []), pools(0 := s'))"
    "sy_main s3 = Main_Return 0" "sy_pipes s3 = [scene_pipe\<lparr>cp_state := h'\<rparr>]" by simp_all
  have "sy_main s3 \<notin> {Main_Wait} \<union> range Main_Stop_Pipeline" using s3(2) by auto
  from deployed_shutdown [OF s3(1) this] s3 show ?thesis
    by (intro exI [of _ s3] exI [of _ "pools(0 := s')"]) (simp add: Let_def)
qed

text \<open>
  C16: The system of \<open>Interleaving\<close>, and so all that is shown of it, describes the program on its real thread pools:
  with any interleaving of all threads of all pools, the state of pipelines, viewer, publisher and \<open>main\<close> is reachable there,
  each pipeline with its pool is in a reachable state of its own, and the tasks that have not been taken are exactly its workers
  that have not started.
\<close>

theorem pools_refine_system:
  assumes "deployed_reachable spurious pf encode argv ((sy, todo), pools)"
  shows "fine_reachable pf encode argv (sy, todo) \<and>
    (\<forall>k < length (sy_pipes sy). let cp = sy_pipes sy ! k; ws = pl_workers (fst (cp_state cp)); s = pools k in
       pool_reachable spurious (cp_cfg cp) (cp_deps cp) (camera_ops (pf_capture pf)) (cp_source cp) (cp_state cp, s) \<and>
       tp_reachable (length ws) s \<and> (\<forall>i < length ws. i \<notin> set (tp_started s) \<longleftrightarrow> ws ! i = Wk_Queued))"
proof -
  note r = deployed_refines [OF assms, simplified]
  have "let cp = sy_pipes sy ! k; ws = pl_workers (fst (cp_state cp)); s = pools k in
       pool_reachable spurious (cp_cfg cp) (cp_deps cp) (camera_ops (pf_capture pf)) (cp_source cp) (cp_state cp, s) \<and>
       tp_reachable (length ws) s \<and> (\<forall>i < length ws. i \<notin> set (tp_started s) \<longleftrightarrow> ws ! i = Wk_Queued)"
    if k: "k < length (sy_pipes sy)" for k
  proof -
    obtain p tr where state: "cp_state (sy_pipes sy ! k) = (p, tr)" by (rule prod.exhaust)
    from r k have "pool_reachable spurious (cp_cfg (sy_pipes sy ! k)) (cp_deps (sy_pipes sy ! k)) (camera_ops (pf_capture pf))
        (cp_source (sy_pipes sy ! k)) ((p, tr), pools k)" by (auto simp: pools_inv_def simp flip: state)
    with pool_refines [OF this] show ?thesis by (auto simp: Let_def state tasks_inv_def)
  qed
  with r show ?thesis by simp
qed

theorem pools_refine_system_witness:
  "\<exists>sy pools. fine_reachable scene_platform scene_encode scene_argv (sy, \<lambda>w. []) \<and> sy_stop sy \<and>
     tp_reachable 1 (pools (0::nat) :: nat pool) \<and> tp_started (pools 0) = [0] \<and>
     pl_workers (fst (cp_state (sy_pipes sy ! 0))) ! 0 \<noteq> Wk_Queued"
proof -
  obtain sy pools h s where sy: "deployed_reachable False scene_platform scene_encode scene_argv ((sy, \<lambda>w. []), pools)"
    "sy_stop sy" "sy_pipes sy = [scene_pipe\<lparr>cp_state := h\<rparr>]" "pools 0 = s"
    and run: "pool_acts default_pipeline_config scene_deps (camera_ops demo_api) frame_acts scene_pooled = Some (h, s)"
    by (rule scene_signalled)
  have "length (pl_workers (fst h)) = 1" "tp_started s = [0]"
    using scene_acts_facts [unfolded run option.case] by simp_all
  with pools_refine_system [OF sy(1)] sy(2-4) show ?thesis
    by (intro exI [of _ sy] exI [of _ pools]) (simp add: Let_def)
qed

end
