(* ===== verification/Alert_Delivery.thy ===== *)
theory Alert_Delivery
  imports System_Pools
begin

text \<open>
  From a worker to a client of \<^verbatim>\<open>WebSocketAlertPublisher\<close>: what it takes, in the running system on its thread
  pools, until an alert a worker has decided to publish has been sent to a connected client.
\<close>

subsection \<open>Writing what a session has taken over\<close>

definition unsent :: "ws_session \<Rightarrow> string list" where
  "unsent ss = (case ss_in_flight ss of None \<Rightarrow> [] | Some m \<Rightarrow> [m]) @ ss_pending ss"

lemma session_stream_unsent: "session_stream ss = ss_received ss @ unsent ss"
  by (simp add: session_stream_def unsent_def)

text \<open>A successful write sends the first unsent text and starts the next write.\<close>

lemma write_done_unsent:
  assumes "session_inv dr ss" "unsent ss \<noteq> []"
  shows "ss_in_flight ss \<noteq> None" "unsent (write_done ss) = tl (unsent ss)"
    "session_stream (write_done ss) = session_stream ss"
  using assms
  by (auto simp: session_inv_def unsent_def write_done_def do_write_def session_stream_def split: option.splits list.splits)

text \<open>The steps of the network: handlers, which neither start nor stop the publisher.\<close>

definition network_step :: "ws_history \<Rightarrow> ws_history \<Rightarrow> bool" where
  "network_step h h' = (case (h, h') of ((pub, dr, s), (pub', dr', s')) \<Rightarrow>
     ws_step h h' \<and> pub' = pub \<and> wp_running s' = wp_running s \<and> wp_stopped s' = wp_stopped s)"

lemma written_step:
  assumes "\<not> wp_stopped s" "(i, ss) \<in> set (wp_sessions s)" "ss_in_flight ss \<noteq> None"
  shows "network_step (pub, dr, s) (pub, dr, write_completed False i s)"
    "(i, write_done ss) \<in> set (wp_sessions (write_completed False i s))"
    "\<not> wp_stopped (write_completed False i s)"
  using assms ws_step.written [OF assms, of pub dr False]
  by (auto simp: network_step_def write_completed_def update_session_def image_iff intro: bexI [of _ "(i, ss)"])

lemma writes_run:
  assumes "\<not> wp_stopped s" "(i, ss) \<in> set (wp_sessions s)" "session_inv dr ss" "length (unsent ss) = n"
  shows "\<exists>s' ss'. (network_step ^^ n) (pub, dr, s) (pub, dr, s') \<and> (i, ss') \<in> set (wp_sessions s') \<and>
    ss_received ss' = session_stream ss"
  using assms
proof (induction n arbitrary: s ss)
  case 0
  then show ?case by (intro exI [of _ s] exI [of _ ss]) (simp add: session_stream_unsent)
next
  case (Suc n)
  have "unsent ss \<noteq> []" using Suc.prems(4) by auto
  note w = write_done_unsent [OF Suc.prems(3) this]
  note step = written_step [OF Suc.prems(1,2) w(1)]
  have "length (unsent (write_done ss)) = n" using w(2) Suc.prems(4) by simp
  from Suc.IH [OF step(3,2) write_done_inv [OF Suc.prems(3)] this] obtain s' ss' where
    "(network_step ^^ n) (pub, dr, write_completed False i s) (pub, dr, s')" "(i, ss') \<in> set (wp_sessions s')"
    "ss_received ss' = session_stream ss" using w(3) by auto
  with relpowp_Suc_I2 [of network_step, OF step(1) [of pub dr]] show ?case by blast
qed

text \<open>What a drain hands to a session.\<close>

lemma fold_broadcast_map: "fold broadcast ms sessions = map (map_prod id (fold session_send ms)) sessions"
  by (induction ms arbitrary: sessions) (auto simp: broadcast_def prod.map_comp prod.map_id0)

lemma session_sends:
  assumes "session_inv dr ss" "ss_ready ss"
  shows "session_inv (dr @ ms) (fold session_send ms ss) \<and> session_stream (fold session_send ms ss) = session_stream ss @ ms \<and>
    ss_received (fold session_send ms ss) = ss_received ss"
  using assms
proof (induction ms arbitrary: dr ss)
  case (Cons m ms)
  have "ss_received (session_send m ss) = ss_received ss"
    by (simp add: session_send_def do_write_def Let_def split: list.splits)
  with Cons.IH [OF session_send_inv [OF Cons.prems(1)]] session_send_stream [OF Cons.prems(1)] Cons.prems(2) show ?case
    by simp
qed simp

text \<open>One drain, then the writes: the client has received all that waits for it.\<close>

lemma drain_run:
  assumes inv: "ws_inv (pub, dr, s)" and s: "\<not> wp_stopped s" "0 < wp_posted s" "(i, ss) \<in> set (wp_sessions s)" "ss_ready ss"
  shows "\<exists>dr' s' ss'. (network_step ^^ Suc (length (unsent ss @ wp_queue s))) (pub, dr, s) (pub, dr', s') \<and>
    (i, ss') \<in> set (wp_sessions s') \<and> ss_received ss' = session_stream ss @ wp_queue s"
proof -
  let ?s = "(do_drain s)\<lparr>wp_posted := wp_posted s - 1\<rparr>" and ?ss = "fold session_send (wp_queue s) ss"
  have "session_inv dr ss" using inv s(3) by (auto simp: ws_inv_def)
  note sends = session_sends [OF this s(4), of "wp_queue s"]
  have n: "length (unsent ?ss) = length (unsent ss @ wp_queue s)"
    using arg_cong [OF conjunct1 [OF conjunct2 [OF sends]], of length] sends by (simp add: session_stream_unsent)
  have "\<not> wp_stopped ?s" "(i, ?ss) \<in> set (wp_sessions ?s)"
    using s(1,3) by (auto simp: do_drain_def fold_broadcast_map image_iff intro: bexI [of _ "(i, ss)"])
  from writes_run [OF this conjunct1 [OF sends] n, of pub] sends obtain s' ss' where
    run: "(network_step ^^ length (unsent ss @ wp_queue s)) (pub, dr @ wp_queue s, ?s) (pub, dr @ wp_queue s, s')"
    and ss': "(i, ss') \<in> set (wp_sessions s')" "ss_received ss' = session_stream ss @ wp_queue s" by auto
  have "network_step (pub, dr, s) (pub, dr @ wp_queue s, ?s)"
    using ws_step.drain [OF s(1,2), of pub dr] by (simp add: network_step_def do_drain_def)
  from relpowp_Suc_I2 [of network_step, OF this run] ss' show ?thesis by blast
qed

subsection \<open>In the running system\<close>

text \<open>The I/O context of the publisher runs until \<open>main\<close> returns.\<close>

definition publisher_alive :: "('c, 'm) system \<Rightarrow> bool" where
  "publisher_alive sy = (wp_stopped (snd (snd (sy_ws sy))) \<longrightarrow> (\<exists>c. sy_main sy = Main_Return c))"

lemma publisher_alive_step:
  assumes "fine_step api encode (sy, todo) (sy', todo')" "publisher_alive sy"
  shows "publisher_alive sy'"
  using assms(1)
proof cases
  case other
  from other(2) show ?thesis
    by cases (use assms(2) in \<open>auto simp: publisher_alive_def publish_all_simps ws_stop_begin_def set_pipe_def\<close>)
qed (use assms(2) in \<open>simp_all add: publisher_alive_def publish_all_simps set_pipe_def\<close>)

lemma publisher_alive_reachable: "fine_reachable pf encode argv h \<Longrightarrow> publisher_alive (fst h)"
proof (induction rule: fine_reachable.induct)
  case (start sy)
  obtain cfg :: system_config where "sy_ws sy = ([], [], snd (ws_start (pf_ws_bind pf) (ws_new (cfg_websocket cfg) (pf_now pf))))"
    by (rule main_setup_Inr [OF start]) blast
  then show ?case by (simp add: publisher_alive_def ws_start_def ws_new_def split: sum.splits)
next
  case (step h h')
  then show ?case by (metis publisher_alive_step prod.collapse)
qed

text \<open>Steps of the network are steps of the system.\<close>

lemma network_deployed:
  assumes "network_step (sy_ws sy) h"
  shows "deployed_step spurious api encode ((sy, todo), pools) ((sy\<lparr>sy_ws := h\<rparr>, todo), pools)"
proof -
  obtain pub dr s dr' s' where h: "sy_ws sy = (pub, dr, s)" "h = (pub, dr', s')" "ws_step (pub, dr, s) (pub, dr', s')"
    "wp_running s' = wp_running s" "wp_stopped s' = wp_stopped s"
    using assms by (auto simp: network_step_def split: prod.splits)
  from fine_step.other [OF system_step.network [OF h(1,3-5)]]
  have "fine_step api encode (sy, todo) (sy\<lparr>sy_ws := h\<rparr>, todo)" by (simp add: workers_of_def h(2))
  then show ?thesis by (rule deployed_step.outside) simp_all
qed

lemma network_run:
  "(network_step ^^ n) (sy_ws sy) h \<Longrightarrow>
   (deployed_step spurious api encode ^^ n) ((sy, todo), pools) ((sy\<lparr>sy_ws := h\<rparr>, todo), pools)"
proof (induction n arbitrary: h)
  case (Suc n)
  then obtain h1 where h1: "(network_step ^^ n) (sy_ws sy) h1" "network_step h1 h" by auto
  have "network_step (sy_ws (sy\<lparr>sy_ws := h1\<rparr>)) h" using h1(2) by simp
  from network_deployed [OF this] have "deployed_step spurious api encode
      ((sy\<lparr>sy_ws := h1\<rparr>, todo), pools) ((sy\<lparr>sy_ws := h\<rparr>, todo), pools)" by simp
  with Suc.IH [OF h1(1)] show ?case by auto
qed (simp add: relpowp_0_I)

subsection \<open>The property\<close>

text \<open>
  C4: An alert reaches every connected client: when a worker of the running system has an alert to hand over and a session's
  handshake is complete, then handing it over, one drain and the successful writes of what the client has not yet
  been sent and of at most 256 alerts are steps the system can take, whatever else it is doing, and after them the client
  has received, in order and without a gap, all that the session had taken over and all that waited, the alert last.
\<close>

theorem alert_reaches_client:
  assumes "deployed_reachable spurious pf encode argv ((sy, todo), pools)" "todo w = Alert_Publish a # es"
    and "sy_ws sy = (pub, dr, s)" "(i, ss) \<in> set (wp_sessions s)" "ss_ready ss"
  shows "\<exists>n sy' ss'. n \<le> 258 + length (unsent ss) \<and>
    (deployed_step spurious (pf_capture pf) encode ^^ n) ((sy, todo), pools) ((sy', todo(w := es)), pools) \<and>
    (i, ss') \<in> set (wp_sessions (snd (snd (sy_ws sy')))) \<and>
    ss_received ss' = session_stream ss @ drop (Suc (length (wp_queue s)) - 256) (wp_queue s @ [serialize a])"
proof -
  have fine: "fine_reachable pf encode argv (sy, todo)" using deployed_refines [OF assms(1)] by simp
  have alive: "\<not> wp_stopped s"
  proof
    assume "wp_stopped s"
    then obtain c where "sy_main sy = Main_Return c"
      using publisher_alive_reachable [OF fine] assms(3) by (auto simp: publisher_alive_def)
    then have "sy_main sy \<notin> {Main_Wait} \<union> range Main_Stop_Pipeline" by auto
    from nothing_left [OF fine this, of w] assms(2) show False by simp
  qed
  obtain cfg now where "ws_reachable cfg now (sy_ws sy)"
    using fine_inv_reachable [OF fine] by (auto simp: fine_inv_def)
  then have "ws_reachable cfg now (publish_all 0 [a] (sy_ws sy))" by (rule publish_all_reachable)
  note inv = ws_inv_reachable [OF this]
  let ?s = "snd (snd (ws_publish 0 a s))"
  have publish: "publish_all 0 [a] (sy_ws sy) = (pub @ [serialize a], dr, ?s)" by (simp add: assms(3))
  have queue: "wp_queue ?s = drop (Suc (length (wp_queue s)) - 256) (wp_queue s @ [serialize a])"
    "length (wp_queue ?s) \<le> 256"
    using ws_inv_reachable [OF \<open>ws_reachable cfg now (sy_ws sy)\<close>] inv publish assms(3)
    by (auto simp: ws_publish_def Let_def enqueue_def ws_inv_def kMaxQueue_def drop_Suc)
  have "ws_inv (pub @ [serialize a], dr, ?s)" using inv publish by simp
  from drain_run [OF this, of i ss] alive assms(4,5) obtain dr' s' ss' where
    run: "(network_step ^^ Suc (length (unsent ss @ wp_queue ?s))) (pub @ [serialize a], dr, ?s) (pub @ [serialize a], dr', s')"
    and ss': "(i, ss') \<in> set (wp_sessions s')" "ss_received ss' = session_stream ss @ wp_queue ?s"
    by (auto simp: ws_publish_def Let_def)
  let ?sy = "sy\<lparr>sy_ws := publish_all 0 [a] (sy_ws sy)\<rparr>"
  have "view_effects (vc_mat_empty (pf_capture pf)) encode [Alert_Publish a] (sy_viewer sy) = Inr (sy_viewer sy)"
    by (simp add: view_effects_def split: option.splits)
  from fine_step.hand_over [of todo, OF assms(2) this, of 0]
  have "deployed_step spurious (pf_capture pf) encode ((sy, todo), pools) ((?sy, todo(w := es)), pools)"
    by (intro deployed_step.outside) simp_all
  moreover
  have "(network_step ^^ Suc (length (unsent ss @ wp_queue ?s))) (sy_ws ?sy) (pub @ [serialize a], dr', s')"
    using run publish by simp
  from network_run [OF this, of spurious "pf_capture pf" encode "todo(w := es)" pools]
  have "(deployed_step spurious (pf_capture pf) encode ^^ Suc (length (unsent ss @ wp_queue ?s)))
      ((?sy, todo(w := es)), pools) ((sy\<lparr>sy_ws := (pub @ [serialize a], dr', s')\<rparr>, todo(w := es)), pools)"
    by (simp del: relpowp.simps)
  ultimately have "(deployed_step spurious (pf_capture pf) encode ^^ Suc (Suc (length (unsent ss @ wp_queue ?s))))
      ((sy, todo), pools) ((sy\<lparr>sy_ws := (pub @ [serialize a], dr', s')\<rparr>, todo(w := es)), pools)"
    by (rule relpowp_Suc_I2)
  with ss' queue show ?thesis
    by (intro exI [of _ "Suc (Suc (length (unsent ss @ wp_queue ?s)))"]
        exI [of _ "sy\<lparr>sy_ws := (pub @ [serialize a], dr', s')\<rparr>"] exI [of _ ss']) simp
qed

subsection \<open>A concrete alert\<close>

text \<open>A client connects; then the worker finds a person at a forklift.\<close>

lemma scene_alert_facts:
  "case pool_acts default_pipeline_config scene_deps (camera_ops demo_api) (butlast frame_acts) scene_pooled of
     None \<Rightarrow> False
   | Some ((p, tr), s) \<Rightarrow> tp_count s = 1 \<and> (case tp_workers s 0 of Running i \<Rightarrow> i = 0 | _ \<Rightarrow> False) \<and> length (pl_workers p) = 1 \<and>
       (case inference_step default_pipeline_config scene_deps 0 0 0 p of
          None \<Rightarrow> False
        | Some (p', out) \<Rightarrow> (case out of [Alert_Publish a] \<Rightarrow> al_timestamp a = 0 | _ \<Rightarrow> False))"
  by code_simp

lemma scene_alert:
  obtains sy pools a pub dr s i ss where
    "deployed_reachable False scene_platform scene_encode scene_argv ((sy, (\<lambda>w. [])((0, 0) := [Alert_Publish a])), pools)"
    "sy_ws sy = (pub, dr, s)" "(i, ss) \<in> set (wp_sessions s)" "ss_ready ss" "unsent ss = []"
proof -
  obtain p tr s where run: "pool_acts default_pipeline_config scene_deps (camera_ops demo_api) (butlast frame_acts) scene_pooled = Some ((p, tr), s)"
    using scene_alert_facts by (auto split: option.splits)
  note facts = scene_alert_facts [unfolded run option.case prod.case]
  obtain p' out where out: "inference_step default_pipeline_config scene_deps 0 0 0 p = Some (p', out)"
    using facts by (auto split: option.splits)
  note facts = facts [unfolded out option.case prod.case]
  obtain a where "out = [Alert_Publish a]" using facts by (cases out; cases "hd out"; cases "tl out") auto
  with out have step: "inference_step default_pipeline_config scene_deps 0 0 0 p = Some (p', [Alert_Publish a])" by simp
  let ?pools = "(\<lambda>k. tp_new (pc_inference_workers (cp_cfg (sy_pipes scene_start ! k))))(0 := s)"
  have no_stop: "Act_Stop \<notin> set (butlast frame_acts)" by (auto simp: frame_acts_def dest!: in_set_butlastD)
  have "\<exists>sy'. deployed_reachable False scene_platform scene_encode scene_argv ((sy', \<lambda>w. []), ?pools) \<and>
      same_phase scene_start sy' \<and> sy_pipes sy' = sy_pipes (set_pipe 0 (p, tr) scene_start)"
    using run no_stop by (intro deployed_acts [OF deployed_reachable.start [OF scene_setup], of 0 "butlast frame_acts"])
      (simp_all add: scene_pooled_def)
  then obtain sy where sy: "deployed_reachable False scene_platform scene_encode scene_argv ((sy, \<lambda>w. []), ?pools)"
    "same_phase scene_start sy" "sy_pipes sy = [scene_pipe\<lparr>cp_state := (p, tr)\<rparr>]"
    by (auto simp: set_pipe_def simp del: fun_upd_apply)
  obtain pub dr s0 where ws: "sy_ws sy = (pub, dr, s0)" by (rule prod_cases3)
  have running: "wp_running s0" using sy(2) ws by (simp add: same_phase_def scene_start_def ws_start_def ws_new_def)
  have "publisher_alive sy" using publisher_alive_reachable [OF conjunct1 [OF deployed_refines [OF sy(1)]]] by simp
  then have alive: "\<not> wp_stopped s0" using sy(2) ws by (simp add: publisher_alive_def same_phase_def)
  obtain i where i: "i \<notin> fst ` set (wp_sessions s0)" 
    using ex_new_if_finite [OF infinite_UNIV_nat, of "fst ` set (wp_sessions s0)"] by auto
  let ?s1 = "accept_done False i s0" and ?ss = "session_new\<lparr>ss_ready := True\<rparr>"
  let ?s2 = "handshake_done False i ?s1"
  let ?sy1 = "sy\<lparr>sy_ws := (pub, dr, ?s1)\<rparr>" and ?sy2 = "sy\<lparr>sy_ws := (pub, dr, ?s2)\<rparr>"
  have s1: "wp_running ?s1" "\<not> wp_stopped ?s1" "(i, session_new) \<in> set (wp_sessions ?s1)"
    using running alive by (simp_all add: accept_done_def)
  have "network_step (sy_ws sy) (pub, dr, ?s1)"
    using ws_step.accept [OF alive i, of pub dr False] by (simp add: ws network_step_def accept_done_def)
  from deployed_reachable.step [OF sy(1) network_deployed [OF this]]
  have r1: "deployed_reachable False scene_platform scene_encode scene_argv ((?sy1, \<lambda>w. []), ?pools)" .
  have "network_step (sy_ws ?sy1) (pub, dr, ?s2)"
    using ws_step.handshake [OF s1(2,3), of pub dr False]
    by (simp add: network_step_def handshake_done_def update_session_def session_new_def)
  from deployed_reachable.step [OF r1 network_deployed [OF this]]
  have r2: "deployed_reachable False scene_platform scene_encode scene_argv ((?sy2, \<lambda>w. []), ?pools)" by simp
  have "(i, ?ss) \<in> set (wp_sessions ?s2)"
    using s1(3) by (auto simp: handshake_done_def update_session_def intro: rev_image_eqI)
  moreover have "tp_workers s 0 = Running 0" "tp_count s = 1" "length (pl_workers p) = 1"
    using facts by (auto split: Thread_Pool.worker.splits)
  then have "deployed_step False demo_api scene_encode ((?sy2, \<lambda>w. []), ?pools)
      ((set_pipe 0 (p', trace_worker 0 0 0 (pl_workers p ! 0) (pl_workers p' ! 0) [Alert_Publish a] tr) ?sy2,
        (\<lambda>w. [])((0, 0) := [Alert_Publish a])), ?pools)"
    using sy(3) step by (intro deployed_step.iteration [where j = 0]) simp_all
  with deployed_reachable.step [OF r2]
  have "deployed_reachable False scene_platform scene_encode scene_argv
      ((set_pipe 0 (p', trace_worker 0 0 0 (pl_workers p ! 0) (pl_workers p' ! 0) [Alert_Publish a] tr) ?sy2,
        (\<lambda>w. [])((0, 0) := [Alert_Publish a])), ?pools)" by simp
  note r3 = that [OF this]
  ultimately show thesis by (intro r3 [of pub dr ?s2 i ?ss]) (simp_all add: unsent_def session_new_def)
qed

theorem alert_reaches_client_witness:
  "\<exists>n x y w a i ss'. n \<le> 258 \<and> deployed_reachable False scene_platform scene_encode scene_argv x \<and>
     snd (fst x) w = [Alert_Publish a] \<and> (deployed_step False demo_api scene_encode ^^ n) x y \<and> snd (fst y) w = [] \<and>
     (i, ss') \<in> set (wp_sessions (snd (snd (sy_ws (fst (fst y)))))) \<and> last (ss_received ss') = serialize a"
proof -
  obtain sy pools a pub dr s i ss where
    r: "deployed_reachable False scene_platform scene_encode scene_argv ((sy, (\<lambda>w. [])((0, 0) := [Alert_Publish a])), pools)"
    and ws: "sy_ws sy = (pub, dr, s)" "(i, ss) \<in> set (wp_sessions s)" "ss_ready ss" "unsent ss = []"
    by (rule scene_alert)
  from alert_reaches_client [OF r, of "(0, 0)" a "[]", OF _ ws(1-3)] ws(4) obtain n sy' ss' where
    "n \<le> 258" "(deployed_step False demo_api scene_encode ^^ n) ((sy, (\<lambda>w. [])((0, 0) := [Alert_Publish a])), pools)
       ((sy', (\<lambda>w. [])((0, 0) := [])), pools)"
    "(i, ss') \<in> set (wp_sessions (snd (snd (sy_ws sy'))))"
    "ss_received ss' = session_stream ss @ drop (Suc (length (wp_queue s)) - 256) (wp_queue s @ [serialize a])"
    by auto
  moreover from this(4) have "last (ss_received ss') = serialize a" by (simp add: last_drop)
  ultimately show ?thesis using r
    by (intro exI [of _ n] exI [of _ "((sy, (\<lambda>w. [])((0, 0) := [Alert_Publish a])), pools)"]
        exI [of _ "((sy', (\<lambda>w. [])((0, 0) := [])), pools)"] exI [of _ "(0, 0)"] exI [of _ a] exI [of _ i] exI [of _ ss']) simp
qed

end
