(* ===== verification/Live_View.thy ===== *)
theory Live_View
  imports Application Http_Session Config_Roundtrip
begin

text \<open>
  The live view from the camera to the browser: the running system of \<open>Application\<close> with one
  connection of its viewer (\<open>Http_Session\<close>).
\<close>

subsection \<open>The system with a browser\<close>

text \<open>The counter is the number of steps of the system.\<close>

inductive live_reachable ::
  "('n, 'c, 'm) platform \<Rightarrow> (int \<Rightarrow> 'm \<Rightarrow> string option) \<Rightarrow> string list \<Rightarrow>
   ('c, 'm) system \<times> http_conn option \<times> nat \<Rightarrow> bool"
  for pf encode argv
where
  start: "main_setup pf argv = Inr sy \<Longrightarrow> live_reachable pf encode argv (sy, None, 0)"
| system: "live_reachable pf encode argv (sy, c, n) \<Longrightarrow> system_step (pf_capture pf) encode sy sy' \<Longrightarrow>
    live_reachable pf encode argv (sy', c, Suc n)"
| accept: "live_reachable pf encode argv (sy, None, n) \<Longrightarrow> sy_viewer sy = Some v \<Longrightarrow>
    mjpeg_accept ec v = (Some hs, again) \<Longrightarrow>
    live_reachable pf encode argv (sy, Some (http_run (http_conn_new (ms_cfg v) hs)), n)"
| handle: "live_reachable pf encode argv (sy, Some c, n) \<Longrightarrow> sy_viewer sy = Some v \<Longrightarrow> i < length (hc_pending c) \<Longrightarrow>
    complete files order (ms_state v) ec target i c = Inr c' \<Longrightarrow>
    live_reachable pf encode argv (sy, Some c', n)"

text \<open>The system and its connection are a viewer with a connection.\<close>

definition live_inv ::
  "('n, 'c, 'm) platform \<Rightarrow> (int \<Rightarrow> 'm \<Rightarrow> string option) \<Rightarrow> ('c, 'm) system \<times> http_conn option \<times> nat \<Rightarrow> bool"
where
  "live_inv pf encode h = (case h of (sy, c, n) \<Rightarrow>
     (case sy_viewer sy of
        None \<Rightarrow> c = None
      | Some v \<Rightarrow> (\<exists>cfg m. m \<le> n \<and> http_reachable cfg (vc_mat_empty (pf_capture pf)) encode (v, c, m))))"

text \<open>How often an iteration updates the detections.\<close>

definition det_updates :: "'m effect list \<Rightarrow> nat" where
  "det_updates es = length (filter (\<lambda>e. case e of Stream_Detections c ds zs w h \<Rightarrow> True | _ \<Rightarrow> False) es)"

lemma det_updates_simps [simp]:
  "det_updates [] = 0" "det_updates (es @ es') = det_updates es + det_updates es'"
  "det_updates (e # es) = (case e of Stream_Detections c ds zs w h \<Rightarrow> 1 | _ \<Rightarrow> 0) + det_updates es"
  by (simp_all add: det_updates_def split: effect.splits)

text \<open>Effects without a part for the viewer.\<close>

definition unseen :: "'m effect list \<Rightarrow> bool" where
  "unseen es = list_all (\<lambda>e. case e of Stream_Frame f \<Rightarrow> False | Stream_Detections c ds zs w h \<Rightarrow> False | _ \<Rightarrow> True) es"

lemma view_all_unseen: "unseen es \<Longrightarrow> view_all me encode (es @ es') v = view_all me encode es' v"
  by (induction es) (auto simp: unseen_def split: effect.splits)

lemma det_updates_unseen: "unseen es \<Longrightarrow> det_updates es = 0"
  by (induction es) (auto simp: unseen_def split: effect.splits)

lemma stale_unseen: "unseen (stale_effects cfg deps now fr)"
  by (simp add: unseen_def stale_effects_def Let_def)

lemma alerts_loop_unseen:
  "\<exists>tail. snd (alerts_loop cfg publish ts as seen out) = out @ tail \<and> unseen tail"
proof (induction as arbitrary: seen out)
  case Nil
  show ?case by (intro exI [of _ "[]"]) (simp add: unseen_def)
next
  case (Cons a as)
  show ?case
  proof (cases "in_cooldown cfg ts seen (al_forklift_track_id a)")
    case False
    let ?log = "if vr_ok (publish a) then [] else [Log_Publish_Failed (err_message (vr_err (publish a)))]"
    from Cons.IH obtain tail where "snd (alerts_loop cfg publish ts as (seen(al_forklift_track_id a \<mapsto> ts))
        (out @ Alert_Publish a # ?log)) = (out @ Alert_Publish a # ?log) @ tail" "unseen tail" by blast
    with False show ?thesis
      by (intro exI [of _ "Alert_Publish a # ?log @ tail"]) (auto simp: Let_def unseen_def)
  qed (use Cons.IH in simp)
qed

text \<open>The effects of an iteration on a frame with a result.\<close>

lemma process_frame_out:
  assumes "process_frame cfg deps now ts fr seen = Inr (seen', out)"
  obtains (empty) "frame_empty (pd_mat_empty deps) fr" "out = []"
    | (failed) e where "\<not> frame_empty (pd_mat_empty deps) fr" "pd_infer deps fr = Inr (Inl e)" "unseen out"
    | (result) ds pre tail where "\<not> frame_empty (pd_mat_empty deps) fr" "pd_infer deps fr = Inr (Inr ds)"
      "out = pre @ viewer_effects cfg deps fr ds @ tail" "unseen pre" "unseen tail"
proof (cases "frame_empty (pd_mat_empty deps) fr")
  case True
  with assms empty show thesis by (simp add: process_frame_def)
next
  case False
  show thesis
  proof (cases "pd_infer deps fr")
    case (Inl e)
    with False assms show thesis by (simp add: process_frame_def)
  next
    case (Inr r)
    show thesis
    proof (cases r)
      case (Inl e)
      with Inr False assms have "out = stale_effects cfg deps now fr @ [Log_Infer_Failed (err_message e)]"
        by (simp add: process_frame_def Let_def)
      then have "unseen out" using stale_unseen [of cfg deps now fr] by (simp add: unseen_def)
      with Inr Inl False failed show thesis by simp
    next
      case ds: (Inr ds)
      obtain tail where "snd (alerts_loop cfg (pd_publish deps) ts (evaluate (pd_risk deps) (pd_camera_id deps) ds ts) seen
          (stale_effects cfg deps now fr @ viewer_effects cfg deps fr ds)) =
          (stale_effects cfg deps now fr @ viewer_effects cfg deps fr ds) @ tail" "unseen tail"
        using alerts_loop_unseen by blast
      with ds Inr False assms have "out = stale_effects cfg deps now fr @ viewer_effects cfg deps fr ds @ tail"
        by (simp add: process_frame_def Let_def)
      with result Inr ds False stale_unseen \<open>unseen tail\<close> show thesis by blast
    qed
  qed
qed

lemma iteration_updates: "inference_step cfg deps now ts i p = Some (p', out) \<Longrightarrow> det_updates out \<le> 1"
proof (elim inference_step_cases)
  fix m f m'
  assume "process_frame cfg deps now ts f m = Inr (m', out)"
  then show "det_updates out \<le> 1"
  proof (cases rule: process_frame_out)
    case (result ds pre tail)
    have "det_updates (viewer_effects cfg deps f ds) \<le> 1"
      by (simp add: viewer_effects_def Let_def split: option.splits)
    with result show ?thesis by (simp add: det_updates_unseen)
  qed (simp_all add: det_updates_unseen)
qed simp_all

lemma view_all_reachable:
  "view_all me encode es v = Inr v' \<Longrightarrow> http_reachable cfg me encode (v, c, m) \<Longrightarrow>
   \<exists>m' \<le> m + det_updates es. http_reachable cfg me encode (v', c, m')"
proof (induction me encode es v arbitrary: m rule: view_all.induct)
  case (2 me encode f es v)
  from 2(1) [OF _ http_reachable.frame [OF 2(3)]] 2(2) show ?case by simp
next
  case (3 me encode cam ds zs w h es v)
  then obtain v1 where v1: "mjpeg_publish_detections cam ds zs w h v = Inr v1" "view_all me encode es v1 = Inr v'"
    by (auto split: sum.splits)
  have "\<exists>k \<le> Suc m. http_reachable cfg me encode (v1, c, k)"
  proof (cases "ms_running v")
    case True
    with http_reachable.detections [OF 3(3) _ v1(1)] show ?thesis by blast
  next
    case False
    with v1(1) 3(3) show ?thesis by (auto simp: mjpeg_publish_detections_def intro: exI [of _ m])
  qed
  then obtain k where "k \<le> Suc m" "http_reachable cfg me encode (v1, c, k)" by blast
  from 3(1) [OF v1 this(2)] obtain m' where "m' \<le> k + det_updates es" "http_reachable cfg me encode (v', c, m')"
    by blast
  with \<open>k \<le> Suc m\<close> show ?case by (intro exI [of _ m']) simp
qed auto


lemma view_effects_reachable:
  assumes "view_effects me encode es (Some v) = Inr w" "http_reachable cfg me encode (v, c, m)"
  obtains v' m' where "w = Some v'" "m' \<le> m + det_updates es" "http_reachable cfg me encode (v', c, m')"
  using assms view_all_reachable [OF _ assms(2)]
  by (auto simp: view_effects_def split: sum.splits)

text \<open>What a step of the system does to the viewer.\<close>

lemma system_step_viewer:
  assumes "system_step api encode sy sy'"
  obtains (same) "sy_viewer sy' = sy_viewer sy"
    | (effects) es where "det_updates es \<le> 1"
        "view_effects (vc_mat_empty api) encode es (sy_viewer sy) = Inr (sy_viewer sy')"
    | (stop) "sy_viewer sy' = map_option mjpeg_stop (sy_viewer sy)"
  using assms by cases (auto simp: set_pipe_def dest: iteration_updates)

lemma live_inv_start: "main_setup pf argv = Inr sy \<Longrightarrow> live_inv pf encode (sy, None, 0)"
proof -
  assume started: "main_setup pf argv = Inr sy"
  have "\<exists>cfg. http_reachable cfg me encode (v, None, 0)"
    if "setup_viewer bind vcfg = Some v" for bind vcfg v me
  proof -
    from that have "v = snd (mjpeg_start (\<lambda>_ _. Inr ()) (mjpeg_new vcfg))"
      by (auto simp: setup_viewer_def mjpeg_start_def mjpeg_new_def vr_ok_def vr_success_def vr_failure_def
          split: if_splits sum.splits prod.splits)
    with http_reachable.init show ?thesis by metis
  qed
  with started show ?thesis
    by (auto simp: live_inv_def main_setup_def Let_def split: sum.splits prod.splits if_splits option.splits)
qed

lemma live_inv_system:
  assumes "live_inv pf encode (sy, c, n)" "system_step (pf_capture pf) encode sy sy'"
  shows "live_inv pf encode (sy', c, Suc n)"
  using assms(2)
proof (cases rule: system_step_viewer)
  case same
  with assms(1) show ?thesis by (auto simp: live_inv_def split: option.splits intro: le_SucI)
next
  case (effects es)
  show ?thesis
  proof (cases "sy_viewer sy")
    case None
    with effects(2) assms(1) show ?thesis by (auto simp: live_inv_def view_effects_def)
  next
    case (Some v)
    with assms(1) obtain cfg m where m: "m \<le> n" "http_reachable cfg (vc_mat_empty (pf_capture pf)) encode (v, c, m)"
      by (auto simp: live_inv_def)
    from view_effects_reachable [OF effects(2) [unfolded Some] m(2)] effects(1) m(1) show ?thesis
      by (fastforce simp: live_inv_def)
  qed
next
  case stop
  show ?thesis
  proof (cases "sy_viewer sy")
    case (Some v)
    with assms(1) obtain cfg m where m: "m \<le> n" "http_reachable cfg (vc_mat_empty (pf_capture pf)) encode (v, c, m)"
      by (auto simp: live_inv_def)
    have "m \<le> Suc n" using m(1) by simp
    with http_reachable.stop [OF m(2)] have
      "\<exists>cfg m. m \<le> Suc n \<and> http_reachable cfg (vc_mat_empty (pf_capture pf)) encode (mjpeg_stop v, c, m)" by blast
    with stop Some show ?thesis by (simp add: live_inv_def)
  qed (use assms(1) stop in \<open>simp add: live_inv_def\<close>)
qed

lemma live_inv_reachable: "live_reachable pf encode argv h \<Longrightarrow> live_inv pf encode h"
proof (induction rule: live_reachable.induct)
  case (start sy)
  then show ?case by (rule live_inv_start)
next
  case (system sy c n sy')
  from live_inv_system [OF system(3,2)] show ?case .
next
  case (accept sy n v ec hs again)
  then show ?case by (fastforce simp: live_inv_def intro: http_reachable.accept)
next
  case (handle sy c n v i files order ec target c')
  then show ?case by (fastforce simp: live_inv_def intro: http_reachable.handle)
qed


subsection \<open>What the viewer shows\<close>

text \<open>How the set-up has wired a pipeline to the viewer: the zones shown are those of the risk evaluation.\<close>

definition wired :: "('c, 'm) capture_api \<Rightarrow> ('c, 'm) camera_pipe \<Rightarrow> bool" where
  "wired api cp = (pd_mat_empty (cp_deps cp) = vc_mat_empty api \<and>
     (pd_stream (cp_deps cp) \<longrightarrow> pc_enable_viewer (cp_cfg cp) \<and> pd_detection_stream (cp_deps cp) \<and>
        pd_zone_service (cp_deps cp) = Some (pd_risk (cp_deps cp))))"

lemma setup_camera_wired:
  "setup_camera pf cfg publisher viewer k cam = Some cp \<Longrightarrow> wired (pf_capture pf) cp"
  by (auto simp: setup_camera_def wired_def Let_def make_deps_def enable_viewer_def
      split: option.splits prod.splits if_splits)

lemma setup_cameras_wired:
  "list_all (wired (pf_capture pf)) pipes \<Longrightarrow>
   list_all (wired (pf_capture pf)) (snd (setup_cameras pf cfg publisher viewer cams pipes))"
  by (induction cams arbitrary: pipes) (auto split: option.splits dest: setup_camera_wired)

lemma wired_reachable:
  "live_reachable pf encode argv h \<Longrightarrow> list_all (wired (pf_capture pf)) (sy_pipes (fst h))"
proof (induction rule: live_reachable.induct)
  case (start sy)
  then show ?case
    using setup_cameras_wired [of pf "[]"]
    by (auto simp: main_setup_def Let_def split: sum.splits prod.splits if_splits) (metis snd_conv)+
next
  case (system sy c n sy')
  from system(2,3) show ?case
    by cases (auto simp: set_pipe_def list_all_length nth_list_update wired_def)
qed simp_all

lemma view_all_result:
  assumes "process_frame cfg deps now ts fr seen = Inr (seen', out)" "\<not> frame_empty (pd_mat_empty deps) fr"
    and "pd_infer deps fr = Inr (Inr ds)" "view_all me encode out v = Inr v'"
    and "pc_enable_viewer cfg" "pd_stream deps" "pd_detection_stream deps" "pd_zone_service deps = Some zcfg"
  shows "mjpeg_publish_detections (pd_camera_id deps) ds (zones_for zcfg (collect_forklifts ds []))
      (fst (pd_mat_size deps (fr_image fr))) (snd (pd_mat_size deps (fr_image fr))) (mjpeg_publish me encode fr v) = Inr v'"
  using assms(1)
proof (cases rule: process_frame_out)
  case (result ds' pre tail)
  have quiet: "view_all me encode tail w = Inr w" for w
    using view_all_unseen [OF result(5), of me encode "[]" w] by simp
  have "view_all me encode (viewer_effects cfg deps fr ds @ tail) v = Inr v'"
    using result(2,3) assms(3,4) view_all_unseen [OF result(4)] by simp
  with assms(5-8) quiet show ?thesis by (simp add: viewer_effects_def Let_def split: sum.splits)
qed (use assms(2,3) in auto)

lemma mjpeg_tick_dets [simp]: "mjpeg_tick (store_dets cam json st) hs = mjpeg_tick st hs"
  by (simp add: mjpeg_tick_def latest_for_def store_dets_def Let_def)


text \<open>
  The text the next tick of a stream sends after the worker's iteration: the frame it processed, or
  the detections and zones of that frame.
\<close>

definition shows_result ::
  "stream_kind \<Rightarrow> 'm pipeline_deps \<Rightarrow> 'm frame \<Rightarrow> detection list \<Rightarrow> string \<Rightarrow> string \<Rightarrow> bool"
where
  "shows_result kind deps fr ds jpeg t =
     (case kind of
        Mjpeg_Stream \<Rightarrow> t = mjpeg_chunk jpeg
      | Sse_Stream \<Rightarrow>
          (\<exists>json pre post. t = pre @ sse_chunk json @ post \<and>
             detections_json (pd_camera_id deps) ds (zones_for (pd_risk deps) (collect_forklifts ds []))
               (fst (pd_mat_size deps (fr_image fr))) (snd (pd_mat_size deps (fr_image fr))) = Inr json))"

text \<open>The stream that is meant: one for the camera, or one for all cameras in whatever order they come.\<close>

definition follows ::
  "stream_kind \<Rightarrow> string list \<Rightarrow> 'm pipeline_deps \<Rightarrow> 'm frame \<Rightarrow> string \<Rightarrow> bool"
where
  "follows kind order deps fr cam =
     (case kind of
        Mjpeg_Stream \<Rightarrow> cam = fr_camera_id fr \<and> cam \<noteq> []
      | Sse_Stream \<Rightarrow> if cam = [] then pd_camera_id deps \<in> set order else cam = pd_camera_id deps)"

lemma result_ticks:
  assumes viewer: "viewer_reachable cfg cam me encode (v, hs, m)" "Suc m < 2 ^ 64" "ms_running v"
    and published: "mjpeg_publish_detections (pd_camera_id deps) ds (zones_for (pd_risk deps) (collect_forklifts ds []))
      (fst (pd_mat_size deps (fr_image fr))) (snd (pd_mat_size deps (fr_image fr))) (mjpeg_publish me encode fr v) = Inr v'"
    and stream: "follows kind order deps fr (hs_camera hs)" "\<not> me (fr_image fr)"
    and jpeg: "encode (if 0 < vw_jpeg_quality (ms_cfg v) then vw_jpeg_quality (ms_cfg v) else 75) (fr_image fr) = Some jpeg"
  shows "\<exists>t. tick_text kind order (ms_state v') hs = Some t \<and> shows_result kind deps fr ds jpeg t"
proof -
  have run: "ms_running (mjpeg_publish me encode fr v)"
    using viewer(3) by (simp add: mjpeg_publish_def split: option.splits)
  have cam: "hs_camera hs = cam"
    using viewer_inv_reachable [OF viewer(1)] by (simp add: viewer_inv_def Let_def)
  obtain json where "ms_state v' = store_dets (pd_camera_id deps) json (ms_state (mjpeg_publish me encode fr v))"
    by (rule publish_detections_state [OF published run])
  with mjpeg_tick_published [OF viewer(1) _ _ viewer(3) stream(2) jpeg] stream(1) have mjpeg: ?thesis if "kind = Mjpeg_Stream"
    using that by (auto simp: tick_text_def shows_result_def follows_def)
  have sse: ?thesis if "kind = Sse_Stream"
  proof -
    have "if cam = [] then pd_camera_id deps \<in> set order else pd_camera_id deps = cam"
      using stream(1) that cam by (auto simp: follows_def split: if_splits)
    from sse_tick_published [OF viewer_reachable.frame [OF viewer(1)] viewer(2) run published this] that
    show ?thesis by (auto simp: tick_text_def shows_result_def)
  qed
  show ?thesis using mjpeg sse by (cases kind) auto
qed

text \<open>
  C5: The live view is live: in every state of the running system with a browser on a stream, when a worker whose
  pipeline is wired to the viewer finishes the iteration on a frame, at most three further operations
  of the connection send that frame, or the JSON of its detections with exactly the zones the
  risk evaluation used, provided that no operation fails and nothing newer is published meanwhile.
\<close>

theorem live_view_end_to_end:
  assumes live: "live_reachable pf encode argv (sy, Some c, n)" "Suc n < 2 ^ 64" "sy_viewer sy = Some v" "ms_running v"
    and conn: "hc_pending c = [op]" "op_stream op = Some kind"
    and worker: "k < length (sy_pipes sy)" "sy_pipes sy ! k = cp" "cp_state cp = (p, tr)" "i < length (pl_workers p)"
      "pl_workers p ! i = Wk_Frame seen fr" "pd_stream (cp_deps cp)"
    and step: "inference_step (cp_cfg cp) (cp_deps cp) now ts i p = Some (p', out)"
      "view_effects (vc_mat_empty (pf_capture pf)) encode out (Some v) = Inr (Some v')"
    and frame: "\<not> vc_mat_empty (pf_capture pf) (fr_image fr)" "pd_infer (cp_deps cp) fr = Inr (Inr ds)"
      "encode (if 0 < vw_jpeg_quality (ms_cfg v) then vw_jpeg_quality (ms_cfg v) else 75) (fr_image fr) = Some jpeg"
    and stream: "follows kind order (cp_deps cp) fr (hs_camera (hc_session c))"
  shows "\<exists>sy'. live_reachable pf encode argv (sy', Some c, Suc n) \<and> sy_viewer sy' = Some v' \<and>
    (\<exists>m c' old t. m \<le> 3 \<and> advance files order (ms_state v') m c = Inr c' \<and>
       hc_sent c' = hc_sent c @ old @ [t] \<and> shows_result kind (cp_deps cp) fr ds jpeg t)"
proof -
  let ?sy' = "(set_pipe k (p', trace_worker i now ts (pl_workers p ! i) (pl_workers p' ! i) out tr) sy)
    \<lparr>sy_viewer := Some v', sy_ws := publish_all 0 (alerts_of out) (sy_ws sy)\<rparr>"
  have "system_step (pf_capture pf) encode sy ?sy'"
    using system_step.worker [OF worker(1), of p tr i now ts p' out "pf_capture pf" encode "Some v'" 0] worker step live(3)
    by simp
  then have reach: "live_reachable pf encode argv (?sy', Some c, Suc n)" by (rule live_reachable.system [OF live(1)])
  obtain cfg m where m: "m \<le> n" "http_reachable cfg (vc_mat_empty (pf_capture pf)) encode (v, Some c, m)"
    using live_inv_reachable [OF live(1)] live(3) by (auto simp: live_inv_def)
  then obtain cam where viewer: "viewer_reachable cfg cam (vc_mat_empty (pf_capture pf)) encode (v, hc_session c, m)"
    using session_of_viewer_reachable [OF m(2)] by (auto simp: session_of_viewer_def)
  have wired: "wired (pf_capture pf) cp"
    using wired_reachable [OF live(1)] worker(1,2) by (auto simp: list_all_length)
  obtain seen' where "process_frame (cp_cfg cp) (cp_deps cp) now ts fr seen = Inr (seen', out)"
    using step(1) worker(5) frame(1,2) wired
    by (auto simp: inference_step_def process_frame_def frame_empty_def wired_def Let_def split: sum.splits prod.splits)
  moreover have "view_all (vc_mat_empty (pf_capture pf)) encode out v = Inr v'"
    using step(2) by (simp add: view_effects_def split: sum.splits)
  ultimately have "mjpeg_publish_detections (pd_camera_id (cp_deps cp)) ds
      (zones_for (pd_risk (cp_deps cp)) (collect_forklifts ds []))
      (fst (pd_mat_size (cp_deps cp) (fr_image fr))) (snd (pd_mat_size (cp_deps cp) (fr_image fr)))
      (mjpeg_publish (vc_mat_empty (pf_capture pf)) encode fr v) = Inr v'"
    using frame(1,2) wired worker(6) by (intro view_all_result) (auto simp: wired_def frame_empty_def)
  from result_ticks [OF viewer _ live(4) this stream frame(1,3)] m(1) live(2) obtain t where
    t: "tick_text kind order (ms_state v') (hc_session c) = Some t" "shows_result kind (cp_deps cp) fr ds jpeg t"
    by auto
  have "http_inv c" using http_inv_reachable [OF m(2)] by simp
  from advance_sends_tick [OF this conn t(1), of files] t(2) reach show ?thesis
    by (intro exI [of _ ?sy']) auto
qed


subsection \<open>A concrete live view\<close>

text \<open>Moves of a pipeline that show nothing.\<close>

definition quiet_move :: "move \<Rightarrow> ('s, 'm) pipeline \<times> 'm trace \<Rightarrow> bool" where
  "quiet_move mv h =
     (case mv of
        Move_Capture t \<Rightarrow> True
      | Move_Worker i ts \<Rightarrow> (case pl_workers (fst h) ! i of Wk_Frame m f \<Rightarrow> False | _ \<Rightarrow> True)
      | Move_Stop \<Rightarrow> False)"

fun quiet_run ::
  "pipeline_config \<Rightarrow> 'm pipeline_deps \<Rightarrow> ('s, 'm) source_ops \<Rightarrow> move list \<Rightarrow>
   ('s, 'm) pipeline \<times> 'm trace \<Rightarrow> (('s, 'm) pipeline \<times> 'm trace) option"
where
  "quiet_run cfg deps ops [] h = Some h"
| "quiet_run cfg deps ops (mv # mvs) h =
     (if quiet_move mv h
      then case pipe_move cfg deps ops mv h of None \<Rightarrow> None | Some h' \<Rightarrow> quiet_run cfg deps ops mvs h'
      else None)"

lemma quiet_move_live:
  assumes "live_reachable pf encode argv (sy, c, n)" "k < length (sy_pipes sy)" "sy_pipes sy ! k = cp"
    and "quiet_move mv (cp_state cp)"
    and "pipe_move (cp_cfg cp) (cp_deps cp) (camera_ops (pf_capture pf)) mv (cp_state cp) = Some h"
  shows "live_reachable pf encode argv (set_pipe k h sy, c, Suc n)"
proof -
  obtain p tr where state: "cp_state (sy_pipes sy ! k) = (p, tr)" by (rule prod.exhaust)
  have "system_step (pf_capture pf) encode sy (set_pipe k h sy)"
  proof (cases mv)
    case (Move_Capture t)
    with assms(3,5) state obtain p' where "capture_step (camera_ops (pf_capture pf)) (t, t) p = Some p'"
      "h = (p', trace_capture p p' tr)" by auto
    with system_step.capture [OF assms(2) state] show ?thesis by simp
  next
    case (Move_Worker i ts)
    with assms(3,5) state obtain p' out where step: "i < length (pl_workers p)"
      "inference_step (cp_cfg (sy_pipes sy ! k)) (cp_deps (sy_pipes sy ! k)) 0 ts i p = Some (p', out)"
      "h = (p', trace_worker i 0 ts (pl_workers p ! i) (pl_workers p' ! i) out tr)"
      by (auto split: if_splits)
    have "out = []"
      using step(2) assms(3,4) state Move_Worker by (elim inference_step_cases) (auto simp: quiet_move_def)
    with system_step.worker [OF assms(2) state step(1,2), of "pf_capture pf" encode "sy_viewer sy" 0] step(3)
    show ?thesis by (simp add: view_effects_def set_pipe_def split: option.splits)
  qed (use assms(4) in \<open>simp add: quiet_move_def\<close>)
  then show ?thesis by (rule live_reachable.system [OF assms(1)])
qed

lemma quiet_run_live:
  assumes "live_reachable pf encode argv (sy, c, n)" "k < length (sy_pipes sy)" "sy_pipes sy ! k = cp"
    and "quiet_run (cp_cfg cp) (cp_deps cp) (camera_ops (pf_capture pf)) mvs (cp_state cp) = Some h"
  shows "live_reachable pf encode argv (set_pipe k h sy, c, n + length mvs)"
  using assms
proof (induction mvs arbitrary: sy cp n)
  case Nil
  then have "cp\<lparr>cp_state := h\<rparr> = cp" by auto
  with Nil have "set_pipe k h sy = sy" by (simp add: set_pipe_def list_update_same_conv)
  with Nil show ?case by simp
next
  case (Cons mv mvs)
  obtain h1 where h1: "quiet_move mv (cp_state cp)"
    "pipe_move (cp_cfg cp) (cp_deps cp) (camera_ops (pf_capture pf)) mv (cp_state cp) = Some h1"
    "quiet_run (cp_cfg cp) (cp_deps cp) (camera_ops (pf_capture pf)) mvs h1 = Some h"
    using Cons.prems(4) by (auto split: if_splits option.splits)
  have "sy_pipes (set_pipe k h1 sy) ! k = cp\<lparr>cp_state := h1\<rparr>"
    using Cons.prems(2,3) by (simp add: set_pipe_def)
  from Cons.IH [OF quiet_move_live [OF Cons.prems(1-3) h1(1,2)] _ this] Cons.prems(2) h1(3)
  show ?case by (simp add: set_pipe_def)
qed

text \<open>The scene of \<open>Application\<close> with the viewer on, loaded from its document.\<close>

definition live_viewer :: viewer_config where
  "live_viewer = default_viewer_config\<lparr>vw_enabled := True\<rparr>"

definition live_pipeline :: pipeline_config where
  "live_pipeline = default_pipeline_config\<lparr>pc_enable_viewer := True\<rparr>"

definition live_camera :: camera_entry where
  "live_camera = default_camera_entry\<lparr>ce_pipeline := live_pipeline, ce_rtsp :=
     default_rtsp_config\<lparr>rc_camera_id := ''dock'', rc_rtsp_url := ''rtsp://dock''\<rparr>\<rparr>"

definition live_config :: system_config where
  "live_config = default_system_config\<lparr>cfg_inference := demo_inference_config, cfg_viewer := live_viewer,
     cfg_cameras := [live_camera]\<rparr>"

definition live_platform :: "(yaml_doc, bool, unit) platform" where
  "live_platform =
     \<lparr>pf_have_yaml = True, pf_yaml = tree_yaml (config_doc live_config), pf_ws_bind = (\<lambda>_ _. Inr ()),
      pf_viewer_bind = (\<lambda>_ _. Inr ()), pf_with_onnx = True, pf_engine = (\<lambda>_. scene_engine_api),
      pf_capture = demo_api, pf_capture_new = False, pf_now = 0\<rparr>"

definition live_deps :: "unit pipeline_deps" where
  "live_deps = scene_deps\<lparr>pd_stream := True, pd_detection_stream := True,
     pd_zone_service := Some default_safety_zone_config\<rparr>"

definition live_pipe :: "(bool, unit) camera_pipe" where
  "live_pipe =
     \<lparr>cp_cfg = live_pipeline, cp_deps = live_deps, cp_source = scene_source,
      cp_state = (pl_start live_pipeline (pl_new live_pipeline scene_source), no_trace)\<rparr>"

definition live_server :: mjpeg_server where
  "live_server = snd (mjpeg_start (\<lambda>_ _. Inr ()) (mjpeg_new live_viewer))"

definition live_start :: "(bool, unit) system" where
  "live_start =
     \<lparr>sy_pipes = [live_pipe], sy_viewer = Some live_server,
      sy_ws = ([], [], snd (ws_start (\<lambda>_ _. Inr ()) (ws_new default_ws_config 0))), sy_main = Main_Wait,
      sy_stop = False, sy_exit = 0\<rparr>"

lemma live_load: "load_from_yaml True (tree_yaml (config_doc live_config)) ''system.yaml'' = Inr live_config"
proof (rule tree.document_back [OF _ refl])
  show "ya_load (tree_yaml (config_doc live_config)) ''system.yaml'' = Inr (config_doc live_config)"
    by (simp add: tree_yaml_def)
  show "config_expressible live_config"
    by (simp add: config_expressible_def live_config_def default_system_config_def demo_inference_config_def
        default_inference_config_def class_map_listed_def class_map_ok_def class_indices_def default_ws_config_def
        live_viewer_def default_viewer_config_def viewer_ok_def camera_expressible_def live_camera_def default_camera_entry_def
        default_rtsp_config_def live_pipeline_def default_pipeline_config_def is_u16_def is_int_def)
qed

lemma live_setup: "main_setup live_platform scene_argv = Inr live_start"
proof -
  have "find_arg scene_argv ''--config'' ''conf/system.yaml'' = ''system.yaml''"
    by (simp add: find_arg_def scene_argv_def)
  moreover have "setup_camera live_platform live_config p True 0 live_camera = Some live_pipe" for p
    by (simp add: setup_camera_def live_platform_def live_config_def make_engine_some default_system_config_def
        live_pipe_def live_deps_def scene_deps_def scene_source_def scene_engine_def make_source_def live_camera_def
        default_camera_entry_def onnx_initialize_def scene_engine_api_def demo_inference_config_def Let_def make_deps_def
        demo_api_def camera_ops_def rtsp_ops_def rtsp_new_def ws_publish_def enable_viewer_def live_pipeline_def fun_eq_iff)
  moreover have "cfg_cameras live_config = [live_camera]" "cfg_websocket live_config = default_ws_config"
    "cfg_viewer live_config = live_viewer"
    by (simp_all add: live_config_def default_system_config_def)
  moreover have "setup_viewer (\<lambda>_ _. Inr ()) live_viewer = Some live_server"
    by (simp add: setup_viewer_def live_server_def live_viewer_def mjpeg_start_def mjpeg_new_def vr_ok_def vr_success_def)
  moreover have "pf_have_yaml live_platform" "pf_yaml live_platform = tree_yaml (config_doc live_config)"
    "pf_ws_bind live_platform = (\<lambda>_ _. Inr ())" "pf_viewer_bind live_platform = (\<lambda>_ _. Inr ())" "pf_now live_platform = 0"
    by (simp_all add: live_platform_def)
  ultimately show ?thesis
    using live_load by (simp add: main_setup_def live_start_def ws_start_def ws_new_def Let_def)
qed


text \<open>A browser that asks for the detections of the camera \<open>dock\<close>.\<close>

definition live_conn :: http_conn where
  "live_conn =
     (case complete (\<lambda>_. None) [] (ms_state live_server) False ''/detections?camera=dock'' 0
            (http_run (http_conn_new live_viewer (http_session_new []))) of
        Inl e \<Rightarrow> http_conn_new live_viewer (http_session_new []) | Inr c \<Rightarrow> c)"

lemma live_conn_facts:
  "complete (\<lambda>_. None) [] (ms_state live_server) False ''/detections?camera=dock'' 0
     (http_run (http_conn_new live_viewer (http_session_new []))) = Inr live_conn"
  "hc_pending live_conn = [Write_Header Sse_Stream sse_header]" "hs_camera (hc_session live_conn) = ''dock''"
  "hc_sent live_conn = []"
  by code_simp+

lemma live_conn_reachable: "live_reachable live_platform encode scene_argv (live_start, Some live_conn, 0)"
proof -
  let ?c = "http_run (http_conn_new live_viewer (http_session_new []))"
  note start = live_reachable.start [OF live_setup, of encode]
  have viewer: "sy_viewer live_start = Some live_server" by (simp add: live_start_def)
  have "mjpeg_accept False live_server = (Some (http_session_new []), True)" "ms_cfg live_server = live_viewer"
    by (simp_all add: mjpeg_accept_def live_server_def mjpeg_start_def mjpeg_new_def)
  with live_reachable.accept [OF start viewer, of False "http_session_new []" True]
  have "live_reachable live_platform encode scene_argv (live_start, Some ?c, 0)" by simp
  from live_reachable.handle [OF this viewer _ live_conn_facts(1)] show ?thesis
    by (simp add: http_run_def do_read_def begin_op_def)
qed

definition live_moves :: "move list" where
  "live_moves = [Move_Capture 0, Move_Capture 1, Move_Capture 2, Move_Worker 0 0, Move_Worker 0 0, Move_Worker 0 0]"

lemma live_run_facts:
  "case quiet_run live_pipeline live_deps (camera_ops demo_api) live_moves (cp_state live_pipe) of
     None \<Rightarrow> False
   | Some (p, tr) \<Rightarrow> length (pl_workers p) = 1 \<and>
       (case pl_workers p ! 0 of
          Wk_Frame seen fr \<Rightarrow>
            (case inference_step live_pipeline live_deps 0 5 0 p of
               None \<Rightarrow> False
             | Some (p', out) \<Rightarrow>
                 (case view_effects (\<lambda>_. False) view_encode out (Some live_server) of Inr (Some w) \<Rightarrow> True | _ \<Rightarrow> False))
        | _ \<Rightarrow> False)"
  by code_simp

lemma live_run:
  obtains p tr seen fr p' out v' where
    "quiet_run live_pipeline live_deps (camera_ops demo_api) live_moves (cp_state live_pipe) = Some (p, tr)"
    "length (pl_workers p) = 1" "pl_workers p ! 0 = Wk_Frame seen fr"
    "inference_step live_pipeline live_deps 0 5 0 p = Some (p', out)"
    "view_effects (\<lambda>_. False) view_encode out (Some live_server) = Inr (Some v')"
proof -
  obtain p tr where run: "quiet_run live_pipeline live_deps (camera_ops demo_api) live_moves (cp_state live_pipe) = Some (p, tr)"
    using live_run_facts by (cases "quiet_run live_pipeline live_deps (camera_ops demo_api) live_moves (cp_state live_pipe)") auto
  note facts = live_run_facts [unfolded run option.case prod.case]
  obtain seen fr where worker: "pl_workers p ! 0 = Wk_Frame seen fr"
    using facts by (cases "pl_workers p ! 0") auto
  obtain p' out where step: "inference_step live_pipeline live_deps 0 5 0 p = Some (p', out)"
    using facts worker by (cases "inference_step live_pipeline live_deps 0 5 0 p") auto
  obtain w where "view_effects (\<lambda>_. False) view_encode out (Some live_server) = Inr w"
    using facts worker step by (cases "view_effects (\<lambda>_. False) view_encode out (Some live_server)") auto
  moreover from this obtain v' where "w = Some v'" using facts worker step by (cases w) auto
  ultimately show thesis using that run facts worker step by blast
qed

theorem live_view_end_to_end_witness:
  "\<exists>sy v' m c' old t fr. live_reachable live_platform view_encode scene_argv (sy, Some live_conn, 7) \<and>
     sy_viewer sy = Some v' \<and> m \<le> 3 \<and> advance (\<lambda>_. None) [] (ms_state v') m live_conn = Inr c' \<and>
     hc_sent c' = old @ [t] \<and>
     shows_result Sse_Stream live_deps fr [scene_person, scene_forklift] ''jpeg'' t"
proof -
  obtain p tr seen fr p' out v' where run:
    "quiet_run live_pipeline live_deps (camera_ops demo_api) live_moves (cp_state live_pipe) = Some (p, tr)"
    and p: "length (pl_workers p) = 1" "pl_workers p ! 0 = Wk_Frame seen fr"
    and step: "inference_step live_pipeline live_deps 0 5 0 p = Some (p', out)"
      "view_effects (\<lambda>_. False) view_encode out (Some live_server) = Inr (Some v')"
    by (rule live_run)
  let ?sy = "set_pipe 0 (p, tr) live_start"
  have pipe: "sy_pipes live_start = [live_pipe]" "cp_cfg live_pipe = live_pipeline" "cp_deps live_pipe = live_deps"
    "pf_capture live_platform = demo_api" "vc_mat_empty demo_api = (\<lambda>_. False)"
    by (simp_all add: live_start_def live_pipe_def live_platform_def demo_api_def)
  have sy: "live_reachable live_platform view_encode scene_argv (?sy, Some live_conn, 6)"
    using quiet_run_live [OF live_conn_reachable, of 0 live_pipe live_moves "(p, tr)" view_encode] run
    by (simp add: pipe) (simp add: live_moves_def eval_nat_numeral)
  have server: "sy_viewer ?sy = Some live_server" "ms_running live_server"
    by (simp_all add: set_pipe_def live_start_def live_server_def mjpeg_start_def mjpeg_new_def)
  have infer: "pd_infer live_deps fr = Inr (Inr [scene_person, scene_forklift])"
    using scene_infer [of fr] by (simp add: live_deps_def)
  have stream: "follows Sse_Stream [] live_deps fr ''dock''" "pd_stream live_deps"
    by (simp_all add: follows_def live_deps_def scene_deps_def)
  have "\<exists>sy'. live_reachable live_platform view_encode scene_argv (sy', Some live_conn, Suc 6) \<and> sy_viewer sy' = Some v' \<and>
    (\<exists>m c' old t. m \<le> 3 \<and> advance (\<lambda>_. None) [] (ms_state v') m live_conn = Inr c' \<and>
       hc_sent c' = hc_sent live_conn @ old @ [t] \<and>
       shows_result Sse_Stream live_deps fr [scene_person, scene_forklift] ''jpeg'' t)"
    using live_view_end_to_end [OF sy _ server live_conn_facts(2), of Sse_Stream 0 "live_pipe\<lparr>cp_state := (p, tr)\<rparr>" p tr 0
        seen fr 0 5 p' out v' "[scene_person, scene_forklift]" "''jpeg''" "[]" "\<lambda>_. None"]
      p step infer stream
    by (simp add: pipe live_conn_facts(3) view_encode_def)
  then show ?thesis using live_conn_facts(4) by (simp add: eval_nat_numeral) blast
qed

end
